theory Spec2Isabelle
  imports Main "HOL-Library.Word" "HOL-Library.Multiset" "HOL-Library.Product_Lexorder"
begin

section \<open>The distributed graph\<close>

text \<open>
  The per-process state of a distributed graph, as the constructor of
  \<^verbatim>\<open>DistributedCompressedGraph\<close> receives it. Identifiers and offsets are natural
  numbers (no overflow of the 64-bit global identifiers is modelled), weights are
  integers. The adjacency is kept decoded: \<open>edges\<close> lists the local targets of the
  CSR. The ghost directory \<open>global_to_ghost\<close> is keyed by the global identifier plus one,
  as every \<^verbatim>\<open>find(global_u + 1)\<close> of the source has it. An empty weight array means
  an unweighted graph.
\<close>

datatype error = AssertionFailure | UnknownGlobal | InvalidAccess

record graph =
  node_distribution :: "nat list"
  edge_distribution :: "nat list"
  nodes :: "nat list"
  edges :: "nat list"
  node_weights :: "int list"
  edge_weights :: "int list"
  ghost_owner :: "nat list"
  ghost_to_global :: "nat list"
  global_to_ghost :: "nat \<rightharpoonup> nat"
  pe_rank :: nat

definition graph_n :: "graph \<Rightarrow> nat" where
  "graph_n g = length (nodes g) - 1"

definition graph_m :: "graph \<Rightarrow> nat" where
  "graph_m g = length (edges g)"

definition ghost_n :: "graph \<Rightarrow> nat" where
  "ghost_n g = length (ghost_to_global g)"

definition total_n :: "graph \<Rightarrow> nat" where
  "total_n g = ghost_n g + graph_n g"

definition offset_n :: "graph \<Rightarrow> nat" where
  "offset_n g = node_distribution g ! pe_rank g"

definition global_n :: "graph \<Rightarrow> nat" where
  "global_n g = last (node_distribution g)"

definition is_node_weighted :: "graph \<Rightarrow> bool" where
  "is_node_weighted g = (node_weights g \<noteq> [])"

definition node_weight :: "graph \<Rightarrow> nat \<Rightarrow> int" where
  "node_weight g u = (if is_node_weighted g then node_weights g ! u else 1)"

definition is_edge_weighted :: "graph \<Rightarrow> bool" where
  "is_edge_weighted g = (edge_weights g \<noteq> [])"

definition edge_weight :: "graph \<Rightarrow> nat \<Rightarrow> int" where
  "edge_weight g e = (if is_edge_weighted g then edge_weights g ! e else 1)"

definition is_owned_global_node :: "graph \<Rightarrow> nat \<Rightarrow> bool" where
  "is_owned_global_node g global_u =
     (offset_n g \<le> global_u \<and> global_u < offset_n g + graph_n g)"

definition contains_global_node :: "graph \<Rightarrow> nat \<Rightarrow> bool" where
  "contains_global_node g global_u =
     (is_owned_global_node g global_u \<or> global_to_ghost g (global_u + 1) \<noteq> None)"

text \<open>
  A \<^verbatim>\<open>KASSERT\<close> is an assertion of checked builds; where one fails the model returns
  \<open>Inl AssertionFailure\<close>. Release builds elide the assertions, and the C++ behaviour
  after a failed one is undefined; the model describes the checked build.
\<close>

definition is_ghost_node :: "graph \<Rightarrow> nat \<Rightarrow> error + bool" where
  "is_ghost_node g u =
     (if \<not> u < total_n g then Inl AssertionFailure else Inr (graph_n g \<le> u))"

definition is_owned_node :: "graph \<Rightarrow> nat \<Rightarrow> error + bool" where
  "is_owned_node g u =
     (if \<not> u < total_n g then Inl AssertionFailure else Inr (u < graph_n g))"

definition local_to_global_node :: "graph \<Rightarrow> nat \<Rightarrow> error + nat" where
  "local_to_global_node g local_u =
     (if \<not> local_u < total_n g then Inl AssertionFailure
      else if local_u < graph_n g then Inr (offset_n g + local_u)
      else Inr (ghost_to_global g ! (local_u - graph_n g)))"

definition global_to_local_node :: "graph \<Rightarrow> nat \<Rightarrow> error + nat" where
  "global_to_local_node g global_u =
     (if \<not> contains_global_node g global_u then Inl AssertionFailure
      else if offset_n g \<le> global_u \<and> global_u < offset_n g + graph_n g
      then Inr (global_u - offset_n g)
      else (case global_to_ghost g (global_u + 1) of
              None \<Rightarrow> Inl AssertionFailure
            | Some l \<Rightarrow> Inr l))"

definition set_ghost_node_weight :: "graph \<Rightarrow> nat \<Rightarrow> int \<Rightarrow> error + graph" where
  "set_ghost_node_weight g ghost_node weight =
     (case is_ghost_node g ghost_node of
        Inl e \<Rightarrow> Inl e
      | Inr b \<Rightarrow>
          if \<not> b then Inl AssertionFailure
          else if \<not> is_node_weighted g then Inl AssertionFailure
          else Inr (g\<lparr>node_weights := (node_weights g)[ghost_node := weight]\<rparr>))"

text \<open>
  The upper bound search of \<^verbatim>\<open>find_owner_of_global_node\<close>: the first index
  \<open>i \<ge> 1\<close> of the distribution whose entry exceeds \<open>u\<close>; the owner is that index minus
  one. Both assertions of the source are branches.
\<close>

fun upper_bound_from :: "nat list \<Rightarrow> nat \<Rightarrow> nat \<Rightarrow> nat" where
  "upper_bound_from [] u i = i"
| "upper_bound_from (d # ds) u i = (if u < d then i else upper_bound_from ds u (Suc i))"

definition find_owner_of_global_node :: "graph \<Rightarrow> nat \<Rightarrow> error + nat" where
  "find_owner_of_global_node g u =
     (if \<not> u < global_n g then Inl AssertionFailure
      else let it = upper_bound_from (tl (node_distribution g)) u 1 in
        if it = length (node_distribution g) then Inl AssertionFailure
        else Inr (it - 1))"

definition comm_size :: "graph \<Rightarrow> nat" where
  "comm_size g = length (node_distribution g) - 1"

definition degree :: "graph \<Rightarrow> nat \<Rightarrow> nat" where
  "degree g u = nodes g ! (u + 1) - nodes g ! u"

definition neighbors :: "graph \<Rightarrow> nat \<Rightarrow> (nat \<times> nat) list" where
  "neighbors g u = map (\<lambda>e. (e, edges g ! e)) [nodes g ! u..<nodes g ! (u + 1)]"

text \<open>The data-model invariant of the ghost directory: every entry is a ghost index.\<close>

definition ghost_directory_in_range :: "graph \<Rightarrow> bool" where
  "ghost_directory_in_range g =
     (\<forall>l \<in> ran (global_to_ghost g). graph_n g \<le> l \<and> l < total_n g)"

text \<open>A small two-process example: process 0 owns the global nodes 0 and 1 and sees
  the global node 2 of process 1 as its ghost with local index 2.\<close>

definition example_graph :: graph where
  "example_graph = \<lparr>node_distribution = [0, 2, 4], edge_distribution = [0, 2, 4],
     nodes = [0, 1, 2], edges = [1, 2], node_weights = [5, 6, 7], edge_weights = [],
     ghost_owner = [1], ghost_to_global = [2], global_to_ghost = [3 \<mapsto> 2], pe_rank = 0\<rparr>"

definition example_unweighted :: graph where
  "example_unweighted = example_graph\<lparr>node_weights := []\<rparr>"

section \<open>Contraction: records, scans and scatter writes\<close>

text \<open>
  \<^verbatim>\<open>NodeID\<close> is an unsigned machine integer. Its declaration is not among the sources;
  the functions whose result depends on its wrap-around are polymorphic in the width, and
  the contraction as a whole is run at 32 bits.
\<close>

type_synonym NodeID = "32 word"

datatype GlobalEdge = GlobalEdge (ge_u: nat) (ge_v: nat) (ge_weight: int)

datatype GlobalNode = GlobalNode (gn_u: nat) (gn_weight: int)

text \<open>Failing assertions and invalid accesses abort the whole contraction.\<close>

definition bind_err :: "error + 'a \<Rightarrow> ('a \<Rightarrow> error + 'b) \<Rightarrow> error + 'b" where
  "bind_err m f = (case m of Inl e \<Rightarrow> Inl e | Inr x \<Rightarrow> f x)"

definition kassert :: "bool \<Rightarrow> error + unit" where
  "kassert b = (if b then Inr () else Inl AssertionFailure)"

fun fold_err :: "('a \<Rightarrow> 's \<Rightarrow> error + 's) \<Rightarrow> 'a list \<Rightarrow> 's \<Rightarrow> error + 's" where
  "fold_err f [] s = Inr s"
| "fold_err f (x # xs) s = (case f x s of Inl e \<Rightarrow> Inl e | Inr s' \<Rightarrow> fold_err f xs s')"

fun map_err :: "('a \<Rightarrow> error + 'b) \<Rightarrow> 'a list \<Rightarrow> error + 'b list" where
  "map_err f [] = Inr []"
| "map_err f (x # xs) =
     (case f x of
        Inl e \<Rightarrow> Inl e
      | Inr y \<Rightarrow> (case map_err f xs of Inl e \<Rightarrow> Inl e | Inr ys \<Rightarrow> Inr (y # ys)))"

text \<open>
  Modelled from the spec: \<^verbatim>\<open>parallel::prefix_sum\<close> (common/parallel/algorithm.h is not
  among the sources) is the inclusive prefix sum, computed in the element type.
\<close>

fun prefix_sum_from :: "'a::monoid_add \<Rightarrow> 'a list \<Rightarrow> 'a list" where
  "prefix_sum_from acc [] = []"
| "prefix_sum_from acc (x # xs) = (acc + x) # prefix_sum_from (acc + x) xs"

definition prefix_sum :: "'a::monoid_add list \<Rightarrow> 'a list" where
  "prefix_sum xs = prefix_sum_from 0 xs"

text \<open>\<^verbatim>\<open>std::exclusive_scan\<close> with an initial value, over the whole array.\<close>

fun exclusive_scan :: "nat list \<Rightarrow> nat \<Rightarrow> nat list" where
  "exclusive_scan [] init = []"
| "exclusive_scan (x # xs) init = init # exclusive_scan xs (init + x)"

text \<open>Writing a run of values into a buffer from a start position on.\<close>

definition write_seg :: "nat \<Rightarrow> 'a list \<Rightarrow> 'a list \<Rightarrow> 'a list" where
  "write_seg pos seg buf = fold (\<lambda>k b. b[pos + k := seg ! k]) [0..<length seg] buf"

text \<open>
  Parallel loops are run in index order. Where the source starts two tasks with
  \<^verbatim>\<open>parallel_invoke\<close>, the first task runs before the second.
\<close>

section \<open>Contraction: collecting and deduplicating nonlocal nodes and edges\<close>

definition find_nonlocal_nodes_and_edges ::
  "graph \<Rightarrow> nat list \<Rightarrow> GlobalNode list \<times> GlobalEdge list" where
  "find_nonlocal_nodes_and_edges g clustering =
     (let edge_position_buffer = prefix_sum (0 # map (\<lambda>u.
            if is_owned_global_node g (clustering ! u) then 0 else degree g u) [0..<graph_n g]);
          node_position_buffer = prefix_sum (0 # map (\<lambda>u.
            if is_owned_global_node g (clustering ! u) then 0 else 1) [0..<graph_n g]);
          nonlocal_edges = replicate (last edge_position_buffer) (GlobalEdge 0 0 0);
          nonlocal_nodes = replicate (last node_position_buffer) (GlobalNode 0 0)
      in fold (\<lambda>u (ns, es).
           let c_u = clustering ! u in
           if \<not> is_owned_global_node g c_u
           then (ns[node_position_buffer ! u := GlobalNode c_u (node_weight g u)],
                 write_seg (edge_position_buffer ! u)
                   (map (\<lambda>(e, v). GlobalEdge c_u (clustering ! v) (edge_weight g e))
                      (neighbors g u)) es)
           else (ns, es))
         [0..<graph_n g] (nonlocal_nodes, nonlocal_edges))"

text \<open>
  The sorts of the source are not stable; the model sorts stably, which is one of the
  orders the source may produce.
\<close>

definition edge_key :: "GlobalEdge \<Rightarrow> nat \<times> nat" where
  "edge_key e = (ge_u e, ge_v e)"

definition sort_edges_by_key :: "GlobalEdge list \<Rightarrow> GlobalEdge list" where
  "sort_edges_by_key es = sort_key edge_key es"

definition deduplicate_edge_list :: "GlobalEdge list \<Rightarrow> GlobalEdge list" where
  "deduplicate_edge_list es =
     (if es = [] then []
      else
        let sorted_edges = sort_edges_by_key es;
            edge_position_buffer = prefix_sum (map (\<lambda>i.
              if 1 \<le> i \<and> (ge_u (sorted_edges ! i) \<noteq> ge_u (sorted_edges ! (i - 1)) \<or>
                          ge_v (sorted_edges ! i) \<noteq> ge_v (sorted_edges ! (i - 1)))
              then 1 else 0) [0..<length sorted_edges]);
            tmp_nonlocal_edges = replicate (last edge_position_buffer + 1) (GlobalEdge 0 0 0)
        in fold (\<lambda>i tmp.
             let pos = edge_position_buffer ! i in
             tmp[pos := GlobalEdge (ge_u (sorted_edges ! i)) (ge_v (sorted_edges ! i))
                          (ge_weight (tmp ! pos) + ge_weight (sorted_edges ! i))])
           [0..<length sorted_edges] tmp_nonlocal_edges)"

definition sort_node_list :: "GlobalNode list \<Rightarrow> GlobalNode list" where
  "sort_node_list ns = sort_key gn_u ns"

section \<open>Contraction: migration\<close>

text \<open>
  The send counts of the edges are found by walking the sorted buffer and advancing a
  destination index over the node distribution; reading the distribution past its end
  fails the accessor's assertion. The model walks the buffer as one block.
\<close>

function advance_pe :: "graph \<Rightarrow> nat \<Rightarrow> nat \<Rightarrow> error + nat" where
  "advance_pe g u current_pe =
     (if \<not> current_pe + 1 < length (node_distribution g) then Inl AssertionFailure
      else if node_distribution g ! (current_pe + 1) \<le> u then advance_pe g u (current_pe + 1)
      else Inr current_pe)"
  by pat_completeness auto
termination
  by (relation "measure (\<lambda>(g, u, current_pe). length (node_distribution g) - current_pe)") auto

definition count_edges_for_pe :: "graph \<Rightarrow> GlobalEdge list \<Rightarrow> error + nat list" where
  "count_edges_for_pe g nonlocal_edges =
     bind_err
       (fold_err (\<lambda>e (current_pe, num_edges_for_pe).
            bind_err (advance_pe g (ge_u e) current_pe) (\<lambda>pe.
              Inr (pe, num_edges_for_pe[pe := num_edges_for_pe ! pe + 1])))
          nonlocal_edges (0, replicate (comm_size g) 0))
       (\<lambda>(current_pe, num_edges_for_pe). Inr num_edges_for_pe)"

definition count_nodes_for_pe :: "graph \<Rightarrow> GlobalNode list \<Rightarrow> error + nat list" where
  "count_nodes_for_pe g nonlocal_nodes =
     fold_err (\<lambda>x num_nodes_for_pe.
         bind_err (find_owner_of_global_node g (gn_u x)) (\<lambda>pe.
           Inr (num_nodes_for_pe[pe := num_nodes_for_pe ! pe + 1])))
       nonlocal_nodes (replicate (comm_size g) 0)"

text \<open>
  The collectives, over the list of all processes. \<open>alltoall\<close> gives process \<open>q\<close>
  the \<open>q\<close>-th entry of every process; \<open>alltoallv\<close> writes, into the receive
  buffer of \<open>q\<close> at the displacement \<open>rdispls ! q ! p\<close>, the run of
  \<open>sendcounts ! p ! q\<close> elements that starts at \<open>sdispls ! p ! q\<close> in the send buffer
  of \<open>p\<close>.
\<close>

definition alltoall :: "nat list list \<Rightarrow> nat list list" where
  "alltoall sendcounts =
     map (\<lambda>q. map (\<lambda>p. sendcounts ! p ! q) [0..<length sendcounts]) [0..<length sendcounts]"

definition alltoallv ::
  "'a \<Rightarrow> 'a list list \<Rightarrow> nat list list \<Rightarrow> nat list list \<Rightarrow> nat list list \<Rightarrow> nat list \<Rightarrow>
   'a list list" where
  "alltoallv d sendbufs sendcounts sdispls rdispls recvsizes =
     map (\<lambda>q. fold (\<lambda>p buf.
                 write_seg (rdispls ! q ! p)
                   (take (sendcounts ! p ! q) (drop (sdispls ! p ! q) (sendbufs ! p))) buf)
               [0..<length sendbufs] (replicate (recvsizes ! q) d))
       [0..<length sendbufs]"

record MigrationResult =
  mr_local_nodes :: "GlobalNode list"
  mr_local_edges :: "GlobalEdge list"
  mr_node_sendcounts :: "nat list"
  mr_node_sdispls :: "nat list"
  mr_node_recvcounts :: "nat list"
  mr_node_rdispls :: "nat list"

definition exchange_nonlocal_nodes_and_edges ::
  "graph list \<Rightarrow> GlobalNode list list \<Rightarrow> GlobalEdge list list \<Rightarrow> error + MigrationResult list"
  where
  "exchange_nonlocal_nodes_and_edges gs nonlocal_nodes nonlocal_edges =
     bind_err (map_err (\<lambda>p. count_edges_for_pe (gs ! p) (nonlocal_edges ! p)) [0..<length gs])
       (\<lambda>local_edges_sendcounts.
     bind_err (map_err (\<lambda>p. count_nodes_for_pe (gs ! p) (nonlocal_nodes ! p)) [0..<length gs])
       (\<lambda>local_nodes_sendcounts.
       let local_edges_sdispls = map (\<lambda>c. exclusive_scan c 0) local_edges_sendcounts;
           local_edges_recvcounts = alltoall local_edges_sendcounts;
           local_edges_rdispls = map (\<lambda>c. exclusive_scan c 0) local_edges_recvcounts;
           local_edges = alltoallv (GlobalEdge 0 0 0) nonlocal_edges local_edges_sendcounts
             local_edges_sdispls local_edges_rdispls
             (map (\<lambda>q. last (local_edges_rdispls ! q) + last (local_edges_recvcounts ! q))
                [0..<length gs]);
           local_nodes_sdispls = map (\<lambda>c. exclusive_scan c 0) local_nodes_sendcounts;
           local_nodes_recvcounts = alltoall local_nodes_sendcounts;
           local_nodes_rdispls = map (\<lambda>c. exclusive_scan c 0) local_nodes_recvcounts;
           local_nodes = alltoallv (GlobalNode 0 0) nonlocal_nodes local_nodes_sendcounts
             local_nodes_sdispls local_nodes_rdispls
             (map (\<lambda>q. last (local_nodes_rdispls ! q) + last (local_nodes_recvcounts ! q))
                [0..<length gs])
       in Inr (map (\<lambda>q. \<lparr>mr_local_nodes = local_nodes ! q, mr_local_edges = local_edges ! q,
                          mr_node_sendcounts = local_nodes_sendcounts ! q,
                          mr_node_sdispls = local_nodes_sdispls ! q,
                          mr_node_recvcounts = local_nodes_recvcounts ! q,
                          mr_node_rdispls = local_nodes_rdispls ! q\<rparr>) [0..<length gs])))"

section \<open>Contraction: local coarse numbering\<close>

definition mark_home_clusters ::
  "graph \<Rightarrow> nat list \<Rightarrow> 'a::len word list \<Rightarrow> 'a word list" where
  "mark_home_clusters g clustering cluster_mapping =
     fold (\<lambda>u cm. let c_u = clustering ! u in
                    if is_owned_global_node g c_u then cm[c_u - offset_n g := 1] else cm)
       [0..<graph_n g] cluster_mapping"

fun mark_local_nodes ::
  "graph \<Rightarrow> GlobalNode list \<Rightarrow> 'a::len word list \<Rightarrow> error + 'a word list" where
  "mark_local_nodes g [] cluster_mapping = Inr cluster_mapping"
| "mark_local_nodes g (x # xs) cluster_mapping =
     (if \<not> is_owned_global_node g (gn_u x) then Inl AssertionFailure
      else mark_local_nodes g xs (cluster_mapping[gn_u x - offset_n g := 1]))"

definition build_lnode_to_lcnode_mapping ::
  "graph \<Rightarrow> nat list \<Rightarrow> GlobalNode list \<Rightarrow> error + 'a::len word list" where
  "build_lnode_to_lcnode_mapping g clustering local_nodes =
     (case mark_local_nodes g local_nodes
             (mark_home_clusters g clustering (replicate (graph_n g) 0)) of
        Inl e \<Rightarrow> Inl e
      | Inr cluster_mapping \<Rightarrow> Inr (map (\<lambda>x. x - 1) (prefix_sum cluster_mapping)))"

text \<open>The number of coarse nodes: \<^verbatim>\<open>lnode_to_lcnode.empty() ? 0 : lnode_to_lcnode.back() + 1\<close>.\<close>

definition coarse_n :: "'a::len word list \<Rightarrow> 'a word" where
  "coarse_n lnode_to_lcnode = (if lnode_to_lcnode = [] then 0 else last lnode_to_lcnode + 1)"

text \<open>
  \<^verbatim>\<open>build_distribution\<close>: the counts of all processes are gathered into the first
  entries of a zero array with one entry more, which is then scanned.
\<close>

definition build_distribution :: "nat list \<Rightarrow> nat list" where
  "build_distribution counts = exclusive_scan (counts @ [0]) 0"

text \<open>
  A local cluster is non-empty when a local node is assigned to it or a node record
  for it was received.
\<close>

definition nonempty_local_cluster :: "graph \<Rightarrow> nat list \<Rightarrow> GlobalNode list \<Rightarrow> nat \<Rightarrow> bool" where
  "nonempty_local_cluster g clustering local_nodes i =
     (i < graph_n g \<and>
      ((\<exists>u < graph_n g. clustering ! u = offset_n g + i) \<or>
       (\<exists>x \<in> set local_nodes. gn_u x = offset_n g + i)))"

section \<open>Contraction: mapping echo and requests for nonlocal clusters\<close>

text \<open>
  \<^verbatim>\<open>nonlocal_gcluster_to_index\<close> is a concurrent hash map keyed by the cluster plus
  one. The model keeps its entries in insertion order; \<open>insert\<close> leaves an entry that is
  already present untouched, as the hash map's insert does.
\<close>

type_synonym NonlocalClusterMap = "(nat \<times> nat) list"

definition map_insert :: "NonlocalClusterMap \<Rightarrow> nat \<Rightarrow> nat \<Rightarrow> NonlocalClusterMap" where
  "map_insert m k v = (if map_of m k = None then m @ [(k, v)] else m)"

definition request_nonlocal_mapping ::
  "graph \<Rightarrow> nat \<Rightarrow> NonlocalClusterMap \<times> nat list \<Rightarrow> error + NonlocalClusterMap \<times> nat list"
  where
  "request_nonlocal_mapping g cluster st =
     (case st of (m, next_index_for_pe) \<Rightarrow>
        if map_of m (cluster + 1) \<noteq> None then Inr (m, next_index_for_pe)
        else bind_err (find_owner_of_global_node g cluster) (\<lambda>owner.
          Inr (m @ [(cluster + 1, next_index_for_pe ! owner + 1)],
               next_index_for_pe[owner := next_index_for_pe ! owner + 1])))"

definition collect_requests ::
  "graph \<Rightarrow> nat list \<Rightarrow> GlobalEdge list \<Rightarrow> error + NonlocalClusterMap \<times> nat list" where
  "collect_requests g lnode_to_gcluster local_edges =
     bind_err
       (fold_err (\<lambda>u st.
            if \<not> is_owned_global_node g (lnode_to_gcluster ! u) then Inr st
            else fold_err (\<lambda>(e, v) st.
                   if \<not> is_owned_global_node g (lnode_to_gcluster ! v)
                   then request_nonlocal_mapping g (lnode_to_gcluster ! v) st else Inr st)
                 (neighbors g u) st)
          [0..<graph_n g] ([], replicate (comm_size g + 1) 0))
       (\<lambda>st. fold_err (\<lambda>e st.
                 if \<not> is_owned_global_node g (ge_v e)
                 then request_nonlocal_mapping g (ge_v e) st else Inr st)
               local_edges st)"

definition build_mapping_requests ::
  "graph \<Rightarrow> NonlocalClusterMap \<Rightarrow> nat list \<Rightarrow> error + nat list list" where
  "build_mapping_requests g m next_index_for_pe =
     fold_err (\<lambda>(k, v) my_mapping_requests.
         let cluster = k - 1 in
         bind_err (find_owner_of_global_node g cluster) (\<lambda>owner.
           let index = v - 1 in
           Inr (my_mapping_requests[owner := (my_mapping_requests ! owner)[index := cluster]])))
       m (map (\<lambda>pe. replicate (next_index_for_pe ! pe) 0) [0..<comm_size g])"

text \<open>
  Modelled from the spec: \<^verbatim>\<open>mpi::sparse_alltoall_get\<close> (not among the sources) exchanges
  the per-process lists: what process \<open>q\<close> gets from \<open>p\<close> is what \<open>p\<close> holds for
  \<open>q\<close>.
\<close>

definition sparse_alltoall_get :: "'a list list list \<Rightarrow> 'a list list list" where
  "sparse_alltoall_get send =
     map (\<lambda>q. map (\<lambda>p. send ! p ! q) [0..<length send]) [0..<length send]"

definition build_mapping_responses ::
  "graph \<Rightarrow> NodeID list \<Rightarrow> nat list \<Rightarrow> nat list list \<Rightarrow> nat list list" where
  "build_mapping_responses g lnode_to_lcnode c_node_distribution their_mapping_requests =
     map (\<lambda>reqs. map (\<lambda>global.
            c_node_distribution ! pe_rank g + unat (lnode_to_lcnode ! (global - offset_n g)))
          reqs)
       their_mapping_requests"

definition build_local_nodes_mapping ::
  "graph \<Rightarrow> NodeID list \<Rightarrow> nat list \<Rightarrow> GlobalNode list \<Rightarrow> (nat \<times> nat) list" where
  "build_local_nodes_mapping g lnode_to_lcnode c_node_distribution local_nodes =
     map (\<lambda>x. (gn_u x,
                unat (lnode_to_lcnode ! (gn_u x - offset_n g)) + c_node_distribution ! pe_rank g))
       local_nodes"

section \<open>Contraction: coarse ghost directory and the fine-to-coarse mapping\<close>

record CoarseGhosts =
  cg_global_to_ghost :: "nat \<rightharpoonup> nat"
  cg_ghost_to_global :: "nat list"
  cg_ghost_owner :: "nat list"

definition build_coarse_ghosts ::
  "nat \<Rightarrow> nat list \<Rightarrow> nat list list \<Rightarrow> nat list list \<Rightarrow> nat \<Rightarrow> CoarseGhosts" where
  "build_coarse_ghosts c_n next_index_for_pe my_mapping_requests their_mapping_responses
       c_ghost_n =
     fold (\<lambda>pe cg.
         fold (\<lambda>i cg.
             let global = their_mapping_responses ! pe ! i;
                 local = next_index_for_pe ! pe + i
             in \<lparr>cg_global_to_ghost =
                    (if cg_global_to_ghost cg (global + 1) = None
                     then (cg_global_to_ghost cg)(global + 1 \<mapsto> c_n + local)
                     else cg_global_to_ghost cg),
                  cg_ghost_to_global = (cg_ghost_to_global cg)[local := global],
                  cg_ghost_owner = (cg_ghost_owner cg)[local := pe]\<rparr>)
           [0..<length (my_mapping_requests ! pe)] cg)
       [0..<length my_mapping_requests]
       \<lparr>cg_global_to_ghost = Map.empty, cg_ghost_to_global = replicate c_ghost_n 0,
        cg_ghost_owner = replicate c_ghost_n 0\<rparr>"

definition insert_echoed_mappings ::
  "graph \<Rightarrow> (nat \<times> nat) list \<Rightarrow> NonlocalClusterMap \<Rightarrow> NonlocalClusterMap" where
  "insert_echoed_mappings g local_nodes_mapping_rsps m =
     fold (\<lambda>(local_cluster, global_coarse_node) m.
         map_insert m (local_cluster + 1) (global_n g + global_coarse_node + 1))
       local_nodes_mapping_rsps m"

definition map_node ::
  "graph \<Rightarrow> nat list \<Rightarrow> NodeID list \<Rightarrow> nat list \<Rightarrow> NonlocalClusterMap \<Rightarrow> nat list list \<Rightarrow>
   nat \<Rightarrow> error + nat" where
  "map_node g lnode_to_gcluster lnode_to_lcnode c_node_distribution m their_mapping_responses u =
     (let cluster = lnode_to_gcluster ! u in
      bind_err
        (if is_owned_global_node g cluster
         then Inr (unat (lnode_to_lcnode ! (cluster - offset_n g))
                   + c_node_distribution ! pe_rank g)
         else (case map_of m (cluster + 1) of
                 None \<Rightarrow> Inl AssertionFailure
               | Some v \<Rightarrow>
                   let index = v - 1 in
                   if index < global_n g
                   then bind_err (find_owner_of_global_node g cluster) (\<lambda>owner.
                          Inr (their_mapping_responses ! owner ! index))
                   else Inr (index - global_n g)))
        (\<lambda>gcnode. bind_err (kassert (gcnode < last c_node_distribution)) (\<lambda>_. Inr gcnode)))"

definition build_lnode_to_gcnode ::
  "graph \<Rightarrow> nat list \<Rightarrow> NodeID list \<Rightarrow> nat list \<Rightarrow> NonlocalClusterMap \<Rightarrow> nat list list \<Rightarrow>
   error + nat list" where
  "build_lnode_to_gcnode g lnode_to_gcluster lnode_to_lcnode c_node_distribution m
       their_mapping_responses =
     map_err (map_node g lnode_to_gcluster lnode_to_lcnode c_node_distribution m
                their_mapping_responses) [0..<graph_n g]"

section \<open>Contraction: buckets of the coarse nodes\<close>

definition localize_global_edge_list ::
  "GlobalEdge list \<Rightarrow> nat \<Rightarrow> NodeID list \<Rightarrow> GlobalEdge list" where
  "localize_global_edge_list es offset lnode_to_lcnode =
     map (\<lambda>e. GlobalEdge (unat (lnode_to_lcnode ! (ge_u e - offset))) (ge_v e) (ge_weight e)) es"

definition starts_block :: "GlobalEdge list \<Rightarrow> nat \<Rightarrow> bool" where
  "starts_block local_edges i = (i = 0 \<or> ge_u (local_edges ! i) \<noteq> ge_u (local_edges ! (i - 1)))"

definition build_node_buckets ::
  "graph \<Rightarrow> NodeID list \<Rightarrow> nat \<Rightarrow> GlobalEdge list \<Rightarrow> nat list \<Rightarrow> error + nat list \<times> nat list"
  where
  "build_node_buckets g cluster_mapping c_n local_edges clustering =
     bind_err
       (fold_err (\<lambda>u bpb.
            let cluster = clustering ! u in
            if is_owned_global_node g cluster
            then let c_u = unat (cluster_mapping ! (cluster - offset_n g)) in
                 bind_err (kassert (c_u < length bpb)) (\<lambda>_. Inr (bpb[c_u := bpb ! c_u + 1]))
            else Inr bpb)
          [0..<graph_n g] (replicate (c_n + 1) 0))
       (\<lambda>bpb1.
          let bpb2 = fold (\<lambda>i bpb.
                       if starts_block local_edges i
                       then bpb[ge_u (local_edges ! i) := bpb ! ge_u (local_edges ! i) + 1]
                       else bpb)
                     [0..<length local_edges] bpb1;
              buckets_position_buffer = prefix_sum bpb2;
              buckets = replicate
                (if buckets_position_buffer = [] then 0 else last buckets_position_buffer) 0;
              st1 = fold (\<lambda>u (bpb, buckets).
                       let cluster = clustering ! u in
                       if is_owned_global_node g cluster
                       then let c_u = unat (cluster_mapping ! (cluster - offset_n g));
                                pos = bpb ! c_u
                            in (bpb[c_u := pos - 1], buckets[pos - 1 := u])
                       else (bpb, buckets))
                     [0..<graph_n g] (buckets_position_buffer, buckets);
              st2 = fold (\<lambda>i (bpb, buckets).
                       if starts_block local_edges i
                       then let c_u = ge_u (local_edges ! i);
                                pos = bpb ! c_u
                            in (bpb[c_u := pos - 1], buckets[pos - 1 := graph_n g + i])
                       else (bpb, buckets))
                     [0..<length local_edges] st1
          in Inr st2)"

section \<open>Contraction: coarse adjacency and coarse node weights\<close>

text \<open>
  Modelled from the spec: the rating map (common/datastructures/rating_map.h is not
  among the sources) maps a coarse local identifier to its accumulated edge weight; the
  model keeps the entries in the order of their first use.
\<close>

fun rating_add :: "(nat \<times> int) list \<Rightarrow> nat \<Rightarrow> int \<Rightarrow> (nat \<times> int) list" where
  "rating_add [] c w = [(c, w)]"
| "rating_add ((k, x) # m) c w = (if k = c then (k, x + w) # m else (k, x) # rating_add m c w)"

text \<open>The variables that the loop bodies of the edge construction capture.\<close>

record Captured =
  cap_graph :: graph
  cap_lnode_to_gcluster :: "nat list"
  cap_lnode_to_lcnode :: "NodeID list"
  cap_nonlocal_gcluster_to_index :: NonlocalClusterMap
  cap_their_mapping_responses :: "nat list list"
  cap_c_global_to_ghost :: "nat \<rightharpoonup> nat"
  cap_local_edges :: "GlobalEdge list"
  cap_buckets_position_buffer :: "nat list"
  cap_buckets :: "nat list"

definition handle_edge ::
  "Captured \<Rightarrow> nat \<Rightarrow> int \<Rightarrow> nat \<Rightarrow> (nat \<times> int) list \<Rightarrow> error + (nat \<times> int) list" where
  "handle_edge cap c_u weight cluster rmap =
     (if is_owned_global_node (cap_graph cap) cluster
      then let c_local_node =
                 unat (cap_lnode_to_lcnode cap ! (cluster - offset_n (cap_graph cap)))
           in Inr (if c_local_node \<noteq> c_u then rating_add rmap c_local_node weight else rmap)
      else (case map_of (cap_nonlocal_gcluster_to_index cap) (cluster + 1) of
              None \<Rightarrow> Inl AssertionFailure
            | Some v \<Rightarrow>
                bind_err (kassert (v - 1 < global_n (cap_graph cap))) (\<lambda>_.
                  let index = v - 1 in
                  bind_err (find_owner_of_global_node (cap_graph cap) cluster) (\<lambda>owner.
                    let c_ghost_node = cap_their_mapping_responses cap ! owner ! index in
                    (case cap_c_global_to_ghost cap (c_ghost_node + 1) of
                       None \<Rightarrow> Inl InvalidAccess
                     | Some c_local_node \<Rightarrow>
                         Inr (if c_local_node \<noteq> c_u
                              then rating_add rmap c_local_node weight else rmap))))))"

text \<open>
  The entries of the bucket of \<open>c_u\<close> are fine nodes (below \<open>n\<close>) and starts of blocks
  of received edges (\<open>n\<close> plus the index of the first edge of the block). A block is
  read while the source of the edge is \<open>c_u\<close>; the source reads on without a bound, the
  model stops at the end of the array.
\<close>

definition collect_edges :: "Captured \<Rightarrow> nat \<Rightarrow> error + int \<times> (nat \<times> int) list" where
  "collect_edges cap c_u =
     (let g = cap_graph cap;
          first_pos = cap_buckets_position_buffer cap ! c_u;
          last_pos = cap_buckets_position_buffer cap ! (c_u + 1)
      in fold_err (\<lambda>i (c_u_weight, rmap).
           let u = cap_buckets cap ! i in
           if u < graph_n g
           then bind_err
                  (fold_err (\<lambda>(e, v) rmap.
                       handle_edge cap c_u (edge_weight g e) (cap_lnode_to_gcluster cap ! v) rmap)
                     (neighbors g u) rmap)
                  (\<lambda>rmap'. Inr (c_u_weight + node_weight g u, rmap'))
           else bind_err
                  (fold_err (\<lambda>e rmap. handle_edge cap c_u (ge_weight e) (ge_v e) rmap)
                     (takeWhile (\<lambda>e. ge_u e = c_u) (drop (u - graph_n g) (cap_local_edges cap)))
                     rmap)
                  (\<lambda>rmap'. Inr (c_u_weight, rmap')))
         [first_pos..<last_pos] (0, []))"

definition integrate_node_weights ::
  "graph \<Rightarrow> NodeID list \<Rightarrow> GlobalNode list \<Rightarrow> int list \<Rightarrow> int list" where
  "integrate_node_weights g lnode_to_lcnode local_nodes c_node_weights =
     fold (\<lambda>x w. let c_u = unat (lnode_to_lcnode ! (gn_u x - offset_n g))
                 in w[c_u := w ! c_u + gn_weight x])
       local_nodes c_node_weights"

definition flatten_edges ::
  "nat list \<Rightarrow> (nat \<times> int) list list \<Rightarrow> nat \<Rightarrow> nat \<Rightarrow> nat list \<times> int list" where
  "flatten_edges c_nodes edge_buffer c_n c_m =
     fold (\<lambda>c_u (c_edges, c_edge_weights).
         let c_u_degree = c_nodes ! (c_u + 1) - c_nodes ! c_u;
             first_target_index = c_nodes ! c_u
         in (write_seg first_target_index (map fst (take c_u_degree (edge_buffer ! c_u))) c_edges,
             write_seg first_target_index (map snd (take c_u_degree (edge_buffer ! c_u)))
               c_edge_weights))
       [0..<c_n] (replicate c_m 0, replicate c_m 0)"

text \<open>What one process computes between the exchange of the mapping responses and the
  construction of the coarse graph.\<close>

record LocalContraction =
  lc_nodes :: "nat list"
  lc_edges :: "nat list"
  lc_node_weights :: "int list"
  lc_edge_weights :: "int list"
  lc_ghosts :: CoarseGhosts
  lc_lnode_to_gcnode :: "nat list"

definition contract_local ::
  "graph \<Rightarrow> nat list \<Rightarrow> GlobalNode list \<Rightarrow> GlobalEdge list \<Rightarrow> NodeID list \<Rightarrow> nat list \<Rightarrow>
   (nat \<times> nat) list \<Rightarrow> NonlocalClusterMap \<Rightarrow> nat list \<Rightarrow> nat list list \<Rightarrow> nat list list \<Rightarrow>
   error + LocalContraction" where
  "contract_local g lnode_to_gcluster local_nodes local_edges lnode_to_lcnode
       c_node_distribution local_nodes_mapping_rsps requested next_index_counts
       my_mapping_requests their_mapping_responses =
     (let c_n = unat (coarse_n lnode_to_lcnode);
          next_index_for_pe = exclusive_scan next_index_counts 0;
          c_ghost_n = last next_index_for_pe;
          ghosts = build_coarse_ghosts c_n next_index_for_pe my_mapping_requests
                     their_mapping_responses c_ghost_n;
          nonlocal_gcluster_to_index = insert_echoed_mappings g local_nodes_mapping_rsps requested
      in bind_err (build_lnode_to_gcnode g lnode_to_gcluster lnode_to_lcnode c_node_distribution
                     nonlocal_gcluster_to_index their_mapping_responses) (\<lambda>lnode_to_gcnode.
         let localized = localize_global_edge_list local_edges (offset_n g) lnode_to_lcnode in
         bind_err (build_node_buckets g lnode_to_lcnode c_n localized lnode_to_gcluster)
           (\<lambda>(buckets_position_buffer, buckets).
         let cap = \<lparr>cap_graph = g, cap_lnode_to_gcluster = lnode_to_gcluster,
                    cap_lnode_to_lcnode = lnode_to_lcnode,
                    cap_nonlocal_gcluster_to_index = nonlocal_gcluster_to_index,
                    cap_their_mapping_responses = their_mapping_responses,
                    cap_c_global_to_ghost = cg_global_to_ghost ghosts,
                    cap_local_edges = localized,
                    cap_buckets_position_buffer = buckets_position_buffer,
                    cap_buckets = buckets\<rparr>
         in bind_err (map_err (collect_edges cap) [0..<c_n]) (\<lambda>collected.
         let c_nodes = prefix_sum (0 # map (\<lambda>r. length (snd r)) collected);
             c_node_weights = integrate_node_weights g lnode_to_lcnode local_nodes
                                (map fst collected @ replicate c_ghost_n 0);
             c_m = last c_nodes;
             flat = flatten_edges c_nodes (map snd collected) c_n c_m
         in Inr \<lparr>lc_nodes = c_nodes, lc_edges = fst flat, lc_node_weights = c_node_weights,
                 lc_edge_weights = snd flat, lc_ghosts = ghosts,
                 lc_lnode_to_gcnode = lnode_to_gcnode\<rparr>))))"

section \<open>Contraction: ghost weights and the whole contraction\<close>

text \<open>
  Modelled from the spec: \<^verbatim>\<open>sparse_alltoall_interface_to_pe\<close> (not among the sources)
  delivers, to every process, the pair of local index and weight of every node that the
  process sees as a ghost, from the owner of the node (Phase H). The receiving side is
  the loop body of \<^verbatim>\<open>update_ghost_node_weights\<close>.
\<close>

definition interface_messages :: "graph list \<Rightarrow> nat \<Rightarrow> nat \<Rightarrow> (nat \<times> int) list" where
  "interface_messages gs q pe =
     map (\<lambda>(global, owner).
            (global - offset_n (gs ! pe), node_weight (gs ! pe) (global - offset_n (gs ! pe))))
       (filter (\<lambda>(global, owner). owner = pe)
          (zip (ghost_to_global (gs ! q)) (ghost_owner (gs ! q))))"

definition update_ghost_node_weights :: "graph list \<Rightarrow> error + graph list" where
  "update_ghost_node_weights gs =
     map_err (\<lambda>q.
         fold_err (\<lambda>pe g.
             fold_err (\<lambda>(local_node_on_other_pe, weight) g.
                 bind_err (global_to_local_node g (node_distribution g ! pe + local_node_on_other_pe))
                   (\<lambda>local_node. set_ghost_node_weight g local_node weight))
               (interface_messages gs q pe) g)
           [0..<length gs] (gs ! q))
       [0..<length gs]"

record ContractionResult =
  cr_graph :: graph
  cr_mapping :: "nat list"

definition contract_clustering :: "graph list \<Rightarrow> nat list list \<Rightarrow> error + ContractionResult list"
  where
  "contract_clustering gs lnode_to_gcluster =
     (let size = length gs;
          nonlocal_elements =
            map (\<lambda>p. find_nonlocal_nodes_and_edges (gs ! p) (lnode_to_gcluster ! p)) [0..<size];
          nonlocal_edges = map (\<lambda>p. deduplicate_edge_list (snd (nonlocal_elements ! p))) [0..<size];
          nonlocal_nodes = map (\<lambda>p. sort_node_list (fst (nonlocal_elements ! p))) [0..<size]
      in bind_err (exchange_nonlocal_nodes_and_edges gs nonlocal_nodes nonlocal_edges)
           (\<lambda>migration_result.
         let local_nodes = map mr_local_nodes migration_result;
             local_edges = map (\<lambda>r. sort_key ge_u (mr_local_edges r)) migration_result
         in bind_err (map_err (\<lambda>p. build_lnode_to_lcnode_mapping (gs ! p) (lnode_to_gcluster ! p)
                                  (local_nodes ! p)) [0..<size])
              (\<lambda>lnode_to_lcnode.
         let c_node_distribution =
               build_distribution (map (\<lambda>m. unat (coarse_n m)) lnode_to_lcnode);
             local_nodes_mapping =
               map (\<lambda>p. build_local_nodes_mapping (gs ! p) (lnode_to_lcnode ! p)
                           c_node_distribution (local_nodes ! p)) [0..<size];
             local_nodes_mapping_rsps =
               alltoallv (0, 0) local_nodes_mapping (map mr_node_recvcounts migration_result)
                 (map mr_node_rdispls migration_result) (map mr_node_sdispls migration_result)
                 (map length nonlocal_nodes)
         in bind_err (map_err (\<lambda>p. collect_requests (gs ! p) (lnode_to_gcluster ! p)
                                  (local_edges ! p)) [0..<size])
              (\<lambda>requested.
            bind_err (map_err (\<lambda>p. build_mapping_requests (gs ! p) (fst (requested ! p))
                                  (snd (requested ! p))) [0..<size])
              (\<lambda>my_mapping_requests.
         let their_mapping_requests = sparse_alltoall_get my_mapping_requests;
             my_mapping_responses =
               map (\<lambda>p. build_mapping_responses (gs ! p) (lnode_to_lcnode ! p)
                           c_node_distribution (their_mapping_requests ! p)) [0..<size];
             their_mapping_responses = sparse_alltoall_get my_mapping_responses
         in bind_err (map_err (\<lambda>p. contract_local (gs ! p) (lnode_to_gcluster ! p)
                                  (local_nodes ! p) (local_edges ! p) (lnode_to_lcnode ! p)
                                  c_node_distribution (local_nodes_mapping_rsps ! p)
                                  (fst (requested ! p)) (snd (requested ! p))
                                  (my_mapping_requests ! p) (their_mapping_responses ! p))
                        [0..<size])
              (\<lambda>contracted.
         let c_edge_distribution = build_distribution (map (\<lambda>r. last (lc_nodes r)) contracted);
             c_graphs =
               map (\<lambda>p. \<lparr>node_distribution = c_node_distribution,
                           edge_distribution = c_edge_distribution,
                           nodes = lc_nodes (contracted ! p), edges = lc_edges (contracted ! p),
                           node_weights = lc_node_weights (contracted ! p),
                           edge_weights = lc_edge_weights (contracted ! p),
                           ghost_owner = cg_ghost_owner (lc_ghosts (contracted ! p)),
                           ghost_to_global = cg_ghost_to_global (lc_ghosts (contracted ! p)),
                           global_to_ghost = cg_global_to_ghost (lc_ghosts (contracted ! p)),
                           pe_rank = pe_rank (gs ! p)\<rparr>) [0..<size]
         in bind_err (update_ghost_node_weights c_graphs) (\<lambda>synced.
              Inr (map (\<lambda>p. \<lparr>cr_graph = synced ! p,
                              cr_mapping = lc_lnode_to_gcnode (contracted ! p)\<rparr>)
                     [0..<size]))))))))"

section \<open>Valid inputs and the reference description of the stages\<close>

text \<open>
  The owner of a global node as a plain function of the distribution, and the conditions
  under which the contraction is called: every process holds the same distribution, its
  own rank and a graph in CSR form whose node count fits a \<^verbatim>\<open>NodeID\<close>; the clustering
  covers the owned nodes and the ghosts of every process and names global nodes.
\<close>

definition owner_of :: "nat list \<Rightarrow> nat \<Rightarrow> nat" where
  "owner_of dist u = upper_bound_from (tl dist) u 1 - 1"

definition valid_csr :: "graph \<Rightarrow> bool" where
  "valid_csr g =
     (nodes g \<noteq> [] \<and> hd (nodes g) = 0 \<and> sorted (nodes g) \<and>
      last (nodes g) = length (edges g) \<and>
      list_all (\<lambda>v. v < total_n g) (edges g) \<and>
      (node_weights g = [] \<or> length (node_weights g) = total_n g) \<and>
      (edge_weights g = [] \<or> length (edge_weights g) = length (edges g)) \<and>
      length (ghost_owner g) = length (ghost_to_global g) \<and>
      graph_n g < 2 ^ 32)"

definition valid_distribution :: "graph list \<Rightarrow> bool" where
  "valid_distribution gs =
     (gs \<noteq> [] \<and>
      length (node_distribution (gs ! 0)) = length gs + 1 \<and>
      sorted (node_distribution (gs ! 0)) \<and>
      hd (node_distribution (gs ! 0)) = 0 \<and>
      list_all (\<lambda>p. node_distribution (gs ! p) = node_distribution (gs ! 0) \<and>
                     pe_rank (gs ! p) = p \<and>
                     graph_n (gs ! p) = node_distribution (gs ! 0) ! (p + 1)
                                        - node_distribution (gs ! 0) ! p)
        [0..<length gs])"

definition valid_clustering :: "graph list \<Rightarrow> nat list list \<Rightarrow> bool" where
  "valid_clustering gs cs =
     (length cs = length gs \<and>
      list_all (\<lambda>p. length (cs ! p) = total_n (gs ! p) \<and>
                     list_all (\<lambda>c. c < global_n (gs ! p)) (cs ! p))
        [0..<length gs])"

definition valid_input :: "graph list \<Rightarrow> nat list list \<Rightarrow> bool" where
  "valid_input gs cs =
     (valid_distribution gs \<and> list_all valid_csr gs \<and> valid_clustering gs cs)"

text \<open>
  The cluster of a global node is the cluster that its owner assigns to it. A clustering
  is consistent on the ghosts when every process assigns to each of its ghosts the
  cluster of the global node that the ghost stands for.
\<close>

definition cluster_of :: "graph list \<Rightarrow> nat list list \<Rightarrow> nat \<Rightarrow> nat" where
  "cluster_of gs cs global =
     (let q = owner_of (node_distribution (gs ! 0)) global
      in cs ! q ! (global - node_distribution (gs ! 0) ! q))"

definition consistent_ghosts :: "graph list \<Rightarrow> nat list list \<Rightarrow> bool" where
  "consistent_ghosts gs cs =
     list_all (\<lambda>p.
        list_all (\<lambda>i.
           let global = ghost_to_global (gs ! p) ! i in
           global < global_n (gs ! p) \<and>
           \<not> is_owned_global_node (gs ! p) global \<and>
           cs ! p ! (graph_n (gs ! p) + i) = cluster_of gs cs global)
          [0..<ghost_n (gs ! p)])
       [0..<length gs]"

text \<open>The records that Phase A emits, as concatenations over the owned nodes.\<close>

definition nonlocal_node_records :: "graph \<Rightarrow> nat list \<Rightarrow> GlobalNode list" where
  "nonlocal_node_records g clustering =
     concat (map (\<lambda>u. if is_owned_global_node g (clustering ! u) then []
                       else [GlobalNode (clustering ! u) (node_weight g u)]) [0..<graph_n g])"

definition nonlocal_edge_records :: "graph \<Rightarrow> nat list \<Rightarrow> GlobalEdge list" where
  "nonlocal_edge_records g clustering =
     concat (map (\<lambda>u. if is_owned_global_node g (clustering ! u) then []
                       else map (\<lambda>(e, v). GlobalEdge (clustering ! u) (clustering ! v)
                                             (edge_weight g e)) (neighbors g u))
               [0..<graph_n g])"

text \<open>Coalescing a sorted list of edge records, one record at a time.\<close>

definition coalesce_step :: "GlobalEdge list \<Rightarrow> GlobalEdge \<Rightarrow> GlobalEdge list" where
  "coalesce_step acc e =
     (if acc \<noteq> [] \<and> edge_key (last acc) = edge_key e
      then butlast acc @ [GlobalEdge (ge_u e) (ge_v e) (ge_weight (last acc) + ge_weight e)]
      else acc @ [e])"

definition coalesce :: "GlobalEdge list \<Rightarrow> GlobalEdge list" where
  "coalesce es = foldl coalesce_step [] es"

definition key_weight :: "nat \<times> nat \<Rightarrow> GlobalEdge list \<Rightarrow> int" where
  "key_weight k es = sum_list (map ge_weight (filter (\<lambda>e. edge_key e = k) es))"

text \<open>The mark that the deduplication sets on the first record of a block of equal keys.\<close>

definition boundary :: "GlobalEdge list \<Rightarrow> nat \<Rightarrow> nat" where
  "boundary s i = (if 1 \<le> i \<and> (ge_u (s ! i) \<noteq> ge_u (s ! (i - 1)) \<or>
                          ge_v (s ! i) \<noteq> ge_v (s ! (i - 1))) then 1 else 0)"

text \<open>
  What a process receives in the migration: from every process, in rank order, the
  records whose key is owned by the receiver.
\<close>

definition routed :: "('a \<Rightarrow> nat) \<Rightarrow> 'a list list \<Rightarrow> nat \<Rightarrow> 'a list" where
  "routed dest bufs q =
     concat (map (\<lambda>p. filter (\<lambda>x. dest x = q) (bufs ! p)) [0..<length bufs])"

definition dest_counts :: "('a \<Rightarrow> nat) \<Rightarrow> 'a list list \<Rightarrow> nat list list" where
  "dest_counts dest bufs =
     map (\<lambda>p. map (\<lambda>j. length (filter (\<lambda>x. dest x = j) (bufs ! p))) [0..<length bufs])
       [0..<length bufs]"

text \<open>
  The data of the stages as functions of the input: the records that every process
  sends and receives, the local coarse numbering and the coarse identifier of a cluster.
\<close>

definition node_dest :: "graph list \<Rightarrow> GlobalNode \<Rightarrow> nat" where
  "node_dest gs x = owner_of (node_distribution (gs ! 0)) (gn_u x)"

definition edge_dest :: "graph list \<Rightarrow> GlobalEdge \<Rightarrow> nat" where
  "edge_dest gs e = owner_of (node_distribution (gs ! 0)) (ge_u e)"

definition sent_nodes :: "graph list \<Rightarrow> nat list list \<Rightarrow> GlobalNode list list" where
  "sent_nodes gs cs =
     map (\<lambda>p. sort_node_list (nonlocal_node_records (gs ! p) (cs ! p))) [0..<length gs]"

definition sent_edges :: "graph list \<Rightarrow> nat list list \<Rightarrow> GlobalEdge list list" where
  "sent_edges gs cs =
     map (\<lambda>p. deduplicate_edge_list (nonlocal_edge_records (gs ! p) (cs ! p))) [0..<length gs]"

definition received_nodes :: "graph list \<Rightarrow> nat list list \<Rightarrow> nat \<Rightarrow> GlobalNode list" where
  "received_nodes gs cs q = routed (node_dest gs) (sent_nodes gs cs) q"

definition received_edges :: "graph list \<Rightarrow> nat list list \<Rightarrow> nat \<Rightarrow> GlobalEdge list" where
  "received_edges gs cs q = sort_key ge_u (routed (edge_dest gs) (sent_edges gs cs) q)"

definition lcnode_of :: "graph \<Rightarrow> nat list \<Rightarrow> GlobalNode list \<Rightarrow> NodeID list" where
  "lcnode_of g clustering local_nodes =
     map (\<lambda>x. x - 1)
       (prefix_sum (map (\<lambda>i. if nonempty_local_cluster g clustering local_nodes i then 1 else 0)
                      [0..<graph_n g]))"

definition lcnodes :: "graph list \<Rightarrow> nat list list \<Rightarrow> nat \<Rightarrow> NodeID list" where
  "lcnodes gs cs q = lcnode_of (gs ! q) (cs ! q) (received_nodes gs cs q)"

definition coarse_counts :: "graph list \<Rightarrow> nat list list \<Rightarrow> nat list" where
  "coarse_counts gs cs = map (\<lambda>q. unat (coarse_n (lcnodes gs cs q))) [0..<length gs]"

definition coarse_distribution :: "graph list \<Rightarrow> nat list list \<Rightarrow> nat list" where
  "coarse_distribution gs cs = build_distribution (coarse_counts gs cs)"

definition coarse_global :: "graph list \<Rightarrow> nat list list \<Rightarrow> nat \<Rightarrow> nat" where
  "coarse_global gs cs c =
     (let q = owner_of (node_distribution (gs ! 0)) c
      in coarse_distribution gs cs ! q
         + unat (lcnodes gs cs q ! (c - node_distribution (gs ! 0) ! q)))"

text \<open>A cluster is marked when it is a non-empty local cluster of its owner.\<close>

definition marked_cluster :: "graph list \<Rightarrow> nat list list \<Rightarrow> nat \<Rightarrow> bool" where
  "marked_cluster gs cs c =
     (let q = owner_of (node_distribution (gs ! 0)) c
      in nonempty_local_cluster (gs ! q) (cs ! q) (received_nodes gs cs q)
           (c - node_distribution (gs ! 0) ! q))"

text \<open>
  The requests of a process, in the order in which the model issues them: the nonlocal
  clusters of the neighbors of its home nodes, then the nonlocal targets of the edges it
  received. One request updates the map and the counters as \<open>req_step\<close> says.
\<close>

definition request_clusters :: "graph \<Rightarrow> nat list \<Rightarrow> GlobalEdge list \<Rightarrow> nat list" where
  "request_clusters g clustering local_edges =
     concat (map (\<lambda>u. if \<not> is_owned_global_node g (clustering ! u) then []
                       else map (\<lambda>(e, v). clustering ! v)
                              (filter (\<lambda>(e, v). \<not> is_owned_global_node g (clustering ! v))
                                 (neighbors g u)))
               [0..<graph_n g])
     @ map ge_v (filter (\<lambda>e. \<not> is_owned_global_node g (ge_v e)) local_edges)"

definition req_step ::
  "nat list \<Rightarrow> nat \<Rightarrow> NonlocalClusterMap \<times> nat list \<Rightarrow> NonlocalClusterMap \<times> nat list" where
  "req_step dist cluster st =
     (case st of (m, next_index_for_pe) \<Rightarrow>
        if map_of m (cluster + 1) \<noteq> None then (m, next_index_for_pe)
        else let owner = owner_of dist cluster
             in (m @ [(cluster + 1, next_index_for_pe ! owner + 1)],
                 next_index_for_pe[owner := next_index_for_pe ! owner + 1]))"

definition request_state ::
  "graph list \<Rightarrow> nat list list \<Rightarrow> nat \<Rightarrow> NonlocalClusterMap \<times> nat list" where
  "request_state gs cs p =
     fold (req_step (node_distribution (gs ! 0)))
       (request_clusters (gs ! p) (cs ! p) (received_edges gs cs p))
       ([], replicate (length gs + 1) 0)"

definition key_owner :: "nat list \<Rightarrow> nat \<times> nat \<Rightarrow> nat" where
  "key_owner dist kv = owner_of dist (fst kv - 1)"

definition requests_of :: "nat list \<Rightarrow> nat \<Rightarrow> NonlocalClusterMap \<Rightarrow> nat list list" where
  "requests_of dist sz m =
     map (\<lambda>pe. map (\<lambda>kv. fst kv - 1) (filter (\<lambda>kv. key_owner dist kv = pe) m)) [0..<sz]"

definition mapping_requests :: "graph list \<Rightarrow> nat list list \<Rightarrow> nat \<Rightarrow> nat list list" where
  "mapping_requests gs cs p =
     requests_of (node_distribution (gs ! 0)) (length gs) (fst (request_state gs cs p))"

definition req_inv :: "nat list \<Rightarrow> nat \<Rightarrow> NonlocalClusterMap \<times> nat list \<Rightarrow> bool" where
  "req_inv dist sz st =
     (case st of (m, next_index_for_pe) \<Rightarrow>
        length next_index_for_pe = sz + 1 \<and> distinct (map fst m) \<and>
        (\<forall>kv \<in> set m. 1 \<le> fst kv \<and> fst kv - 1 < last dist) \<and>
        (\<forall>pe \<le> sz. map snd (filter (\<lambda>kv. key_owner dist kv = pe) m)
                        = [1..<Suc (next_index_for_pe ! pe)]))"

text \<open>
  The answers to the requests of a process, the echo of the coarse identifiers of the
  clusters of its migrated nodes, and the map from nonlocal clusters to indices after the
  echo has been inserted.
\<close>

definition mapping_responses :: "graph list \<Rightarrow> nat list list \<Rightarrow> nat \<Rightarrow> nat list list" where
  "mapping_responses gs cs p = map (map (coarse_global gs cs)) (mapping_requests gs cs p)"

definition echoed :: "graph list \<Rightarrow> nat list list \<Rightarrow> nat \<Rightarrow> (nat \<times> nat) list" where
  "echoed gs cs p = map (\<lambda>x. (gn_u x, coarse_global gs cs (gn_u x))) (sent_nodes gs cs ! p)"

definition cluster_index :: "graph list \<Rightarrow> nat list list \<Rightarrow> nat \<Rightarrow> NonlocalClusterMap" where
  "cluster_index gs cs p =
     insert_echoed_mappings (gs ! p) (echoed gs cs p) (fst (request_state gs cs p))"

text \<open>
  The contributors of the coarse nodes: the home nodes, and the first edge of every block
  of received edges (as \<open>n\<close> plus its index). The bucket of a coarse node holds its
  contributors, the last one first.
\<close>

definition bucket_items :: "graph \<Rightarrow> nat list \<Rightarrow> GlobalEdge list \<Rightarrow> nat list" where
  "bucket_items g clustering local_edges =
     filter (\<lambda>u. is_owned_global_node g (clustering ! u)) [0..<graph_n g]
     @ map (\<lambda>i. graph_n g + i) (filter (starts_block local_edges) [0..<length local_edges])"

definition bucket_key :: "graph \<Rightarrow> NodeID list \<Rightarrow> nat list \<Rightarrow> GlobalEdge list \<Rightarrow> nat \<Rightarrow> nat" where
  "bucket_key g cluster_mapping clustering local_edges x =
     (if x < graph_n g then unat (cluster_mapping ! (clustering ! x - offset_n g))
      else ge_u (local_edges ! (x - graph_n g)))"

definition bucket_start ::
  "graph \<Rightarrow> NodeID list \<Rightarrow> nat list \<Rightarrow> GlobalEdge list \<Rightarrow> nat \<Rightarrow> nat" where
  "bucket_start g cluster_mapping clustering local_edges c =
     length (filter (\<lambda>x. bucket_key g cluster_mapping clustering local_edges x < c)
               (bucket_items g clustering local_edges))"

definition bucket ::
  "graph \<Rightarrow> NodeID list \<Rightarrow> nat list \<Rightarrow> GlobalEdge list \<Rightarrow> nat \<Rightarrow> nat list" where
  "bucket g cluster_mapping clustering local_edges c =
     rev (filter (\<lambda>x. bucket_key g cluster_mapping clustering local_edges x = c)
            (bucket_items g clustering local_edges))"

text \<open>
  The ghosts of the coarse graph of a process: one for every answer to its requests, in
  the order of the owners and, per owner, of the requests.
\<close>

definition ghost_entries :: "graph list \<Rightarrow> nat list list \<Rightarrow> nat \<Rightarrow> (nat \<times> nat) list" where
  "ghost_entries gs cs p =
     concat (map (\<lambda>pe. map (\<lambda>x. (x, pe)) (mapping_responses gs cs p ! pe)) [0..<length gs])"

definition coarse_ghosts :: "graph list \<Rightarrow> nat list list \<Rightarrow> nat \<Rightarrow> CoarseGhosts" where
  "coarse_ghosts gs cs p =
     (let E = ghost_entries gs cs p;
          c_n = unat (coarse_n (lcnodes gs cs p))
      in \<lparr>cg_global_to_ghost = map_of (map (\<lambda>j. (fst (E ! j) + 1, c_n + j)) [0..<length E]),
          cg_ghost_to_global = map fst E,
          cg_ghost_owner = map snd E\<rparr>)"

text \<open>
  The local identifier of the coarse node of a cluster, as the edge construction resolves
  it; the received edges with their sources replaced by local coarse identifiers; and what
  the edge construction yields for a coarse node: its weight from the home nodes, and the
  rating map after all contributed edges were added.
\<close>

definition coarse_local :: "graph list \<Rightarrow> nat list list \<Rightarrow> nat \<Rightarrow> nat \<Rightarrow> nat" where
  "coarse_local gs cs p cluster =
     (if is_owned_global_node (gs ! p) cluster
      then unat (lcnodes gs cs p ! (cluster - offset_n (gs ! p)))
      else (case cg_global_to_ghost (coarse_ghosts gs cs p) (coarse_global gs cs cluster + 1) of
              Some v \<Rightarrow> v | None \<Rightarrow> 0))"

definition localized :: "graph list \<Rightarrow> nat list list \<Rightarrow> nat \<Rightarrow> GlobalEdge list" where
  "localized gs cs p =
     localize_global_edge_list (received_edges gs cs p) (offset_n (gs ! p)) (lcnodes gs cs p)"

definition bucket_of :: "graph list \<Rightarrow> nat list list \<Rightarrow> nat \<Rightarrow> nat \<Rightarrow> nat list" where
  "bucket_of gs cs p c = bucket (gs ! p) (lcnodes gs cs p) (cs ! p) (localized gs cs p) c"

definition contributions ::
  "graph list \<Rightarrow> nat list list \<Rightarrow> nat \<Rightarrow> nat \<Rightarrow> nat \<Rightarrow> (int \<times> nat) list" where
  "contributions gs cs p c_u x =
     (if x < graph_n (gs ! p)
      then map (\<lambda>(e, v). (edge_weight (gs ! p) e, cs ! p ! v)) (neighbors (gs ! p) x)
      else map (\<lambda>e. (ge_weight e, ge_v e))
             (takeWhile (\<lambda>e. ge_u e = c_u) (drop (x - graph_n (gs ! p)) (localized gs cs p))))"

definition add_edges ::
  "graph list \<Rightarrow> nat list list \<Rightarrow> nat \<Rightarrow> nat \<Rightarrow> (int \<times> nat) list \<Rightarrow> (nat \<times> int) list \<Rightarrow>
   (nat \<times> int) list" where
  "add_edges gs cs p c_u contribs rmap =
     fold (\<lambda>(w, c) rmap. if coarse_local gs cs p c \<noteq> c_u
                           then rating_add rmap (coarse_local gs cs p c) w else rmap)
       contribs rmap"

definition collected :: "graph list \<Rightarrow> nat list list \<Rightarrow> nat \<Rightarrow> nat \<Rightarrow> int \<times> (nat \<times> int) list" where
  "collected gs cs p c_u =
     (sum_list (map (node_weight (gs ! p))
                  (filter (\<lambda>x. x < graph_n (gs ! p)) (bucket_of gs cs p c_u))),
      add_edges gs cs p c_u (concat (map (contributions gs cs p c_u) (bucket_of gs cs p c_u))) [])"

text \<open>What a process contributes to the coarse graph, as a function of the input.\<close>

definition local_contraction :: "graph list \<Rightarrow> nat list list \<Rightarrow> nat \<Rightarrow> LocalContraction" where
  "local_contraction gs cs p =
     (let c_n = unat (coarse_n (lcnodes gs cs p));
          coll = map (collected gs cs p) [0..<c_n]
      in \<lparr>lc_nodes = prefix_sum (0 # map (\<lambda>r. length (snd r)) coll),
          lc_edges = concat (map (\<lambda>r. map fst (snd r)) coll),
          lc_node_weights =
            integrate_node_weights (gs ! p) (lcnodes gs cs p) (received_nodes gs cs p)
              (map fst coll @ replicate (length (ghost_entries gs cs p)) 0),
          lc_edge_weights = concat (map (\<lambda>r. map snd (snd r)) coll),
          lc_ghosts = coarse_ghosts gs cs p,
          lc_lnode_to_gcnode = map (\<lambda>u. coarse_global gs cs (cs ! p ! u)) [0..<graph_n (gs ! p)]\<rparr>)"

text \<open>The coarse graph of a process before the weights of its ghosts are synchronised.\<close>

definition coarse_edge_distribution :: "graph list \<Rightarrow> nat list list \<Rightarrow> nat list" where
  "coarse_edge_distribution gs cs =
     build_distribution (map (\<lambda>p. last (lc_nodes (local_contraction gs cs p))) [0..<length gs])"

definition coarse_graph :: "graph list \<Rightarrow> nat list list \<Rightarrow> nat \<Rightarrow> graph" where
  "coarse_graph gs cs p =
     \<lparr>node_distribution = coarse_distribution gs cs,
      edge_distribution = coarse_edge_distribution gs cs,
      nodes = lc_nodes (local_contraction gs cs p),
      edges = lc_edges (local_contraction gs cs p),
      node_weights = lc_node_weights (local_contraction gs cs p),
      edge_weights = lc_edge_weights (local_contraction gs cs p),
      ghost_owner = cg_ghost_owner (coarse_ghosts gs cs p),
      ghost_to_global = cg_ghost_to_global (coarse_ghosts gs cs p),
      global_to_ghost = cg_global_to_ghost (coarse_ghosts gs cs p),
      pe_rank = pe_rank (gs ! p)\<rparr>"

text \<open>A graph after the synchronisation of its ghost weights: only the weights of ghosts
  differ from the graph before.\<close>

definition synced_from :: "graph \<Rightarrow> graph \<Rightarrow> bool" where
  "synced_from g0 g \<longleftrightarrow>
     (g = g0\<lparr>node_weights := node_weights g\<rparr> \<and>
      length (node_weights g) = length (node_weights g0) \<and>
      (\<forall>u < graph_n g0. node_weights g ! u = node_weights g0 ! u))"

section \<open>A two-process example\<close>

text \<open>
  The weighted path \<open>0 - 1 - 2 - 3\<close> with edge weights 5, 7 and 1 and node weights 1, 2, 3
  and 4: process 0 owns the nodes 0 and 1 and sees node 2 as a ghost, process 1 owns the
  nodes 2 and 3 and sees node 1 as a ghost. The clustering joins the nodes 1 and 2 in the
  cluster 2 and leaves the nodes 0 and 3 alone, so that node 1 migrates to process 1.
\<close>

definition path_graphs :: "graph list" where
  "path_graphs =
     [\<lparr>node_distribution = [0, 2, 4], edge_distribution = [0, 3, 6],
       nodes = [0, 1, 3], edges = [1, 0, 2], node_weights = [1, 2, 3], edge_weights = [5, 5, 7],
       ghost_owner = [1], ghost_to_global = [2], global_to_ghost = [3 \<mapsto> 2], pe_rank = 0\<rparr>,
      \<lparr>node_distribution = [0, 2, 4], edge_distribution = [0, 3, 6],
       nodes = [0, 2, 3], edges = [2, 1, 0], node_weights = [3, 4, 2], edge_weights = [7, 1, 1],
       ghost_owner = [0], ghost_to_global = [1], global_to_ghost = [2 \<mapsto> 2], pe_rank = 1\<rparr>]"

definition path_clustering :: "nat list list" where
  "path_clustering = [[0, 2, 2], [2, 3, 2]]"

definition path_identity :: "nat list list" where
  "path_identity = [[0, 1, 2], [2, 3, 1]]"

section \<open>Auxiliary facts: errors, scans and scatter writes\<close>

subsection \<open>The error monad\<close>

lemma bind_err_Inr [simp]: "bind_err (Inr x) f = f x"
  by (simp add: bind_err_def)

lemma bind_err_Inl [simp]: "bind_err (Inl e) f = Inl e"
  by (simp add: bind_err_def)

lemma bind_err_eq_Inr:
  "bind_err m f = Inr y \<longleftrightarrow> (\<exists>x. m = Inr x \<and> f x = Inr y)"
  by (cases m) auto

lemma kassert_True [simp]: "kassert True = Inr ()"
  by (simp add: kassert_def)

lemma kassert_eq_Inr [simp]: "kassert b = Inr x \<longleftrightarrow> b"
  by (simp add: kassert_def)

lemma fold_err_pure:
  "(\<And>x s. x \<in> set xs \<Longrightarrow> f x s = Inr (h x s)) \<Longrightarrow> fold_err f xs s = Inr (fold h xs s)"
  by (induction xs arbitrary: s) auto

lemma fold_err_invariant:
  assumes "I s"
    and "\<And>x s. x \<in> set xs \<Longrightarrow> I s \<Longrightarrow> \<exists>s'. f x s = Inr s' \<and> I s'"
  shows "\<exists>s'. fold_err f xs s = Inr s' \<and> I s'"
  using assms
proof (induction xs arbitrary: s)
  case Nil
  then show ?case by simp
next
  case (Cons x xs)
  from Cons.prems(2) [of x s] Cons.prems(1) obtain s1 where s1: "f x s = Inr s1" "I s1"
    by auto
  from Cons.IH [OF s1(2)] Cons.prems(2) obtain s' where "fold_err f xs s1 = Inr s'" "I s'"
    by auto
  with s1 show ?case by auto
qed

lemma fold_err_append:
  "fold_err f (xs @ ys) s = bind_err (fold_err f xs s) (fold_err f ys)"
  by (induction xs arbitrary: s) (auto split: sum.splits)

lemma map_err_pure:
  "(\<And>x. x \<in> set xs \<Longrightarrow> f x = Inr (h x)) \<Longrightarrow> map_err f xs = Inr (map h xs)"
  by (induction xs) auto

lemma map_err_Inr_iff:
  "map_err f xs = Inr ys \<longleftrightarrow> length ys = length xs \<and> (\<forall>i < length xs. f (xs ! i) = Inr (ys ! i))"
proof (induction xs arbitrary: ys)
  case Nil
  then show ?case by auto
next
  case (Cons x xs)
  show ?case
  proof (cases ys)
    case Nil
    then show ?thesis by (auto split: sum.splits)
  next
    case (Cons y ys')
    then show ?thesis
      using Cons.IH [of ys'] by (auto split: sum.splits simp: nth_Cons split: nat.splits)
  qed
qed

subsection \<open>Scans\<close>

lemma length_prefix_sum_from [simp]: "length (prefix_sum_from acc xs) = length xs"
  by (induction xs arbitrary: acc) auto

lemma prefix_sum_from_eq_Nil [simp]: "prefix_sum_from acc xs = [] \<longleftrightarrow> xs = []"
  by (cases xs) auto

lemma prefix_sum_eq_Nil [simp]: "prefix_sum xs = [] \<longleftrightarrow> xs = []"
  by (simp add: prefix_sum_def)

lemma length_prefix_sum [simp]: "length (prefix_sum xs) = length xs"
  by (simp add: prefix_sum_def)

lemma prefix_sum_from_nth:
  "i < length xs \<Longrightarrow> prefix_sum_from acc xs ! i = acc + sum_list (take (Suc i) xs)"
proof (induction xs arbitrary: acc i)
  case Nil then show ?case by simp
next
  case (Cons x xs)
  then show ?case by (cases i) (auto simp: add.assoc)
qed

lemma prefix_sum_nth:
  "i < length xs \<Longrightarrow> prefix_sum xs ! i = sum_list (take (Suc i) xs)"
  by (simp add: prefix_sum_def prefix_sum_from_nth)

lemma prefix_sum_Cons0_nth:
  "i \<le> length xs \<Longrightarrow> prefix_sum ((0::nat) # xs) ! i = sum_list (take i xs)"
  by (simp add: prefix_sum_nth)

lemma last_prefix_sum_Cons0:
  "last (prefix_sum ((0::nat) # xs)) = sum_list xs"
proof -
  have "prefix_sum (0 # xs) \<noteq> []"
    by (simp add: prefix_sum_def)
  then have "last (prefix_sum (0 # xs))
      = prefix_sum (0 # xs) ! (length (prefix_sum (0 # xs)) - 1)"
    by (rule last_conv_nth)
  also have "\<dots> = prefix_sum (0 # xs) ! length xs" by simp
  finally show ?thesis by (simp add: prefix_sum_Cons0_nth)
qed

lemma length_exclusive_scan [simp]: "length (exclusive_scan xs init) = length xs"
  by (induction xs arbitrary: init) auto

lemma exclusive_scan_nth:
  "i < length xs \<Longrightarrow> exclusive_scan xs init ! i = init + sum_list (take i xs)"
proof (induction xs arbitrary: init i)
  case Nil then show ?case by simp
next
  case (Cons x xs)
  then show ?case by (cases i) (auto simp: add.assoc)
qed

subsection \<open>Scatter writes\<close>

lemma length_write_seg [simp]: "length (write_seg pos seg buf) = length buf"
proof -
  have "length (fold (\<lambda>k b. b[pos + k := seg ! k]) ks buf) = length buf" for ks
    by (induction ks arbitrary: buf) auto
  then show ?thesis by (simp add: write_seg_def)
qed

lemma fold_update_nth:
  "distinct ks \<Longrightarrow> j < length buf \<Longrightarrow>
   fold (\<lambda>k b. b[pos + k := f k]) ks buf ! j
   = (if pos \<le> j \<and> j - pos \<in> set ks then f (j - pos) else buf ! j)"
proof (induction ks arbitrary: buf)
  case Nil then show ?case by simp
next
  case (Cons k ks)
  then show ?case by (auto simp: nth_list_update)
qed

lemma write_seg_nth:
  "j < length buf \<Longrightarrow> write_seg pos seg buf ! j
   = (if pos \<le> j \<and> j < pos + length seg then seg ! (j - pos) else buf ! j)"
  unfolding write_seg_def
  by (subst fold_update_nth) auto

lemma write_seg_append:
  "length pre = pos \<Longrightarrow> length mid = length seg \<Longrightarrow>
   write_seg pos seg (pre @ mid @ post) = pre @ seg @ post"
  by (rule nth_equalityI) (auto simp: write_seg_nth nth_append)

text \<open>Writing the segments at the prefix sums of their lengths gives their concatenation.\<close>

lemma scatter_concat_gen:
  fixes seg :: "nat \<Rightarrow> 'a list"
  assumes "k \<le> n"
  shows "fold (\<lambda>u buf. write_seg (sum_list (map (\<lambda>j. length (seg j)) [0..<u])) (seg u) buf)
           [0..<k] (replicate (sum_list (map (\<lambda>j. length (seg j)) [0..<n])) d)
         = concat (map seg [0..<k]) @
           replicate (sum_list (map (\<lambda>j. length (seg j)) [k..<n])) d"
  using assms
proof (induction k)
  case 0
  then show ?case by simp
next
  case (Suc k)
  let ?len = "\<lambda>a b. sum_list (map (\<lambda>j. length (seg j)) [a..<b])"
  have split: "?len k n = length (seg k) + ?len (Suc k) n"
    using Suc.prems by (simp add: upt_conv_Cons)
  have pre: "length (concat (map seg [0..<k])) = ?len 0 k"
    by (simp add: length_concat comp_def)
  have "fold (\<lambda>u buf. write_seg (?len 0 u) (seg u) buf) [0..<Suc k] (replicate (?len 0 n) d)
      = write_seg (?len 0 k) (seg k) (concat (map seg [0..<k]) @ replicate (?len k n) d)"
    using Suc by simp
  also have "replicate (?len k n) d = replicate (length (seg k)) d @ replicate (?len (Suc k) n) d"
    by (simp add: split replicate_add)
  also have "write_seg (?len 0 k) (seg k)
       (concat (map seg [0..<k]) @ replicate (length (seg k)) d @ replicate (?len (Suc k) n) d)
     = concat (map seg [0..<k]) @ seg k @ replicate (?len (Suc k) n) d"
    by (rule write_seg_append) (simp_all add: pre)
  finally show ?case by simp
qed

lemma scatter_concat:
  fixes seg :: "nat \<Rightarrow> 'a list"
  shows "fold (\<lambda>u buf. write_seg (sum_list (map (\<lambda>j. length (seg j)) [0..<u])) (seg u) buf)
           [0..<n] (replicate (sum_list (map (\<lambda>j. length (seg j)) [0..<n])) d)
         = concat (map seg [0..<n])"
  using scatter_concat_gen [of n n seg d] by simp

lemma fold_pair_split:
  "fold (\<lambda>u (a, b). (f u a, h u b)) us (a0, b0) = (fold f us a0, fold h us b0)"
  by (induction us arbitrary: a0 b0) auto

lemma fold_cong_set:
  "(\<And>x s. x \<in> set xs \<Longrightarrow> f x s = h x s) \<Longrightarrow> fold f xs s = fold h xs s"
  by (induction xs arbitrary: s) auto

section \<open>Phases A and B: the nonlocal records and their deduplication\<close>

subsection \<open>Phase A\<close>

lemma length_neighbors [simp]: "length (neighbors g u) = degree g u"
  by (simp add: neighbors_def degree_def)

lemma write_seg_Nil [simp]: "write_seg pos [] buf = buf"
  by (simp add: write_seg_def)

lemma write_seg_single: "write_seg pos [x] buf = buf[pos := x]"
  by (simp add: write_seg_def)

lemma sum_list_take_upt:
  "u \<le> n \<Longrightarrow> sum_list (take u (map f [0..<n])) = sum_list (map f [0..<u])"
  by (simp add: take_map)

lemma scatter_prefix_sum:
  fixes seg :: "nat \<Rightarrow> 'a list"
  assumes pos: "pos = prefix_sum (0 # map (\<lambda>u. length (seg u)) [0..<n])"
  shows "fold (\<lambda>u buf. write_seg (pos ! u) (seg u) buf) [0..<n] (replicate (last pos) d)
         = concat (map seg [0..<n])"
proof -
  have l: "last pos = sum_list (map (\<lambda>j. length (seg j)) [0..<n])"
    by (simp add: pos last_prefix_sum_Cons0)
  have p: "pos ! u = sum_list (map (\<lambda>j. length (seg j)) [0..<u])" if "u \<in> set [0..<n]" for u
    using that by (simp add: pos prefix_sum_Cons0_nth sum_list_take_upt)
  have "fold (\<lambda>u buf. write_seg (pos ! u) (seg u) buf) [0..<n] (replicate (last pos) d)
      = fold (\<lambda>u buf. write_seg (sum_list (map (\<lambda>j. length (seg j)) [0..<u])) (seg u) buf)
          [0..<n] (replicate (last pos) d)"
    by (rule fold_cong_set) (simp add: p)
  then show ?thesis by (simp add: l scatter_concat)
qed

lemma find_nonlocal_nodes_and_edges_eq:
  "find_nonlocal_nodes_and_edges g clustering
   = (nonlocal_node_records g clustering, nonlocal_edge_records g clustering)"
proof -
  let ?own = "\<lambda>u. is_owned_global_node g (clustering ! u)"
  let ?nseg = "\<lambda>u. if ?own u then [] else [GlobalNode (clustering ! u) (node_weight g u)]"
  let ?eseg = "\<lambda>u. if ?own u then []
                    else map (\<lambda>(e, v). GlobalEdge (clustering ! u) (clustering ! v) (edge_weight g e))
                           (neighbors g u)"
  let ?epos = "prefix_sum (0 # map (\<lambda>u. if ?own u then 0 else degree g u) [0..<graph_n g])"
  let ?npos = "prefix_sum (0 # map (\<lambda>u. if ?own u then 0 else 1) [0..<graph_n g])"
  have e: "?epos = prefix_sum (0 # map (\<lambda>u. length (?eseg u)) [0..<graph_n g])"
    by (rule arg_cong [where f = prefix_sum]) simp
  have n: "?npos = prefix_sum (0 # map (\<lambda>u. length (?nseg u)) [0..<graph_n g])"
    by (rule arg_cong [where f = prefix_sum]) simp
  have body: "(\<lambda>u (ns, es).
           let c_u = clustering ! u in
           if \<not> is_owned_global_node g c_u
           then (ns[?npos ! u := GlobalNode c_u (node_weight g u)],
                 write_seg (?epos ! u)
                   (map (\<lambda>(e, v). GlobalEdge c_u (clustering ! v) (edge_weight g e))
                      (neighbors g u)) es)
           else (ns, es))
      = (\<lambda>u (ns, es). (write_seg (?npos ! u) (?nseg u) ns, write_seg (?epos ! u) (?eseg u) es))"
    by (auto simp: fun_eq_iff Let_def write_seg_single)
  show ?thesis
    unfolding find_nonlocal_nodes_and_edges_def Let_def [of "prefix_sum _"] Let_def [of "replicate _ _"]
    unfolding body fold_pair_split
    unfolding nonlocal_node_records_def nonlocal_edge_records_def
    using scatter_prefix_sum [OF e, of "GlobalEdge 0 0 0"] scatter_prefix_sum [OF n, of "GlobalNode 0 0"]
    by simp
qed

subsection \<open>Phase B: the deduplication coalesces the sorted records\<close>

lemma coalesce_snoc: "coalesce (es @ [e]) = coalesce_step (coalesce es) e"
  by (simp add: coalesce_def)

lemma coalesce_Nil [simp]: "coalesce [] = []"
  by (simp add: coalesce_def)

lemma coalesce_single [simp]: "coalesce [e] = [e]"
  by (simp add: coalesce_def coalesce_step_def)

lemma coalesce_eq_Nil [simp]: "coalesce es = [] \<longleftrightarrow> es = []"
  by (induction es rule: rev_induct) (auto simp: coalesce_snoc coalesce_step_def)

lemma edge_key_last_coalesce:
  "es \<noteq> [] \<Longrightarrow> edge_key (last (coalesce es)) = edge_key (last es)"
  by (induction es rule: rev_induct) (auto simp: coalesce_snoc coalesce_step_def edge_key_def)


lemma boundary_key:
  "boundary s i = (if 1 \<le> i \<and> edge_key (s ! i) \<noteq> edge_key (s ! (i - 1)) then 1 else 0)"
  by (auto simp: boundary_def edge_key_def)

lemma length_coalesce_take:
  "k < length s \<Longrightarrow>
   length (coalesce (take (Suc k) s)) = Suc (sum_list (map (boundary s) [0..<Suc k]))"
proof (induction k)
  case 0
  then show ?case
    by (simp add: take_Suc_conv_app_nth coalesce_snoc coalesce_step_def boundary_def)
next
  case (Suc k)
  then have k: "k < length s" by simp
  have ne: "take (Suc k) s \<noteq> []" using k by (cases s) auto
  have lst: "last (take (Suc k) s) = s ! k"
    using k by (simp add: take_Suc_conv_app_nth)
  have "coalesce (take (Suc (Suc k)) s) = coalesce_step (coalesce (take (Suc k) s)) (s ! Suc k)"
    using Suc.prems by (simp add: take_Suc_conv_app_nth [of "Suc k"] coalesce_snoc)
  then show ?case
    using Suc.IH [OF k] edge_key_last_coalesce [OF ne] lst ne
    by (auto simp: coalesce_step_def boundary_key)
qed


lemma list_update_last:
  "xs \<noteq> [] \<Longrightarrow> (xs @ zs)[length xs - 1 := x] = butlast xs @ [x] @ zs"
  by (cases xs rule: rev_cases) (auto simp: list_update_append)

lemma sum_boundary_mono:
  "k \<le> n \<Longrightarrow> sum_list (map (boundary s) [0..<k]) \<le> sum_list (map (boundary s) [0..<n])"
proof -
  assume "k \<le> n"
  then have "[0..<n] = [0..<k] @ [k..<n]"
    by (metis le_add_diff_inverse upt_add_eq_append zero_le)
  then show ?thesis by (metis le_add1 map_append sum_list.append)
qed

lemma length_coalesce_take_le:
  assumes "k \<le> length s"
  shows "length (coalesce (take k s)) \<le> length (coalesce s)"
proof (cases k)
  case 0
  then show ?thesis by simp
next
  case (Suc j)
  with assms have j: "j < length s" by simp
  then obtain m where m: "length s = Suc m" by (cases s) auto
  have "length (coalesce (take (Suc j) s)) = Suc (sum_list (map (boundary s) [0..<Suc j]))"
    by (rule length_coalesce_take [OF j])
  moreover have "length (coalesce (take (Suc m) s)) = Suc (sum_list (map (boundary s) [0..<Suc m]))"
    by (rule length_coalesce_take) (simp add: m)
  moreover have "sum_list (map (boundary s) [0..<Suc j]) \<le> sum_list (map (boundary s) [0..<Suc m])"
    by (rule sum_boundary_mono) (use j m in simp)
  ultimately show ?thesis using Suc m by simp
qed

lemma dedup_fold_invariant:
  fixes s :: "GlobalEdge list"
  defines "pos \<equiv> prefix_sum (map (boundary s) [0..<length s])"
  defines "N \<equiv> length (coalesce s)"
  defines "F \<equiv> (\<lambda>i tmp.
             let p = pos ! i in
             tmp[p := GlobalEdge (ge_u (s ! i)) (ge_v (s ! i))
                          (ge_weight (tmp ! p) + ge_weight (s ! i))])"
  assumes "k \<le> length s"
  shows "fold F [0..<k] (replicate N (GlobalEdge 0 0 0))
         = coalesce (take k s) @ replicate (N - length (coalesce (take k s))) (GlobalEdge 0 0 0)"
  using assms(4)
proof (induction k)
  case 0
  then show ?case by simp
next
  case (Suc k)
  let ?z = "GlobalEdge 0 0 0"
  let ?A = "coalesce (take k s)"
  let ?e = "s ! k"
  let ?B = "?A @ replicate (N - length ?A) ?z"
  from Suc.prems have k: "k < length s" by simp
  have A': "coalesce (take (Suc k) s) = coalesce_step ?A ?e"
    using k by (simp add: take_Suc_conv_app_nth coalesce_snoc)
  have lenA': "length (coalesce (take (Suc k) s)) \<le> N"
    unfolding N_def by (rule length_coalesce_take_le) (use k in simp)
  have posk: "pos ! k = length (coalesce (take (Suc k) s)) - 1"
    using k by (simp add: pos_def prefix_sum_nth take_map length_coalesce_take del: upt_Suc)
  have e: "GlobalEdge (ge_u ?e) (ge_v ?e) (ge_weight ?e) = ?e" by simp
  have IH: "fold F [0..<k] (replicate N ?z) = ?B"
    using Suc.IH k by simp
  have "fold F [0..<Suc k] (replicate N ?z) = F k (fold F [0..<k] (replicate N ?z))"
    by simp
  also have "\<dots> = F k ?B" by (simp only: IH)
  also have "\<dots> = ?B[pos ! k := GlobalEdge (ge_u ?e) (ge_v ?e)
                          (ge_weight (?B ! (pos ! k)) + ge_weight ?e)]"
    by (simp add: F_def Let_def)
  finally have F: "fold F [0..<Suc k] (replicate N ?z)
      = ?B[pos ! k := GlobalEdge (ge_u ?e) (ge_v ?e) (ge_weight (?B ! (pos ! k)) + ge_weight ?e)]" .
  show ?case
  proof (cases "?A \<noteq> [] \<and> edge_key (last ?A) = edge_key ?e")
    case True
    then have step: "coalesce_step ?A ?e
        = butlast ?A @ [GlobalEdge (ge_u ?e) (ge_v ?e) (ge_weight (last ?A) + ge_weight ?e)]"
      by (simp add: coalesce_step_def)
    have len: "length (coalesce_step ?A ?e) = length ?A" using True by (simp add: step)
    have p: "pos ! k = length ?A - 1" using posk A' len by simp
    have pA: "length ?A - 1 < length ?A" using True by (cases ?A) auto
    have nthp: "?B ! (length ?A - 1) = last ?A"
      using True pA by (simp add: nth_append last_conv_nth)
    have upd: "?B[length ?A - 1 := x] = butlast ?A @ [x] @ replicate (N - length ?A) ?z" for x
      by (rule list_update_last) (use True in blast)
    have suc: "Suc (length ?A - Suc 0) = length ?A" using pA by simp
    show ?thesis
      unfolding F p nthp upd A' by (simp add: step suc)
  next
    case False
    then have step: "coalesce_step ?A ?e = ?A @ [?e]"
      by (auto simp: coalesce_step_def)
    have len: "length (coalesce_step ?A ?e) = Suc (length ?A)" by (simp add: step)
    have p: "pos ! k = length ?A" using posk A' len by simp
    have lt: "length ?A < N" using lenA' A' len by simp
    then obtain r where r: "N - length ?A = Suc r" by (cases "N - length ?A") auto
    have r': "N - Suc (length ?A) = r" using r by simp
    show ?thesis
      unfolding F p A' by (simp add: step r r' nth_append list_update_append e)
  qed
qed

lemma deduplicate_edge_list_eq:
  "deduplicate_edge_list es = coalesce (sort_edges_by_key es)"
proof (cases "es = []")
  case True
  then show ?thesis by (simp add: deduplicate_edge_list_def sort_edges_by_key_def)
next
  case False
  let ?s = "sort_edges_by_key es"
  have "length ?s = length es" by (simp add: sort_edges_by_key_def)
  with False have ne: "?s \<noteq> []" by (metis length_0_conv)
  then obtain m where m: "length ?s = Suc m" by (cases ?s) auto
  let ?pos = "prefix_sum (map (boundary ?s) [0..<length ?s])"
  have "last ?pos = ?pos ! m"
    using m by (simp add: last_conv_nth)
  also have "\<dots> = sum_list (map (boundary ?s) [0..<Suc m])"
    using m by (simp add: prefix_sum_nth take_map del: upt_Suc)
  finally have N: "last ?pos + 1 = length (coalesce ?s)"
    using length_coalesce_take [of m ?s] m by simp
  have b: "(\<lambda>i. if 1 \<le> i \<and> (ge_u (?s ! i) \<noteq> ge_u (?s ! (i - 1)) \<or>
                          ge_v (?s ! i) \<noteq> ge_v (?s ! (i - 1))) then 1 else 0) = boundary ?s"
    by (simp add: fun_eq_iff boundary_def)
  have "deduplicate_edge_list es
      = fold (\<lambda>i tmp.
             let p = ?pos ! i in
             tmp[p := GlobalEdge (ge_u (?s ! i)) (ge_v (?s ! i))
                          (ge_weight (tmp ! p) + ge_weight (?s ! i))])
           [0..<length ?s] (replicate (length (coalesce ?s)) (GlobalEdge 0 0 0))"
    using False
    unfolding deduplicate_edge_list_def Let_def [of "sort_edges_by_key es"] Let_def [of "prefix_sum _"]
      Let_def [of "replicate _ _"] b N
    by simp
  also have "\<dots> = coalesce ?s"
    using dedup_fold_invariant [of "length ?s" ?s] by simp
  finally show ?thesis .
qed

lemma map_key_coalesce_step:
  "map edge_key (coalesce_step acc e)
   = (if acc \<noteq> [] \<and> edge_key (last acc) = edge_key e then map edge_key acc
      else map edge_key acc @ [edge_key e])"
proof (cases "acc \<noteq> [] \<and> edge_key (last acc) = edge_key e")
  case True
  then obtain ys y where acc: "acc = ys @ [y]" by (cases acc rule: rev_cases) auto
  with True show ?thesis by (simp add: coalesce_step_def edge_key_def)
next
  case False
  then show ?thesis by (auto simp: coalesce_step_def)
qed

lemma set_key_coalesce_step:
  "set (map edge_key (coalesce_step acc e)) = insert (edge_key e) (set (map edge_key acc))"
proof (cases "acc \<noteq> [] \<and> edge_key (last acc) = edge_key e")
  case True
  then have "edge_key e \<in> set (map edge_key acc)"
    by (metis last_in_set last_map map_is_Nil_conv)
  then have "insert (edge_key e) (set (map edge_key acc)) = set (map edge_key acc)"
    by (rule insert_absorb)
  moreover have "map edge_key (coalesce_step acc e) = map edge_key acc"
    using True by (simp add: map_key_coalesce_step)
  ultimately show ?thesis by simp
next
  case False
  then have "map edge_key (coalesce_step acc e) = map edge_key acc @ [edge_key e]"
    by (simp add: map_key_coalesce_step)
  then show ?thesis by simp
qed

lemma set_key_coalesce: "set (map edge_key (coalesce es)) = set (map edge_key es)"
proof (induction es rule: rev_induct)
  case Nil
  then show ?case by simp
next
  case (snoc e es)
  have "set (map edge_key (coalesce (es @ [e])))
      = insert (edge_key e) (set (map edge_key (coalesce es)))"
    by (simp only: coalesce_snoc set_key_coalesce_step)
  also have "\<dots> = insert (edge_key e) (set (map edge_key es))"
    by (simp only: snoc.IH)
  finally show ?case by simp
qed

lemma key_weight_coalesce_step:
  "key_weight k (coalesce_step acc e) = key_weight k acc + key_weight k [e]"
proof (cases "acc \<noteq> [] \<and> edge_key (last acc) = edge_key e")
  case True
  then obtain ys y where acc: "acc = ys @ [y]" by (cases acc rule: rev_cases) auto
  with True show ?thesis by (simp add: coalesce_step_def key_weight_def edge_key_def)
next
  case False
  then show ?thesis by (auto simp: coalesce_step_def key_weight_def)
qed

lemma key_weight_append: "key_weight k (xs @ ys) = key_weight k xs + key_weight k ys"
  by (simp add: key_weight_def)

lemma key_weight_coalesce: "key_weight k (coalesce es) = key_weight k es"
  by (induction es rule: rev_induct)
    (simp_all add: coalesce_snoc key_weight_coalesce_step key_weight_append)

lemma sum_weight_coalesce_step:
  "sum_list (map ge_weight (coalesce_step acc e)) = sum_list (map ge_weight acc) + ge_weight e"
proof (cases "acc \<noteq> [] \<and> edge_key (last acc) = edge_key e")
  case True
  then obtain ys y where acc: "acc = ys @ [y]" by (cases acc rule: rev_cases) auto
  with True show ?thesis by (simp add: coalesce_step_def)
next
  case False
  then show ?thesis by (auto simp: coalesce_step_def)
qed

lemma sum_weight_coalesce:
  "sum_list (map ge_weight (coalesce es)) = sum_list (map ge_weight es)"
  by (induction es rule: rev_induct) (simp_all add: coalesce_snoc sum_weight_coalesce_step)

lemma sorted_wrt_less_snoc:
  fixes xs :: "('a::linorder) list"
  assumes "sorted_wrt (<) xs" "xs \<noteq> [] \<Longrightarrow> last xs < x"
  shows "sorted_wrt (<) (xs @ [x])"
proof -
  have "y < x" if "y \<in> set xs" for y
  proof -
    from that have ne: "xs \<noteq> []" by auto
    from that obtain i where i: "i < length xs" "xs ! i = y" by (auto simp: in_set_conv_nth)
    have "xs ! i \<le> xs ! (length xs - 1)"
      using assms(1) i(1)
      by (cases "i = length xs - 1") (auto simp: sorted_wrt_iff_nth_less less_imp_le)
    then have "y \<le> last xs" using ne i by (simp add: last_conv_nth)
    with assms(2) [OF ne] show ?thesis by simp
  qed
  with assms(1) show ?thesis by (simp add: sorted_wrt_append)
qed

lemma strict_sorted_coalesce:
  "sorted (map edge_key es) \<Longrightarrow> sorted_wrt (<) (map edge_key (coalesce es))"
proof (induction es rule: rev_induct)
  case Nil
  then show ?case by simp
next
  case (snoc e es)
  from snoc.prems have s: "sorted (map edge_key es)"
    and le: "\<forall>x \<in> set es. edge_key x \<le> edge_key e"
    by (auto simp: sorted_append)
  have IH: "sorted_wrt (<) (map edge_key (coalesce es))" by (rule snoc.IH [OF s])
  show ?case
  proof (cases "coalesce es \<noteq> [] \<and> edge_key (last (coalesce es)) = edge_key e")
    case True
    then show ?thesis using IH by (simp add: coalesce_snoc map_key_coalesce_step)
  next
    case False
    have "last (map edge_key (coalesce es)) < edge_key e" if "map edge_key (coalesce es) \<noteq> []"
    proof -
      from that have ne: "es \<noteq> []" by auto
      then have "edge_key (last (coalesce es)) = edge_key (last es)"
        by (rule edge_key_last_coalesce)
      moreover have "edge_key (last es) \<le> edge_key e" using le ne by simp
      moreover have "edge_key (last (coalesce es)) \<noteq> edge_key e" using False ne by simp
      ultimately show ?thesis using ne by (simp add: last_map)
    qed
    with IH have "sorted_wrt (<) (map edge_key (coalesce es) @ [edge_key e])"
      by (rule sorted_wrt_less_snoc)
    with False show ?thesis by (auto simp: coalesce_snoc map_key_coalesce_step)
  qed
qed

text \<open>The deduplicated edge list: sorted by source and target without repeated keys, the
  keys and the weight of every key as in the input.\<close>

lemma deduplicate_edge_list_sorted:
  "sorted_wrt (<) (map edge_key (deduplicate_edge_list es))"
  by (simp add: deduplicate_edge_list_eq strict_sorted_coalesce sort_edges_by_key_def)

lemma deduplicate_edge_list_keys:
  "set (map edge_key (deduplicate_edge_list es)) = set (map edge_key es)"
  unfolding deduplicate_edge_list_eq set_key_coalesce
  by (simp add: sort_edges_by_key_def)

lemma key_weight_mset: "mset xs = mset ys \<Longrightarrow> key_weight k xs = key_weight k ys"
proof -
  have "key_weight k zs = sum_mset (image_mset ge_weight (filter_mset (\<lambda>e. edge_key e = k) (mset zs)))"
    for zs
    by (induction zs) (auto simp: key_weight_def)
  then show "mset xs = mset ys \<Longrightarrow> key_weight k xs = key_weight k ys" by simp
qed

lemma deduplicate_edge_list_key_weight:
  "key_weight k (deduplicate_edge_list es) = key_weight k es"
  unfolding deduplicate_edge_list_eq key_weight_coalesce
  by (rule key_weight_mset) (simp add: sort_edges_by_key_def)

lemma deduplicate_edge_list_sum_weight:
  "sum_list (map ge_weight (deduplicate_edge_list es)) = sum_list (map ge_weight es)"
proof -
  have "sum_list (map ge_weight zs) = sum_mset (image_mset ge_weight (mset zs))" for zs
    by (induction zs) auto
  then have "sum_list (map ge_weight (sort_edges_by_key es)) = sum_list (map ge_weight es)"
    by (simp add: sort_edges_by_key_def)
  then show ?thesis by (simp add: deduplicate_edge_list_eq sum_weight_coalesce)
qed

lemma sort_node_list_mset [simp]: "mset (sort_node_list ns) = mset ns"
  by (simp add: sort_node_list_def)

lemma sort_node_list_sorted: "sorted (map gn_u (sort_node_list ns))"
  by (simp add: sort_node_list_def)

lemma sort_node_list_set [simp]: "set (sort_node_list ns) = set ns"
  by (simp add: sort_node_list_def)

lemma length_sort_node_list [simp]: "length (sort_node_list ns) = length ns"
  by (simp add: sort_node_list_def)

section \<open>Owners, send counts and the exchange\<close>

subsection \<open>Owners\<close>

lemma upper_bound_from_takeWhile:
  "upper_bound_from ds u i = i + length (takeWhile (\<lambda>d. d \<le> u) ds)"
  by (induction ds arbitrary: i) auto

lemma sorted_takeWhile_le_length:
  "sorted ds \<Longrightarrow> length (takeWhile (\<lambda>d. d \<le> u) ds) = length (filter (\<lambda>d. d \<le> (u::nat)) ds)"
proof (induction ds)
  case Nil
  then show ?case by simp
next
  case (Cons d ds)
  show ?case
  proof (cases "d \<le> u")
    case True
    with Cons show ?thesis by simp
  next
    case False
    with Cons.prems have "\<forall>x \<in> set ds. \<not> x \<le> u" by auto
    then have "filter (\<lambda>d. d \<le> u) ds = []" by (simp add: filter_empty_conv)
    with False show ?thesis by simp
  qed
qed

text \<open>The owner of \<open>u\<close> is the only \<open>q\<close> with \<open>dist ! q \<le> u < dist ! (q + 1)\<close>.\<close>

lemma owner_of_unique:
  assumes "sorted dist" "Suc q < length dist" "dist ! q \<le> u" "u < dist ! Suc q"
  shows "owner_of dist u = q"
proof -
  obtain d0 ds where dist: "dist = d0 # ds" using assms(2) by (cases dist) auto
  have sds: "sorted ds" using assms(1) dist by simp
  have q: "q < length ds" using assms(2) dist by simp
  have le: "\<forall>i < q. ds ! i \<le> u"
  proof (intro allI impI)
    fix i assume "i < q"
    then have "dist ! Suc i \<le> dist ! q"
      using assms(1,2) by (intro sorted_nth_mono) auto
    with assms(3) show "ds ! i \<le> u" by (simp add: dist)
  qed
  have gt: "\<not> ds ! q \<le> u" using assms(4) dist by simp
  have "length (takeWhile (\<lambda>d. d \<le> u) ds) = q"
  proof -
    have "ds = take q ds @ ds ! q # drop (Suc q) ds"
      using q by (simp add: id_take_nth_drop)
    moreover have "\<forall>x \<in> set (take q ds). x \<le> u"
      using le q by (auto simp: in_set_conv_nth)
    ultimately have "takeWhile (\<lambda>d. d \<le> u) ds = take q ds"
      using gt by (metis takeWhile_tail takeWhile_eq_all_conv append.right_neutral takeWhile.simps(1)
          takeWhile_append2 takeWhile.simps(2))
    then show ?thesis using q by simp
  qed
  then show ?thesis by (simp add: owner_of_def dist upper_bound_from_takeWhile)
qed

lemma owner_of_exists:
  fixes dist :: "nat list"
  assumes "sorted dist" "dist \<noteq> []" "hd dist = 0" "u < last dist"
  shows "\<exists>q. Suc q < length dist \<and> dist ! q \<le> u \<and> u < dist ! Suc q"
proof -
  let ?P = "\<lambda>i. i < length dist \<and> u < dist ! i"
  have ex: "?P (length dist - 1)" using assms(2,4) by (simp add: last_conv_nth)
  define i where "i = (LEAST i. ?P i)"
  have Pi: "?P i" unfolding i_def using ex by (rule LeastI)
  have i0: "i \<noteq> 0"
  proof
    assume "i = 0"
    with Pi have "u < dist ! 0" by simp
    with assms(2,3) show False by (simp add: hd_conv_nth)
  qed
  then obtain q where q: "i = Suc q" by (cases i) auto
  have "\<not> ?P q" using not_less_Least [of q ?P] q unfolding i_def by simp
  with Pi q have "dist ! q \<le> u" by auto
  with Pi q show ?thesis by auto
qed

lemma owner_of_props:
  assumes "sorted dist" "dist \<noteq> []" "hd dist = 0" "u < last dist"
  shows "Suc (owner_of dist u) < length dist"
    and "dist ! owner_of dist u \<le> u"
    and "u < dist ! Suc (owner_of dist u)"
proof -
  from owner_of_exists [OF assms] obtain q where
    q: "Suc q < length dist" "dist ! q \<le> u" "u < dist ! Suc q" by auto
  from owner_of_unique [OF assms(1) q] have "owner_of dist u = q" .
  with q show "Suc (owner_of dist u) < length dist" "dist ! owner_of dist u \<le> u"
    "u < dist ! Suc (owner_of dist u)" by simp_all
qed

lemma owner_of_mono:
  assumes "sorted dist" "dist \<noteq> []" "hd dist = 0" "v < last dist" "u \<le> v"
  shows "owner_of dist u \<le> owner_of dist v"
proof (rule ccontr)
  assume "\<not> owner_of dist u \<le> owner_of dist v"
  then have lt: "Suc (owner_of dist v) \<le> owner_of dist u" by simp
  have u: "u < last dist" using assms(4,5) by simp
  have "dist ! Suc (owner_of dist v) \<le> dist ! owner_of dist u"
    using assms(1) lt owner_of_props(1) [OF assms(1-3) u] by (intro sorted_nth_mono) auto
  with owner_of_props(3) [OF assms(1-4)] owner_of_props(2) [OF assms(1-3) u] assms(5)
  show False by simp
qed

lemma find_owner_of_global_node_eq:
  assumes "sorted (node_distribution g)" "node_distribution g \<noteq> []"
    "hd (node_distribution g) = 0" "u < global_n g"
  shows "find_owner_of_global_node g u = Inr (owner_of (node_distribution g) u)"
proof -
  let ?dist = "node_distribution g"
  have u: "u < last ?dist" using assms(4) by (simp add: global_n_def)
  from owner_of_props(1) [OF assms(1-3) u]
  have lt: "Suc (owner_of ?dist u) < length ?dist" .
  have "upper_bound_from (tl ?dist) u 1 = Suc (owner_of ?dist u)"
  proof -
    have "1 \<le> upper_bound_from (tl ?dist) u 1"
      by (simp add: upper_bound_from_takeWhile)
    then show ?thesis by (simp add: owner_of_def)
  qed
  with lt assms(4) show ?thesis
    by (simp add: find_owner_of_global_node_def Let_def owner_of_def)
qed

subsection \<open>Facts of a valid distribution\<close>

lemma list_all_upt: "list_all P [0..<n] \<longleftrightarrow> (\<forall>i<n. P i)"
  by (auto simp: list_all_iff)

lemma valid_distribution_facts:
  assumes "valid_distribution gs" "p < length gs"
  shows "node_distribution (gs ! p) = node_distribution (gs ! 0)"
    and "pe_rank (gs ! p) = p"
    and "offset_n (gs ! p) = node_distribution (gs ! 0) ! p"
    and "offset_n (gs ! p) + graph_n (gs ! p) = node_distribution (gs ! 0) ! Suc p"
    and "comm_size (gs ! p) = length gs"
    and "global_n (gs ! p) = last (node_distribution (gs ! 0))"
    and "sorted (node_distribution (gs ! 0))"
    and "node_distribution (gs ! 0) \<noteq> []"
    and "hd (node_distribution (gs ! 0)) = 0"
    and "length (node_distribution (gs ! 0)) = Suc (length gs)"
proof -
  let ?dist = "node_distribution (gs ! 0)"
  from assms(1) have a: "length ?dist = length gs + 1" "sorted ?dist" "hd ?dist = 0"
    unfolding valid_distribution_def by blast+
  from assms(1) have "\<forall>p < length gs. node_distribution (gs ! p) = ?dist \<and> pe_rank (gs ! p) = p \<and>
      graph_n (gs ! p) = ?dist ! (p + 1) - ?dist ! p"
    unfolding valid_distribution_def list_all_upt by blast
  with assms(2) have b: "node_distribution (gs ! p) = ?dist" "pe_rank (gs ! p) = p"
      "graph_n (gs ! p) = ?dist ! (p + 1) - ?dist ! p"
    by blast+
  show "node_distribution (gs ! p) = ?dist" "pe_rank (gs ! p) = p" by (fact b)+
  show "offset_n (gs ! p) = ?dist ! p" by (simp add: offset_n_def b)
  have "?dist ! p \<le> ?dist ! Suc p"
    using a assms(2) by (intro sorted_nth_mono) auto
  then show "offset_n (gs ! p) + graph_n (gs ! p) = ?dist ! Suc p"
    by (simp add: offset_n_def b)
  show "comm_size (gs ! p) = length gs" by (simp add: comm_size_def b a)
  show "global_n (gs ! p) = last ?dist" by (simp add: global_n_def b)
  show "sorted ?dist" "hd ?dist = 0" by (fact a)+
  show "?dist \<noteq> []" using a by auto
  show "length ?dist = Suc (length gs)" using a by simp
qed

lemma is_owned_iff_owner:
  assumes "valid_distribution gs" "p < length gs" "u < last (node_distribution (gs ! 0))"
  shows "is_owned_global_node (gs ! p) u \<longleftrightarrow> owner_of (node_distribution (gs ! 0)) u = p"
proof -
  let ?dist = "node_distribution (gs ! 0)"
  note f = valid_distribution_facts [OF assms(1,2)]
  note o = owner_of_props [OF f(7,8,9) assms(3)]
  show ?thesis
  proof
    assume "is_owned_global_node (gs ! p) u"
    then have "?dist ! p \<le> u" "u < ?dist ! Suc p"
      using f(3,4) by (auto simp: is_owned_global_node_def)
    then show "owner_of ?dist u = p"
      using f(7,10) assms(2) by (intro owner_of_unique) auto
  next
    assume "owner_of ?dist u = p"
    with o show "is_owned_global_node (gs ! p) u"
      using f(3,4) by (auto simp: is_owned_global_node_def)
  qed
qed

lemma owner_lt_size:
  assumes "valid_distribution gs" "u < last (node_distribution (gs ! 0))"
  shows "owner_of (node_distribution (gs ! 0)) u < length gs"
proof -
  from assms(1) have "0 < length gs" by (auto simp: valid_distribution_def)
  note f = valid_distribution_facts [OF assms(1) this]
  from owner_of_props(1) [OF f(7,8,9) assms(2)] f(10) show ?thesis by simp
qed

lemma find_owner_valid:
  assumes "valid_distribution gs" "p < length gs" "u < last (node_distribution (gs ! 0))"
  shows "find_owner_of_global_node (gs ! p) u = Inr (owner_of (node_distribution (gs ! 0)) u)"
proof -
  note f = valid_distribution_facts [OF assms(1,2)]
  show ?thesis
    using find_owner_of_global_node_eq [of "gs ! p" u] f assms(3) by simp
qed

subsection \<open>Histograms\<close>

lemma histogram_fold:
  assumes "\<forall>x \<in> set xs. f x < length cnt"
  shows "fold (\<lambda>x cnt. cnt[f x := cnt ! f x + 1]) xs cnt
         = map (\<lambda>pe. cnt ! pe + length (filter (\<lambda>x. f x = pe) xs)) [0..<length cnt]"
  using assms
proof (induction xs arbitrary: cnt)
  case Nil
  then show ?case by (simp add: map_nth)
next
  case (Cons x xs)
  have "fold (\<lambda>x cnt. cnt[f x := cnt ! f x + 1]) (x # xs) cnt
      = fold (\<lambda>x cnt. cnt[f x := cnt ! f x + 1]) xs (cnt[f x := cnt ! f x + 1])"
    by simp
  also have "\<dots> = map (\<lambda>pe. cnt[f x := cnt ! f x + 1] ! pe + length (filter (\<lambda>x. f x = pe) xs))
                      [0..<length cnt]"
    using Cons.IH [of "cnt[f x := cnt ! f x + 1]"] Cons.prems by simp
  also have "\<dots> = map (\<lambda>pe. cnt ! pe + length (filter (\<lambda>x. f x = pe) (x # xs))) [0..<length cnt]"
    using Cons.prems by (auto simp: nth_list_update)
  finally show ?case .
qed

lemma histogram_fold_zero:
  assumes "\<forall>x \<in> set xs. f x < P"
  shows "fold (\<lambda>x cnt. cnt[f x := cnt ! f x + 1]) xs (replicate P 0)
         = map (\<lambda>pe. length (filter (\<lambda>x. f x = pe) xs)) [0..<P]"
  using histogram_fold [of xs f "replicate P 0"] assms by simp

subsection \<open>A list sorted by destination is the concatenation of its runs\<close>

lemma sorted_filter_split:
  "sorted (map f xs) \<Longrightarrow>
   filter (\<lambda>x. f x < q) xs @ filter (\<lambda>x. \<not> f x < (q::nat)) xs = xs"
proof (induction xs)
  case Nil
  then show ?case by simp
next
  case (Cons x xs)
  show ?case
  proof (cases "f x < q")
    case True
    with Cons show ?thesis by simp
  next
    case False
    with Cons.prems have "\<forall>y \<in> set xs. \<not> f y < q" by auto
    then have "filter (\<lambda>x. f x < q) xs = []" "filter (\<lambda>x. \<not> f x < q) xs = xs"
      by (simp_all add: filter_empty_conv filter_id_conv)
    with False show ?thesis by simp
  qed
qed

lemma sorted_filter_less_Suc:
  assumes "sorted (map f xs)"
  shows "filter (\<lambda>x. f x < Suc q) xs = filter (\<lambda>x. f x < q) xs @ filter (\<lambda>x. f x = q) xs"
proof -
  let ?ys = "filter (\<lambda>x. f x < Suc q) xs"
  have s: "sorted (map f ?ys)" using assms by (simp add: sorted_filter)
  have "filter (\<lambda>x. f x < q) ?ys @ filter (\<lambda>x. \<not> f x < q) ?ys = ?ys"
    by (rule sorted_filter_split [OF s])
  moreover have "filter (\<lambda>x. f x < q) ?ys = filter (\<lambda>x. f x < q) xs"
    by (auto intro: filter_cong)
  moreover have "filter (\<lambda>x. \<not> f x < q) ?ys = filter (\<lambda>x. f x = q) xs"
    by (auto intro: filter_cong)
  ultimately show ?thesis by simp
qed

lemma sorted_concat_runs:
  assumes "sorted (map f xs)"
  shows "concat (map (\<lambda>q. filter (\<lambda>x. f x = q) xs) [0..<P]) = filter (\<lambda>x. f x < P) xs"
proof (induction P)
  case 0
  then show ?case by simp
next
  case (Suc P)
  then show ?case by (simp add: sorted_filter_less_Suc [OF assms])
qed

lemma sorted_concat_runs_all:
  assumes "sorted (map f xs)" "\<forall>x \<in> set xs. f x < P"
  shows "concat (map (\<lambda>q. filter (\<lambda>x. f x = q) xs) [0..<P]) = xs"
  using sorted_concat_runs [OF assms(1), of P] assms(2) by (simp add: filter_id_conv)

lemma take_drop_concat:
  assumes "p < length ss"
  shows "take (length (ss ! p)) (drop (sum_list (map length (take p ss))) (concat ss)) = ss ! p"
proof -
  have ss: "ss = take p ss @ ss ! p # drop (Suc p) ss"
    using assms by (simp add: id_take_nth_drop)
  have "concat ss = concat (take p ss) @ ss ! p @ concat (drop (Suc p) ss)"
    by (subst ss) simp
  moreover have "length (concat (take p ss)) = sum_list (map length (take p ss))"
    by (simp add: length_concat)
  ultimately show ?thesis by simp
qed

lemma sorted_run_segment:
  assumes "sorted (map f xs)" "\<forall>x \<in> set xs. f x < P" "q < P"
  shows "take (length (filter (\<lambda>x. f x = q) xs))
           (drop (sum_list (map (\<lambda>j. length (filter (\<lambda>x. f x = j) xs)) [0..<q])) xs)
         = filter (\<lambda>x. f x = q) xs"
proof -
  let ?ss = "map (\<lambda>q. filter (\<lambda>x. f x = q) xs) [0..<P]"
  have c: "concat ?ss = xs" by (rule sorted_concat_runs_all [OF assms(1,2)])
  have "take (length (?ss ! q)) (drop (sum_list (map length (take q ?ss))) (concat ?ss)) = ?ss ! q"
    by (rule take_drop_concat) (use assms(3) in simp)
  moreover have "map length (take q ?ss) = map (\<lambda>j. length (filter (\<lambda>x. f x = j) xs)) [0..<q]"
    using assms(3) by (simp add: take_map comp_def)
  ultimately show ?thesis using assms(3) c by simp
qed

subsection \<open>Send counts\<close>

declare advance_pe.simps [simp del]

lemma bind_err_InrI: "m = Inr x \<Longrightarrow> f x = Inr y \<Longrightarrow> bind_err m f = Inr y"
  by simp

lemma count_nodes_for_pe_eq:
  assumes "valid_distribution gs" "p < length gs"
    and "\<forall>x \<in> set xs. gn_u x < last (node_distribution (gs ! 0))"
  shows "count_nodes_for_pe (gs ! p) xs
         = Inr (map (\<lambda>pe. length (filter (\<lambda>x. owner_of (node_distribution (gs ! 0)) (gn_u x) = pe) xs))
                  [0..<length gs])"
proof -
  let ?o = "\<lambda>x. owner_of (node_distribution (gs ! 0)) (gn_u x)"
  have "count_nodes_for_pe (gs ! p) xs
      = Inr (fold (\<lambda>x cnt. cnt[?o x := cnt ! ?o x + 1]) xs (replicate (comm_size (gs ! p)) 0))"
    unfolding count_nodes_for_pe_def
    by (rule fold_err_pure) (simp add: find_owner_valid [OF assms(1,2)] assms(3))
  also have "fold (\<lambda>x cnt. cnt[?o x := cnt ! ?o x + 1]) xs (replicate (comm_size (gs ! p)) 0)
      = map (\<lambda>pe. length (filter (\<lambda>x. ?o x = pe) xs)) [0..<length gs]"
    unfolding valid_distribution_facts(5) [OF assms(1,2)]
    by (rule histogram_fold_zero) (use assms(3) owner_lt_size [OF assms(1)] in blast)
  finally show ?thesis .
qed

lemma advance_pe_eq:
  assumes "sorted (node_distribution g)" "node_distribution g \<noteq> []"
    "hd (node_distribution g) = 0" "u < last (node_distribution g)"
    "pe \<le> owner_of (node_distribution g) u"
  shows "advance_pe g u pe = Inr (owner_of (node_distribution g) u)"
  using assms(5)
proof (induction "owner_of (node_distribution g) u - pe" arbitrary: pe)
  case 0
  note o = owner_of_props [OF assms(1-4)]
  from 0 have "pe = owner_of (node_distribution g) u" by simp
  with o show ?case by (subst advance_pe.simps) simp
next
  case (Suc d)
  let ?dist = "node_distribution g"
  note o = owner_of_props [OF assms(1-4)]
  from Suc(2) have lt: "Suc pe \<le> owner_of ?dist u" by simp
  then have "?dist ! Suc pe \<le> ?dist ! owner_of ?dist u"
    using assms(1) o(1) by (intro sorted_nth_mono) auto
  with o(2) have le: "?dist ! Suc pe \<le> u" by simp
  have "advance_pe g u (Suc pe) = Inr (owner_of ?dist u)"
    by (rule Suc(1)) (use Suc(2) lt in simp_all)
  with le lt o(1) show ?case by (subst advance_pe.simps) simp
qed

lemma count_edges_fold:
  fixes cnt :: "nat list"
  assumes "sorted (node_distribution g)" "node_distribution g \<noteq> []"
    "hd (node_distribution g) = 0"
    and "\<forall>e \<in> set es. ge_u e < last (node_distribution g)"
    and "sorted (map ge_u es)"
    and "\<forall>e \<in> set es. pe0 \<le> owner_of (node_distribution g) (ge_u e)"
  shows "\<exists>pe. fold_err (\<lambda>e (current_pe, num_edges_for_pe).
            bind_err (advance_pe g (ge_u e) current_pe) (\<lambda>pe.
              Inr (pe, num_edges_for_pe[pe := num_edges_for_pe ! pe + 1])))
          es (pe0, cnt)
        = Inr (pe, fold (\<lambda>e cnt. cnt[owner_of (node_distribution g) (ge_u e)
                      := cnt ! owner_of (node_distribution g) (ge_u e) + 1]) es cnt)"
  using assms(4,5,6)
proof (induction es arbitrary: pe0 cnt)
  case Nil
  then show ?case by simp
next
  case (Cons e es)
  let ?o = "\<lambda>e. owner_of (node_distribution g) (ge_u e)"
  have adv: "advance_pe g (ge_u e) pe0 = Inr (?o e)"
    by (rule advance_pe_eq [OF assms(1-3)]) (use Cons.prems in auto)
  have mono: "\<forall>e' \<in> set es. ?o e \<le> ?o e'"
  proof
    fix e' assume e': "e' \<in> set es"
    with Cons.prems(2) have "ge_u e \<le> ge_u e'" by auto
    moreover have "ge_u e' < last (node_distribution g)" using Cons.prems(1) e' by simp
    ultimately show "?o e \<le> ?o e'" by (intro owner_of_mono [OF assms(1-3)])
  qed
  from Cons.IH [OF _ _ mono, of "cnt[?o e := cnt ! ?o e + 1]"] Cons.prems
  obtain pe where "fold_err (\<lambda>e (current_pe, num_edges_for_pe).
            bind_err (advance_pe g (ge_u e) current_pe) (\<lambda>pe.
              Inr (pe, num_edges_for_pe[pe := num_edges_for_pe ! pe + 1])))
          es (?o e, cnt[?o e := cnt ! ?o e + 1])
        = Inr (pe, fold (\<lambda>e cnt. cnt[?o e := cnt ! ?o e + 1]) es (cnt[?o e := cnt ! ?o e + 1]))"
    by auto
  then show ?case by (simp add: adv)
qed

lemma count_edges_for_pe_eq:
  assumes "valid_distribution gs" "p < length gs"
    and "\<forall>e \<in> set es. ge_u e < last (node_distribution (gs ! 0))"
    and "sorted (map ge_u es)"
  shows "count_edges_for_pe (gs ! p) es
         = Inr (map (\<lambda>pe. length (filter (\<lambda>e. owner_of (node_distribution (gs ! 0)) (ge_u e) = pe) es))
                  [0..<length gs])"
proof -
  note f = valid_distribution_facts [OF assms(1,2)]
  let ?o = "\<lambda>e. owner_of (node_distribution (gs ! p)) (ge_u e)"
  let ?init = "replicate (comm_size (gs ! p)) (0::nat)"
  let ?H = "fold (\<lambda>e cnt. cnt[?o e := cnt ! ?o e + 1]) es ?init"
  obtain pe where eq: "fold_err (\<lambda>e (current_pe, num_edges_for_pe).
            bind_err (advance_pe (gs ! p) (ge_u e) current_pe) (\<lambda>pe.
              Inr (pe, num_edges_for_pe[pe := num_edges_for_pe ! pe + 1])))
          es (0, ?init) = Inr (pe, ?H)"
    using count_edges_fold [of "gs ! p" es 0 ?init] f assms(3,4) by auto
  have "count_edges_for_pe (gs ! p) es = Inr ?H"
    unfolding count_edges_for_pe_def by (rule bind_err_InrI [OF eq]) simp
  also have "?H = map (\<lambda>pe. length (filter (\<lambda>e. ?o e = pe) es)) [0..<comm_size (gs ! p)]"
    by (rule histogram_fold_zero) (use assms(3) owner_lt_size [OF assms(1)] f in auto)
  finally show ?thesis by (simp only: f(1,5))
qed

subsection \<open>The all-to-all exchange\<close>

lemma alltoall_nth:
  "q < length sendcounts \<Longrightarrow> p < length sendcounts \<Longrightarrow> alltoall sendcounts ! q ! p = sendcounts ! p ! q"
  by (simp add: alltoall_def)

lemma length_alltoall [simp]: "length (alltoall sendcounts) = length sendcounts"
  by (simp add: alltoall_def)

lemma length_alltoall_nth [simp]:
  "q < length sendcounts \<Longrightarrow> length (alltoall sendcounts ! q) = length sendcounts"
  by (simp add: alltoall_def)

lemma length_alltoallv [simp]:
  "length (alltoallv d sendbufs sendcounts sdispls rdispls recvsizes) = length sendbufs"
  by (simp add: alltoallv_def)

lemma alltoallv_concat:
  fixes seg :: "nat \<Rightarrow> 'a list"
  assumes "q < length sendbufs"
    and "\<And>p. p < length sendbufs \<Longrightarrow>
           take (sendcounts ! p ! q) (drop (sdispls ! p ! q) (sendbufs ! p)) = seg p"
    and "\<And>p. p < length sendbufs \<Longrightarrow>
           rdispls ! q ! p = sum_list (map (\<lambda>j. length (seg j)) [0..<p])"
    and "recvsizes ! q = sum_list (map (\<lambda>j. length (seg j)) [0..<length sendbufs])"
  shows "alltoallv d sendbufs sendcounts sdispls rdispls recvsizes ! q
         = concat (map seg [0..<length sendbufs])"
proof -
  have "alltoallv d sendbufs sendcounts sdispls rdispls recvsizes ! q
      = fold (\<lambda>p buf. write_seg (rdispls ! q ! p)
                 (take (sendcounts ! p ! q) (drop (sdispls ! p ! q) (sendbufs ! p))) buf)
          [0..<length sendbufs] (replicate (recvsizes ! q) d)"
    using assms(1) by (simp add: alltoallv_def)
  also have "\<dots> = fold (\<lambda>p buf. write_seg (sum_list (map (\<lambda>j. length (seg j)) [0..<p])) (seg p) buf)
          [0..<length sendbufs] (replicate (recvsizes ! q) d)"
    by (rule fold_cong_set) (simp add: assms(2,3))
  also have "\<dots> = concat (map seg [0..<length sendbufs])"
    unfolding assms(4) by (rule scatter_concat)
  finally show ?thesis .
qed

lemma last_exclusive_scan_plus:
  "xs \<noteq> [] \<Longrightarrow> last (exclusive_scan xs 0) + last xs = sum_list xs"
proof -
  assume ne: "xs \<noteq> []"
  then have l: "length xs - 1 < length xs" by (cases xs) auto
  have "last (exclusive_scan xs 0) = exclusive_scan xs 0 ! (length xs - 1)"
    using ne by (subst last_conv_nth) (auto simp: exclusive_scan_nth dest: arg_cong [where f = length])
  also have "\<dots> = sum_list (take (length xs - 1) xs)"
    using l by (simp add: exclusive_scan_nth)
  also have "\<dots> = sum_list (butlast xs)" by (simp add: butlast_conv_take)
  finally have "last (exclusive_scan xs 0) + last xs = sum_list (butlast xs @ [last xs])"
    by simp
  then show ?thesis using ne by simp
qed

lemma dest_counts_nth:
  "p < length bufs \<Longrightarrow> j < length bufs \<Longrightarrow>
   dest_counts dest bufs ! p ! j = length (filter (\<lambda>x. dest x = j) (bufs ! p))"
  by (simp add: dest_counts_def)

lemma length_dest_counts [simp]: "length (dest_counts dest bufs) = length bufs"
  by (simp add: dest_counts_def)

lemma length_dest_counts_nth [simp]:
  "p < length bufs \<Longrightarrow> length (dest_counts dest bufs ! p) = length bufs"
  by (simp add: dest_counts_def)

lemma take_dest_counts:
  "p < length bufs \<Longrightarrow> q \<le> length bufs \<Longrightarrow>
   take q (dest_counts dest bufs ! p)
   = map (\<lambda>j. length (filter (\<lambda>x. dest x = j) (bufs ! p))) [0..<q]"
  by (simp add: dest_counts_def take_map)

lemma take_alltoall_dest_counts:
  assumes "q < length bufs" "p \<le> length bufs"
  shows "take p (alltoall (dest_counts dest bufs) ! q)
         = map (\<lambda>j. length (filter (\<lambda>x. dest x = q) (bufs ! j))) [0..<p]"
proof (rule nth_equalityI)
  show "length (take p (alltoall (dest_counts dest bufs) ! q))
      = length (map (\<lambda>j. length (filter (\<lambda>x. dest x = q) (bufs ! j))) [0..<p])"
    using assms by simp
next
  fix i assume "i < length (take p (alltoall (dest_counts dest bufs) ! q))"
  then have i: "i < p" "i < length bufs" using assms by simp_all
  then show "take p (alltoall (dest_counts dest bufs) ! q) ! i
      = map (\<lambda>j. length (filter (\<lambda>x. dest x = q) (bufs ! j))) [0..<p] ! i"
    using assms by (simp add: alltoall_nth dest_counts_nth)
qed

text \<open>The forward exchange: every process receives the records routed to it.\<close>

lemma alltoallv_routed:
  fixes bufs :: "'a list list"
  assumes q: "q < length bufs"
    and srt: "\<And>p. p < length bufs \<Longrightarrow> sorted (map dest (bufs ! p))"
    and rng: "\<And>p x. p < length bufs \<Longrightarrow> x \<in> set (bufs ! p) \<Longrightarrow> dest x < length bufs"
  defines "cnt \<equiv> dest_counts dest bufs"
  shows "alltoallv d bufs cnt (map (\<lambda>c. exclusive_scan c 0) cnt)
           (map (\<lambda>c. exclusive_scan c 0) (alltoall cnt))
           (map (\<lambda>q. last (map (\<lambda>c. exclusive_scan c 0) (alltoall cnt) ! q)
                      + last (alltoall cnt ! q)) [0..<length bufs]) ! q
         = routed dest bufs q"
  unfolding routed_def
proof (rule alltoallv_concat [OF q])
  fix p assume p: "p < length bufs"
  have "exclusive_scan (cnt ! p) 0 ! q = sum_list (take q (cnt ! p))"
    using p q by (simp add: exclusive_scan_nth cnt_def)
  also have "\<dots> = sum_list (map (\<lambda>j. length (filter (\<lambda>x. dest x = j) (bufs ! p))) [0..<q])"
    using p q by (simp add: cnt_def take_dest_counts)
  finally have sd: "map (\<lambda>c. exclusive_scan c 0) cnt ! p ! q
      = sum_list (map (\<lambda>j. length (filter (\<lambda>x. dest x = j) (bufs ! p))) [0..<q])"
    using p by (simp add: cnt_def)
  have c: "cnt ! p ! q = length (filter (\<lambda>x. dest x = q) (bufs ! p))"
    using p q by (simp add: cnt_def dest_counts_nth)
  show "take (cnt ! p ! q) (drop (map (\<lambda>c. exclusive_scan c 0) cnt ! p ! q) (bufs ! p))
      = filter (\<lambda>x. dest x = q) (bufs ! p)"
    unfolding sd c
    by (rule sorted_run_segment [OF srt [OF p] _ q]) (use rng [OF p] in blast)
  have "exclusive_scan (alltoall cnt ! q) 0 ! p = sum_list (take p (alltoall cnt ! q))"
    using p q by (simp add: exclusive_scan_nth cnt_def)
  also have "\<dots> = sum_list (map (\<lambda>j. length (filter (\<lambda>x. dest x = q) (bufs ! j))) [0..<p])"
    using p q by (simp add: cnt_def take_alltoall_dest_counts)
  finally show "map (\<lambda>c. exclusive_scan c 0) (alltoall cnt) ! q ! p
      = sum_list (map (\<lambda>j. length (filter (\<lambda>x. dest x = q) (bufs ! j))) [0..<p])"
    using q by (simp add: cnt_def)
next
  have ne: "alltoall cnt ! q \<noteq> []"
    using q by (auto simp: cnt_def dest: arg_cong [where f = length])
  have "take (length bufs) (alltoall cnt ! q)
      = map (\<lambda>j. length (filter (\<lambda>x. dest x = q) (bufs ! j))) [0..<length bufs]"
    using q unfolding cnt_def by (rule take_alltoall_dest_counts) simp
  then have R: "alltoall cnt ! q
      = map (\<lambda>j. length (filter (\<lambda>x. dest x = q) (bufs ! j))) [0..<length bufs]"
    using q by (simp add: cnt_def)
  have "last (exclusive_scan (alltoall cnt ! q) 0) + last (alltoall cnt ! q)
      = sum_list (alltoall cnt ! q)"
    by (rule last_exclusive_scan_plus [OF ne])
  also have "\<dots> = sum_list (map (\<lambda>j. length (filter (\<lambda>x. dest x = q) (bufs ! j))) [0..<length bufs])"
    by (subst R) (rule refl)
  finally show "map (\<lambda>q. last (map (\<lambda>c. exclusive_scan c 0) (alltoall cnt) ! q)
                      + last (alltoall cnt ! q)) [0..<length bufs] ! q
      = sum_list (map (\<lambda>j. length (filter (\<lambda>x. dest x = q) (bufs ! j))) [0..<length bufs])"
    using q by (simp add: cnt_def)
qed

lemma map_filter_dest:
  "map (F q) (filter (\<lambda>x. dest x = q) xs) = map (\<lambda>x. F (dest x) x) (filter (\<lambda>x. dest x = q) xs)"
  by (induction xs) auto

text \<open>The echo: sending back along the same counts and displacements returns, for every
  record that was sent, the answer of the process that received it, in the order of the
  records.\<close>

lemma alltoallv_echo:
  fixes bufs :: "'a list list" and F :: "nat \<Rightarrow> 'a \<Rightarrow> 'b"
  assumes p: "p < length bufs"
    and srt: "sorted (map dest (bufs ! p))"
    and rng: "\<And>x. x \<in> set (bufs ! p) \<Longrightarrow> dest x < length bufs"
    and len: "length answers = length bufs"
    and ans: "\<And>q. q < length bufs \<Longrightarrow> answers ! q = map (F q) (routed dest bufs q)"
  defines "cnt \<equiv> dest_counts dest bufs"
  shows "alltoallv d answers (alltoall cnt) (map (\<lambda>c. exclusive_scan c 0) (alltoall cnt))
           (map (\<lambda>c. exclusive_scan c 0) cnt) (map length bufs) ! p
         = map (\<lambda>x. F (dest x) x) (bufs ! p)"
proof -
  let ?seg = "\<lambda>q. map (F q) (filter (\<lambda>x. dest x = q) (bufs ! p))"
  have p': "p < length answers" using p len by simp
  have "alltoallv d answers (alltoall cnt) (map (\<lambda>c. exclusive_scan c 0) (alltoall cnt))
           (map (\<lambda>c. exclusive_scan c 0) cnt) (map length bufs) ! p
      = concat (map ?seg [0..<length answers])"
  proof (rule alltoallv_concat [OF p'])
    fix q assume "q < length answers"
    then have q: "q < length bufs" using len by simp
    let ?ss = "map (\<lambda>j. filter (\<lambda>x. dest x = q) (bufs ! j)) [0..<length bufs]"
    have c: "alltoall cnt ! q ! p = length (?ss ! p)"
      using p q by (simp add: cnt_def alltoall_nth dest_counts_nth)
    have "exclusive_scan (alltoall cnt ! q) 0 ! p = sum_list (take p (alltoall cnt ! q))"
      using p q by (simp add: exclusive_scan_nth cnt_def)
    also have "\<dots> = sum_list (map (\<lambda>j. length (filter (\<lambda>x. dest x = q) (bufs ! j))) [0..<p])"
      using p q by (simp add: cnt_def take_alltoall_dest_counts)
    also have "\<dots> = sum_list (map length (take p ?ss))"
      using p by (simp add: take_map comp_def)
    finally have sd: "map (\<lambda>c. exclusive_scan c 0) (alltoall cnt) ! q ! p
        = sum_list (map length (take p ?ss))"
      using q by (simp add: cnt_def)
    have "take (length (?ss ! p)) (drop (sum_list (map length (take p ?ss))) (concat ?ss)) = ?ss ! p"
      by (rule take_drop_concat) (use p in simp)
    then have "take (length (?ss ! p)) (drop (sum_list (map length (take p ?ss)))
          (map (F q) (concat ?ss))) = map (F q) (?ss ! p)"
      by (simp add: take_map drop_map)
    then show "take (alltoall cnt ! q ! p)
          (drop (map (\<lambda>c. exclusive_scan c 0) (alltoall cnt) ! q ! p) (answers ! q)) = ?seg q"
      unfolding sd c ans [OF q] routed_def using p by simp
  next
    fix q assume "q < length answers"
    then have q: "q < length bufs" using len by simp
    have "exclusive_scan (cnt ! p) 0 ! q = sum_list (take q (cnt ! p))"
      using p q by (simp add: exclusive_scan_nth cnt_def)
    also have "\<dots> = sum_list (map (\<lambda>j. length (?seg j)) [0..<q])"
      using p q by (simp add: cnt_def take_dest_counts)
    finally show "map (\<lambda>c. exclusive_scan c 0) cnt ! p ! q
        = sum_list (map (\<lambda>j. length (?seg j)) [0..<q])"
      using p by (simp add: cnt_def)
  next
    have "concat (map (\<lambda>q. filter (\<lambda>x. dest x = q) (bufs ! p)) [0..<length bufs]) = bufs ! p"
      by (rule sorted_concat_runs_all [OF srt]) (use rng in blast)
    then have "length (bufs ! p)
        = length (concat (map (\<lambda>q. filter (\<lambda>x. dest x = q) (bufs ! p)) [0..<length bufs]))"
      by simp
    also have "\<dots> = sum_list (map (\<lambda>j. length (?seg j)) [0..<length answers])"
      by (simp add: length_concat comp_def len)
    finally show "map length bufs ! p = sum_list (map (\<lambda>j. length (?seg j)) [0..<length answers])"
      using p by simp
  qed
  also have "concat (map ?seg [0..<length answers])
      = map (\<lambda>x. F (dest x) x)
          (concat (map (\<lambda>q. filter (\<lambda>x. dest x = q) (bufs ! p)) [0..<length bufs]))"
    by (simp add: map_concat comp_def len map_filter_dest [of F])
  also have "concat (map (\<lambda>q. filter (\<lambda>x. dest x = q) (bufs ! p)) [0..<length bufs]) = bufs ! p"
    by (rule sorted_concat_runs_all [OF srt]) (use rng in blast)
  finally show ?thesis .
qed

lemma sorted_map_owner:
  fixes dist :: "nat list"
  assumes "sorted dist" "dist \<noteq> []" "hd dist = 0"
    and "sorted (map key xs)" "\<forall>x \<in> set xs. key x < last dist"
  shows "sorted (map (\<lambda>x. owner_of dist (key x)) xs)"
  using assms(4,5)
proof (induction xs)
  case Nil
  then show ?case by simp
next
  case (Cons x xs)
  have "owner_of dist (key x) \<le> owner_of dist (key y)" if "y \<in> set xs" for y
    using that Cons.prems by (intro owner_of_mono [OF assms(1-3)]) auto
  with Cons show ?case by auto
qed

lemma exchange_nonlocal_nodes_and_edges_eq:
  assumes vd: "valid_distribution gs"
    and len: "length NN = length gs" "length NE = length gs"
    and nsorted: "\<And>p. p < length gs \<Longrightarrow> sorted (map gn_u (NN ! p))"
    and nrange: "\<And>p x. p < length gs \<Longrightarrow> x \<in> set (NN ! p)
                   \<Longrightarrow> gn_u x < last (node_distribution (gs ! 0))"
    and esorted: "\<And>p. p < length gs \<Longrightarrow> sorted (map ge_u (NE ! p))"
    and erange: "\<And>p e. p < length gs \<Longrightarrow> e \<in> set (NE ! p)
                   \<Longrightarrow> ge_u e < last (node_distribution (gs ! 0))"
  defines "dn \<equiv> \<lambda>x. owner_of (node_distribution (gs ! 0)) (gn_u x)"
  defines "de \<equiv> \<lambda>e. owner_of (node_distribution (gs ! 0)) (ge_u e)"
  shows "exchange_nonlocal_nodes_and_edges gs NN NE
         = Inr (map (\<lambda>q. \<lparr>mr_local_nodes = routed dn NN q, mr_local_edges = routed de NE q,
                          mr_node_sendcounts = dest_counts dn NN ! q,
                          mr_node_sdispls = exclusive_scan (dest_counts dn NN ! q) 0,
                          mr_node_recvcounts = alltoall (dest_counts dn NN) ! q,
                          mr_node_rdispls = exclusive_scan (alltoall (dest_counts dn NN) ! q) 0\<rparr>)
                  [0..<length gs])"
proof -
  let ?dist = "node_distribution (gs ! 0)"
  let ?P = "length gs"
  have P0: "0 < ?P" using vd by (auto simp: valid_distribution_def)
  note f0 = valid_distribution_facts [OF vd P0]
  have ecnt: "map_err (\<lambda>p. count_edges_for_pe (gs ! p) (NE ! p)) [0..<?P]
      = Inr (dest_counts de NE)"
  proof -
    have "map_err (\<lambda>p. count_edges_for_pe (gs ! p) (NE ! p)) [0..<?P]
        = Inr (map (\<lambda>p. map (\<lambda>pe. length (filter (\<lambda>e. de e = pe) (NE ! p))) [0..<?P]) [0..<?P])"
      by (rule map_err_pure) (simp add: count_edges_for_pe_eq [OF vd] erange esorted de_def)
    then show ?thesis by (simp add: dest_counts_def len)
  qed
  have ncnt: "map_err (\<lambda>p. count_nodes_for_pe (gs ! p) (NN ! p)) [0..<?P]
      = Inr (dest_counts dn NN)"
  proof -
    have "map_err (\<lambda>p. count_nodes_for_pe (gs ! p) (NN ! p)) [0..<?P]
        = Inr (map (\<lambda>p. map (\<lambda>pe. length (filter (\<lambda>x. dn x = pe) (NN ! p))) [0..<?P]) [0..<?P])"
      by (rule map_err_pure) (simp add: count_nodes_for_pe_eq [OF vd] nrange dn_def)
    then show ?thesis by (simp add: dest_counts_def len)
  qed
  have nodes: "alltoallv (GlobalNode 0 0) NN (dest_counts dn NN)
        (map (\<lambda>c. exclusive_scan c 0) (dest_counts dn NN))
        (map (\<lambda>c. exclusive_scan c 0) (alltoall (dest_counts dn NN)))
        (map (\<lambda>q. last (map (\<lambda>c. exclusive_scan c 0) (alltoall (dest_counts dn NN)) ! q)
                   + last (alltoall (dest_counts dn NN) ! q)) [0..<?P]) ! q
      = routed dn NN q" if "q < ?P" for q
  proof -
    have "alltoallv (GlobalNode 0 0) NN (dest_counts dn NN)
        (map (\<lambda>c. exclusive_scan c 0) (dest_counts dn NN))
        (map (\<lambda>c. exclusive_scan c 0) (alltoall (dest_counts dn NN)))
        (map (\<lambda>q. last (map (\<lambda>c. exclusive_scan c 0) (alltoall (dest_counts dn NN)) ! q)
                   + last (alltoall (dest_counts dn NN) ! q)) [0..<length NN]) ! q
      = routed dn NN q"
    proof (rule alltoallv_routed)
      show "q < length NN" using that len by simp
    next
      fix p assume "p < length NN"
      then have p: "p < ?P" using len by simp
      show "sorted (map dn (NN ! p))"
        unfolding dn_def
        by (rule sorted_map_owner [OF f0(7,8,9) nsorted [OF p]]) (use nrange [OF p] in blast)
    next
      fix p x assume "p < length NN" "x \<in> set (NN ! p)"
      then show "dn x < length NN"
        unfolding dn_def using owner_lt_size [OF vd] nrange len by simp
    qed
    then show ?thesis by (simp add: len)
  qed
  have edges: "alltoallv (GlobalEdge 0 0 0) NE (dest_counts de NE)
        (map (\<lambda>c. exclusive_scan c 0) (dest_counts de NE))
        (map (\<lambda>c. exclusive_scan c 0) (alltoall (dest_counts de NE)))
        (map (\<lambda>q. last (map (\<lambda>c. exclusive_scan c 0) (alltoall (dest_counts de NE)) ! q)
                   + last (alltoall (dest_counts de NE) ! q)) [0..<?P]) ! q
      = routed de NE q" if "q < ?P" for q
  proof -
    have "alltoallv (GlobalEdge 0 0 0) NE (dest_counts de NE)
        (map (\<lambda>c. exclusive_scan c 0) (dest_counts de NE))
        (map (\<lambda>c. exclusive_scan c 0) (alltoall (dest_counts de NE)))
        (map (\<lambda>q. last (map (\<lambda>c. exclusive_scan c 0) (alltoall (dest_counts de NE)) ! q)
                   + last (alltoall (dest_counts de NE) ! q)) [0..<length NE]) ! q
      = routed de NE q"
    proof (rule alltoallv_routed)
      show "q < length NE" using that len by simp
    next
      fix p assume "p < length NE"
      then have p: "p < ?P" using len by simp
      show "sorted (map de (NE ! p))"
        unfolding de_def
        by (rule sorted_map_owner [OF f0(7,8,9) esorted [OF p]]) (use erange [OF p] in blast)
    next
      fix p x assume "p < length NE" "x \<in> set (NE ! p)"
      then show "de x < length NE"
        unfolding de_def using owner_lt_size [OF vd] erange len by simp
    qed
    then show ?thesis by (simp add: len)
  qed
  show ?thesis
    unfolding exchange_nonlocal_nodes_and_edges_def ecnt ncnt bind_err_Inr Let_def
    by (simp add: nodes edges len)
qed

section \<open>Valid inputs and the records that are exchanged\<close>

subsection \<open>Unpacking valid inputs\<close>

lemma valid_input_dist: "valid_input gs cs \<Longrightarrow> valid_distribution gs"
  unfolding valid_input_def by blast

lemma valid_input_size: "valid_input gs cs \<Longrightarrow> 0 < length gs"
  unfolding valid_input_def valid_distribution_def by blast

lemma valid_clustering_facts:
  assumes "valid_input gs cs" "p < length gs"
  shows "length cs = length gs"
    and "length (cs ! p) = total_n (gs ! p)"
    and "\<And>v. v < total_n (gs ! p) \<Longrightarrow> cs ! p ! v < last (node_distribution (gs ! 0))"
proof -
  from assms(1) have vc: "valid_clustering gs cs" and vd: "valid_distribution gs"
    unfolding valid_input_def by blast+
  from vc show "length cs = length gs" unfolding valid_clustering_def by blast
  from vc have "\<forall>p < length gs. length (cs ! p) = total_n (gs ! p) \<and>
      list_all (\<lambda>c. c < global_n (gs ! p)) (cs ! p)"
    unfolding valid_clustering_def list_all_upt by blast
  with assms(2) have l: "length (cs ! p) = total_n (gs ! p)"
    and a: "list_all (\<lambda>c. c < global_n (gs ! p)) (cs ! p)" by blast+
  show "length (cs ! p) = total_n (gs ! p)" by (fact l)
  fix v assume "v < total_n (gs ! p)"
  with l a have "cs ! p ! v < global_n (gs ! p)" by (simp add: list_all_length)
  then show "cs ! p ! v < last (node_distribution (gs ! 0))"
    by (simp only: valid_distribution_facts(6) [OF vd assms(2)])
qed

lemma valid_csr_facts:
  assumes "valid_input gs cs" "p < length gs"
  shows "nodes (gs ! p) \<noteq> []" and "hd (nodes (gs ! p)) = 0" and "sorted (nodes (gs ! p))"
    and "last (nodes (gs ! p)) = length (edges (gs ! p))"
    and "\<And>e. e < length (edges (gs ! p)) \<Longrightarrow> edges (gs ! p) ! e < total_n (gs ! p)"
    and "node_weights (gs ! p) = [] \<or> length (node_weights (gs ! p)) = total_n (gs ! p)"
    and "edge_weights (gs ! p) = [] \<or> length (edge_weights (gs ! p)) = length (edges (gs ! p))"
    and "length (ghost_owner (gs ! p)) = length (ghost_to_global (gs ! p))"
    and "graph_n (gs ! p) < 2 ^ 32"
    and "length (nodes (gs ! p)) = Suc (graph_n (gs ! p))"
proof -
  from assms have v: "valid_csr (gs ! p)"
    unfolding valid_input_def list_all_length by blast
  from v show "nodes (gs ! p) \<noteq> []" "hd (nodes (gs ! p)) = 0" "sorted (nodes (gs ! p))"
    "last (nodes (gs ! p)) = length (edges (gs ! p))"
    "node_weights (gs ! p) = [] \<or> length (node_weights (gs ! p)) = total_n (gs ! p)"
    "edge_weights (gs ! p) = [] \<or> length (edge_weights (gs ! p)) = length (edges (gs ! p))"
    "length (ghost_owner (gs ! p)) = length (ghost_to_global (gs ! p))"
    "graph_n (gs ! p) < 2 ^ 32"
    unfolding valid_csr_def by blast+
  from v have a: "list_all (\<lambda>v. v < total_n (gs ! p)) (edges (gs ! p))"
    unfolding valid_csr_def by blast
  show "edges (gs ! p) ! e < total_n (gs ! p)" if "e < length (edges (gs ! p))" for e
    using a that by (simp add: list_all_length)
  from \<open>nodes (gs ! p) \<noteq> []\<close> show "length (nodes (gs ! p)) = Suc (graph_n (gs ! p))"
    by (cases "nodes (gs ! p)") (simp_all add: graph_n_def)
qed

lemma neighbors_facts:
  assumes "valid_input gs cs" "p < length gs" "u < graph_n (gs ! p)"
    and "(e, v) \<in> set (neighbors (gs ! p) u)"
  shows "e < length (edges (gs ! p))" and "v = edges (gs ! p) ! e" and "v < total_n (gs ! p)"
    and "nodes (gs ! p) ! u \<le> e" and "e < nodes (gs ! p) ! Suc u"
proof -
  note c = valid_csr_facts [OF assms(1,2)]
  from assms(4) have e: "nodes (gs ! p) ! u \<le> e" "e < nodes (gs ! p) ! Suc u"
    and v: "v = edges (gs ! p) ! e"
    by (auto simp: neighbors_def)
  have "nodes (gs ! p) ! Suc u \<le> nodes (gs ! p) ! (length (nodes (gs ! p)) - 1)"
    using c(3,10) assms(3) by (intro sorted_nth_mono) auto
  also have "\<dots> = length (edges (gs ! p))"
    using c(1,4) by (simp add: last_conv_nth)
  finally show el: "e < length (edges (gs ! p))" using e by simp
  show "v = edges (gs ! p) ! e" by (fact v)
  show "v < total_n (gs ! p)" using c(5) [OF el] v by simp
  show "nodes (gs ! p) ! u \<le> e" "e < nodes (gs ! p) ! Suc u" by (fact e)+
qed

subsection \<open>The records that are sent and received\<close>

lemma set_nonlocal_node_records:
  "set (nonlocal_node_records g C)
   = {GlobalNode (C ! u) (node_weight g u) | u. u < graph_n g \<and> \<not> is_owned_global_node g (C ! u)}"
  by (auto simp: nonlocal_node_records_def)

lemma set_nonlocal_edge_records:
  "set (nonlocal_edge_records g C)
   = {GlobalEdge (C ! u) (C ! v) (edge_weight g e) | u e v.
        u < graph_n g \<and> \<not> is_owned_global_node g (C ! u) \<and> (e, v) \<in> set (neighbors g u)}"
  by (auto simp: nonlocal_edge_records_def) force

lemma length_sent [simp]:
  "length (sent_nodes gs cs) = length gs" "length (sent_edges gs cs) = length gs"
  by (simp_all add: sent_nodes_def sent_edges_def)

lemma sent_nodes_nth:
  "p < length gs \<Longrightarrow> sent_nodes gs cs ! p = sort_node_list (nonlocal_node_records (gs ! p) (cs ! p))"
  by (simp add: sent_nodes_def)

lemma sent_edges_nth:
  "p < length gs \<Longrightarrow>
   sent_edges gs cs ! p = deduplicate_edge_list (nonlocal_edge_records (gs ! p) (cs ! p))"
  by (simp add: sent_edges_def)

lemma sent_nodes_facts:
  assumes "valid_input gs cs" "p < length gs" "x \<in> set (sent_nodes gs cs ! p)"
  shows "\<exists>u < graph_n (gs ! p). \<not> is_owned_global_node (gs ! p) (cs ! p ! u) \<and>
           x = GlobalNode (cs ! p ! u) (node_weight (gs ! p) u)"
    and "gn_u x < last (node_distribution (gs ! 0))"
proof -
  from assms(3) obtain u where u: "u < graph_n (gs ! p)"
      "\<not> is_owned_global_node (gs ! p) (cs ! p ! u)"
      "x = GlobalNode (cs ! p ! u) (node_weight (gs ! p) u)"
    by (auto simp: sent_nodes_nth [OF assms(2)] set_nonlocal_node_records)
  then show "\<exists>u < graph_n (gs ! p). \<not> is_owned_global_node (gs ! p) (cs ! p ! u) \<and>
           x = GlobalNode (cs ! p ! u) (node_weight (gs ! p) u)" by blast
  have "u < total_n (gs ! p)" using u(1) by (simp add: total_n_def)
  from valid_clustering_facts(3) [OF assms(1,2) this] u(3)
  show "gn_u x < last (node_distribution (gs ! 0))" by simp
qed

lemma sent_nodes_sorted:
  "p < length gs \<Longrightarrow> sorted (map gn_u (sent_nodes gs cs ! p))"
  by (simp add: sent_nodes_nth sort_node_list_sorted)

lemma sent_edges_facts:
  assumes "valid_input gs cs" "p < length gs" "x \<in> set (sent_edges gs cs ! p)"
  shows "\<exists>u e v. u < graph_n (gs ! p) \<and> \<not> is_owned_global_node (gs ! p) (cs ! p ! u) \<and>
           (e, v) \<in> set (neighbors (gs ! p) u) \<and> ge_u x = cs ! p ! u \<and> ge_v x = cs ! p ! v"
    and "ge_u x < last (node_distribution (gs ! 0))"
    and "ge_v x < last (node_distribution (gs ! 0))"
proof -
  from assms(3) have "edge_key x \<in> set (map edge_key (sent_edges gs cs ! p))" by simp
  then have "edge_key x \<in> set (map edge_key (nonlocal_edge_records (gs ! p) (cs ! p)))"
    by (simp only: sent_edges_nth [OF assms(2)] deduplicate_edge_list_keys)
  then obtain y where y: "y \<in> set (nonlocal_edge_records (gs ! p) (cs ! p))"
      "edge_key y = edge_key x" by auto
  from y(1) obtain u e v where u: "u < graph_n (gs ! p)"
      "\<not> is_owned_global_node (gs ! p) (cs ! p ! u)" "(e, v) \<in> set (neighbors (gs ! p) u)"
      "y = GlobalEdge (cs ! p ! u) (cs ! p ! v) (edge_weight (gs ! p) e)"
    unfolding set_nonlocal_edge_records by blast
  from y(2) u(4) have k: "ge_u x = cs ! p ! u" "ge_v x = cs ! p ! v"
    by (simp_all add: edge_key_def)
  with u show "\<exists>u e v. u < graph_n (gs ! p) \<and> \<not> is_owned_global_node (gs ! p) (cs ! p ! u) \<and>
           (e, v) \<in> set (neighbors (gs ! p) u) \<and> ge_u x = cs ! p ! u \<and> ge_v x = cs ! p ! v"
    by blast
  have "u < total_n (gs ! p)" using u(1) by (simp add: total_n_def)
  from valid_clustering_facts(3) [OF assms(1,2) this] k
  show "ge_u x < last (node_distribution (gs ! 0))" by simp
  from valid_clustering_facts(3) [OF assms(1,2) neighbors_facts(3) [OF assms(1,2) u(1,3)]] k
  show "ge_v x < last (node_distribution (gs ! 0))" by simp
qed

lemma sorted_fst_of_strict_keys:
  "sorted_wrt (<) (map edge_key es) \<Longrightarrow> sorted (map ge_u es)"
proof (induction es)
  case Nil
  then show ?case by simp
next
  case (Cons e es)
  then have "\<forall>y \<in> set es. edge_key e < edge_key y" by auto
  then have "\<forall>y \<in> set es. ge_u e \<le> ge_u y"
    by (auto simp: edge_key_def less_prod_def)
  with Cons show ?case by simp
qed

lemma sent_edges_sorted:
  "p < length gs \<Longrightarrow> sorted (map ge_u (sent_edges gs cs ! p))"
  by (simp add: sent_edges_nth sorted_fst_of_strict_keys deduplicate_edge_list_sorted)

lemma set_routed:
  "set (routed dest bufs q) = {x. \<exists>p < length bufs. x \<in> set (bufs ! p) \<and> dest x = q}"
  by (auto simp: routed_def)

lemma received_nodes_facts:
  assumes "valid_input gs cs" "q < length gs" "x \<in> set (received_nodes gs cs q)"
  shows "gn_u x < last (node_distribution (gs ! 0))"
    and "is_owned_global_node (gs ! q) (gn_u x)"
    and "\<exists>p < length gs. x \<in> set (sent_nodes gs cs ! p)"
proof -
  from assms(3) obtain p where p: "p < length gs" "x \<in> set (sent_nodes gs cs ! p)"
      "node_dest gs x = q"
    by (auto simp: received_nodes_def set_routed)
  from sent_nodes_facts(2) [OF assms(1) p(1,2)]
  show r: "gn_u x < last (node_distribution (gs ! 0))" .
  from p(3) show "is_owned_global_node (gs ! q) (gn_u x)"
    unfolding is_owned_iff_owner [OF valid_input_dist [OF assms(1)] assms(2) r]
    by (simp add: node_dest_def)
  from p show "\<exists>p < length gs. x \<in> set (sent_nodes gs cs ! p)" by blast
qed

lemma received_edges_facts:
  assumes "valid_input gs cs" "q < length gs" "x \<in> set (received_edges gs cs q)"
  shows "ge_u x < last (node_distribution (gs ! 0))"
    and "is_owned_global_node (gs ! q) (ge_u x)"
    and "ge_v x < last (node_distribution (gs ! 0))"
    and "\<exists>p < length gs. x \<in> set (sent_edges gs cs ! p)"
proof -
  from assms(3) obtain p where p: "p < length gs" "x \<in> set (sent_edges gs cs ! p)"
      "edge_dest gs x = q"
    by (auto simp: received_edges_def set_routed)
  from sent_edges_facts(2) [OF assms(1) p(1,2)]
  show r: "ge_u x < last (node_distribution (gs ! 0))" .
  from p(3) show "is_owned_global_node (gs ! q) (ge_u x)"
    unfolding is_owned_iff_owner [OF valid_input_dist [OF assms(1)] assms(2) r]
    by (simp add: edge_dest_def)
  from sent_edges_facts(3) [OF assms(1) p(1,2)]
  show "ge_v x < last (node_distribution (gs ! 0))" .
  from p show "\<exists>p < length gs. x \<in> set (sent_edges gs cs ! p)" by blast
qed

section \<open>Local coarse numbering: auxiliary facts\<close>

lemma length_mark_home [simp]:
  "length (mark_home_clusters g clustering cm) = length cm"
proof -
  have "length (fold (\<lambda>u cm. let c_u = clustering ! u in
                    if is_owned_global_node g c_u then cm[c_u - offset_n g := 1] else cm) us cm) = length cm" for us
    by (induction us arbitrary: cm) (auto simp: Let_def)
  then show ?thesis by (simp add: mark_home_clusters_def)
qed

lemma mark_home_nth_gen:
  "i < length cm \<Longrightarrow>
   fold (\<lambda>u cm. let c_u = clustering ! u in
                    if is_owned_global_node g c_u then cm[c_u - offset_n g := 1] else cm) us cm ! i
   = (if \<exists>u \<in> set us. is_owned_global_node g (clustering ! u) \<and> clustering ! u - offset_n g = i
      then 1 else cm ! i)"
proof (induction us arbitrary: cm)
  case Nil then show ?case by simp
next
  case (Cons u us)
  then show ?case by (auto simp: Let_def nth_list_update)
qed

lemma mark_local_nodes_Inr:
  "\<forall>x \<in> set xs. is_owned_global_node g (gn_u x) \<Longrightarrow>
   \<exists>cm'. mark_local_nodes g xs cm = Inr cm' \<and> length cm' = length cm \<and>
     (\<forall>i < length cm. cm' ! i = (if \<exists>x \<in> set xs. gn_u x - offset_n g = i then 1 else cm ! i))"
proof (induction xs arbitrary: cm)
  case Nil then show ?case by simp
next
  case (Cons x xs)
  from Cons.prems have "\<forall>x \<in> set xs. is_owned_global_node g (gn_u x)" by simp
  from Cons.IH [OF this, of "cm[gn_u x - offset_n g := 1]"]
  obtain cm' where cm': "mark_local_nodes g xs (cm[gn_u x - offset_n g := 1]) = Inr cm'"
     "length cm' = length cm"
     "\<forall>i < length cm. cm' ! i = (if \<exists>x \<in> set xs. gn_u x - offset_n g = i then 1 else cm[gn_u x - offset_n g := 1] ! i)"
    by auto
  show ?case using Cons.prems cm' by (auto simp: nth_list_update)
qed

lemma marks_eq:
  assumes "\<forall>x \<in> set local_nodes. is_owned_global_node g (gn_u x)"
  shows "\<exists>cm. mark_local_nodes g local_nodes
             (mark_home_clusters g clustering (replicate (graph_n g) 0)) = Inr cm \<and>
     cm = map (\<lambda>i. if nonempty_local_cluster g clustering local_nodes i then 1 else (0::'a::len word)) [0..<graph_n g]"
proof -
  let ?h = "mark_home_clusters g clustering (replicate (graph_n g) (0::'a word))"
  from mark_local_nodes_Inr [OF assms, of ?h]
  obtain cm where cm: "mark_local_nodes g local_nodes ?h = Inr cm" "length cm = graph_n g"
    "\<forall>i < graph_n g. cm ! i = (if \<exists>x \<in> set local_nodes. gn_u x - offset_n g = i then 1 else ?h ! i)"
    by auto
  have h: "?h ! i = (if \<exists>u < graph_n g. is_owned_global_node g (clustering ! u) \<and> clustering ! u - offset_n g = i then 1 else 0)"
    if "i < graph_n g" for i
    using that mark_home_nth_gen [of i "replicate (graph_n g) (0::'a word)" clustering g "[0..<graph_n g]"]
    by (auto simp: mark_home_clusters_def)
  have "cm ! i = (if nonempty_local_cluster g clustering local_nodes i then 1 else 0)"
    if "i < graph_n g" for i
  proof -
    have a: "(\<exists>x \<in> set local_nodes. gn_u x - offset_n g = i) \<longleftrightarrow> (\<exists>x \<in> set local_nodes. gn_u x = offset_n g + i)"
    proof -
      have "gn_u x - offset_n g = i \<longleftrightarrow> gn_u x = offset_n g + i" if "x \<in> set local_nodes" for x
        using assms that by (auto simp: is_owned_global_node_def)
      then show ?thesis by blast
    qed
    have b: "(\<exists>u < graph_n g. is_owned_global_node g (clustering ! u) \<and> clustering ! u - offset_n g = i)
       \<longleftrightarrow> (\<exists>u < graph_n g. clustering ! u = offset_n g + i)"
    proof -
      have "is_owned_global_node g (clustering ! u) \<and> clustering ! u - offset_n g = i
         \<longleftrightarrow> clustering ! u = offset_n g + i" for u
        using that by (auto simp: is_owned_global_node_def)
      then show ?thesis by simp
    qed
    show ?thesis using cm(3) that h[OF that] a b
      by (auto simp: nonempty_local_cluster_def)
  qed
  then have "cm = map (\<lambda>i. if nonempty_local_cluster g clustering local_nodes i then 1 else 0) [0..<graph_n g]"
    using cm(2) by (intro nth_equalityI) auto
  with cm(1) show ?thesis by simp
qed

lemma sum_list_take_marks:
  "k \<le> n \<Longrightarrow> sum_list (take k (map (\<lambda>i. if P i then 1 else (0::'a::len word)) [0..<n]))
     = of_nat (card {j. j < k \<and> P j})"
proof (induction k)
  case 0 then show ?case by simp
next
  case (Suc k)
  have s: "{j. j < Suc k \<and> P j} = (if P k then insert k {j. j < k \<and> P j} else {j. j < k \<and> P j})"
    by (auto simp: less_Suc_eq)
  from Suc show ?case
    by (simp add: take_Suc_conv_app_nth s)
qed


lemma card_less_le: "card {j. j < k \<and> P j} \<le> k"
proof -
  have "card {j. j < k \<and> P j} \<le> card {..<k}"
    by (rule card_mono) auto
  then show ?thesis by simp
qed

lemma card_Suc_marked: "P i \<Longrightarrow> card {j. j < Suc i \<and> P j} = Suc (card {j. j < i \<and> P j})"
proof -
  assume "P i"
  then have "{j. j < Suc i \<and> P j} = insert i {j. j < i \<and> P j}"
    by (auto simp: less_Suc_eq)
  then show ?thesis by simp
qed

lemma card_marked_strict: "P i \<Longrightarrow> i < n \<Longrightarrow> card {j. j < i \<and> P j} < card {j::nat. j < n \<and> P j}"
proof -
  assume a: "P i" "i < n"
  have "card {j. j < Suc i \<and> P j} \<le> card {j. j < n \<and> P j}"
    by (rule card_mono) (use a in auto)
  with card_Suc_marked [where P = P and i = i] a(1) show ?thesis by simp
qed

lemma numbering_facts:
  fixes g :: graph and clustering :: "nat list" and local_nodes :: "GlobalNode list"
  defines "P \<equiv> nonempty_local_cluster g clustering local_nodes"
  defines "m \<equiv> (map (\<lambda>x. x - 1)
      (prefix_sum (map (\<lambda>i. if P i then 1 else 0) [0..<graph_n g])) :: 'a::len word list)"
  assumes n_fits: "graph_n g < 2 ^ LENGTH('a)"
    and owned: "list_all (\<lambda>x. is_owned_global_node g (gn_u x)) local_nodes"
  shows "build_lnode_to_lcnode_mapping g clustering local_nodes = Inr m"
    and "length m = graph_n g"
    and "unat (coarse_n m) = card {i. P i}"
    and "\<And>i. P i \<Longrightarrow> unat (m ! i) = card {j. j < i \<and> P j}"
    and "\<And>i. P i \<Longrightarrow> unat (m ! i) < unat (coarse_n m)"
    and "0 < graph_n g \<Longrightarrow> card {i. P i} = 0 \<Longrightarrow> last m = - 1 \<and> coarse_n m = 0"
proof -
  let ?n = "graph_n g"
  let ?marks = "map (\<lambda>i. if P i then 1 else (0::'a word)) [0..<?n]"
  let ?m = "map (\<lambda>x. x - 1) (prefix_sum ?marks)"
  from owned have "\<forall>x \<in> set local_nodes. is_owned_global_node g (gn_u x)"
    by (simp add: list_all_iff)
  from marks_eq [OF this, of clustering, where 'a = 'a]
  have build: "build_lnode_to_lcnode_mapping g clustering local_nodes = Inr ?m"
    by (auto simp: build_lnode_to_lcnode_mapping_def P_def)
  have len: "length ?m = ?n" by (simp add: prefix_sum_def)
  have nth: "?m ! i = of_nat (card {j. j < Suc i \<and> P j}) - 1" if "i < ?n" for i
    using that sum_list_take_marks [where k = "Suc i" and n = ?n and P = P and 'a = 'a]
    by (simp add: prefix_sum_def prefix_sum_from_nth)
  have Pn: "{i. P i} = {j. j < ?n \<and> P j}"
    by (auto simp: P_def nonempty_local_cluster_def)
  have unat_card: "unat (of_nat (card {j. j < k \<and> P j}) :: 'a word) = card {j. j < k \<and> P j}"
    if "k \<le> ?n" for k
  proof -
    have "card {j. j < k \<and> P j} < 2 ^ LENGTH('a)"
      using card_less_le [of k P] that n_fits by linarith
    then show ?thesis by (simp add: of_nat_inverse)
  qed
  have cn: "coarse_n ?m = of_nat (card {i. P i})"
  proof (cases "?n = 0")
    case True
    then show ?thesis by (simp add: coarse_n_def prefix_sum_def Pn)
  next
    case False
    then have ne: "?m \<noteq> []" by auto
    have "last ?m = ?m ! (?n - 1)" using ne len by (simp add: last_conv_nth del: map_map)
    also have "\<dots> = of_nat (card {j. j < ?n \<and> P j}) - 1" using nth [of "?n - 1"] False by simp
    finally show ?thesis using ne by (simp add: coarse_n_def Pn del: map_map)
  qed
  have c1: "unat (coarse_n ?m) = card {i. P i}"
    using cn unat_card [of ?n] Pn by simp
  have c2: "unat (?m ! i) = card {j. j < i \<and> P j} \<and> unat (?m ! i) < unat (coarse_n ?m)" if "P i" for i
  proof -
    from that have i: "i < ?n" by (simp add: P_def nonempty_local_cluster_def)
    have "?m ! i = of_nat (card {j. j < i \<and> P j})"
      using nth [OF i] card_Suc_marked [where P = P and i = i] that by simp
    then have "unat (?m ! i) = card {j. j < i \<and> P j}"
      using unat_card [of i] i by simp
    moreover have "card {j. j < i \<and> P j} < card {i. P i}"
      using card_marked_strict [where P = P and i = i and n = ?n] that i Pn by simp
    ultimately show ?thesis using c1 by simp
  qed
  have c3: "last ?m = - 1 \<and> coarse_n ?m = 0" if "0 < ?n" "card {i. P i} = 0"
  proof -
    from that have ne: "?m \<noteq> []" by auto
    have "last ?m = ?m ! (?n - 1)" using ne len by (simp add: last_conv_nth del: map_map)
    also have "\<dots> = of_nat (card {j. j < ?n \<and> P j}) - 1" using nth [of "?n - 1"] that by simp
    finally have l: "last ?m = of_nat (card {j. j < ?n \<and> P j}) - 1" .
    from that(2) have z: "card {j. j < ?n \<and> P j} = 0" using Pn by simp
    show ?thesis using l cn unfolding Pn z by simp
  qed
  show "build_lnode_to_lcnode_mapping g clustering local_nodes = Inr m"
    unfolding m_def by (fact build)
  show "length m = graph_n g" unfolding m_def by (fact len)
  show "unat (coarse_n m) = card {i. P i}" unfolding m_def by (fact c1)
  show "unat (m ! i) = card {j. j < i \<and> P j}" if "P i" for i
    unfolding m_def using c2 [OF that] by blast
  show "unat (m ! i) < unat (coarse_n m)" if "P i" for i
    unfolding m_def using c2 [OF that] by blast
  show "last m = - 1 \<and> coarse_n m = 0" if "0 < graph_n g" "card {i. P i} = 0"
    unfolding m_def using c3 [OF that] .
qed


subsection \<open>The local coarse numbering of every process\<close>

lemma build_lnode_to_lcnode_mapping_eq:
  assumes "graph_n g < 2 ^ 32" "\<forall>x \<in> set local_nodes. is_owned_global_node g (gn_u x)"
  shows "build_lnode_to_lcnode_mapping g clustering local_nodes
         = Inr (lcnode_of g clustering local_nodes)"
  unfolding lcnode_of_def
  by (rule numbering_facts(1)) (use assms in \<open>simp_all add: list_all_iff\<close>)

lemma lcnode_of_facts:
  fixes g :: graph and clustering :: "nat list" and local_nodes :: "GlobalNode list"
  assumes "graph_n g < 2 ^ 32" "\<forall>x \<in> set local_nodes. is_owned_global_node g (gn_u x)"
  defines "N \<equiv> nonempty_local_cluster g clustering local_nodes"
  defines "m \<equiv> lcnode_of g clustering local_nodes"
  shows "length m = graph_n g"
    and "unat (coarse_n m) = card {i. N i}"
    and "\<And>i. N i \<Longrightarrow> unat (m ! i) = card {j. j < i \<and> N j}"
    and "\<And>i. N i \<Longrightarrow> unat (m ! i) < unat (coarse_n m)"
    and "\<And>i j. N i \<Longrightarrow> N j \<Longrightarrow> unat (m ! i) = unat (m ! j) \<Longrightarrow> i = j"
    and "\<And>i j. N i \<Longrightarrow> N j \<Longrightarrow> i \<le> j \<Longrightarrow> unat (m ! i) \<le> unat (m ! j)"
proof -
  have n: "graph_n g < 2 ^ LENGTH(32)" using assms(1) by simp
  have o: "list_all (\<lambda>x. is_owned_global_node g (gn_u x)) local_nodes"
    using assms(2) by (simp add: list_all_iff)
  note f = numbering_facts [OF n o, of clustering, folded lcnode_of_def N_def m_def]
  show "length m = graph_n g" by (rule f(2))
  show "unat (coarse_n m) = card {i. N i}" by (rule f(3))
  show c: "unat (m ! i) = card {j. j < i \<and> N j}" if "N i" for i by (rule f(4) [OF that])
  show "unat (m ! i) < unat (coarse_n m)" if "N i" for i by (rule f(5) [OF that])
  have strict: "unat (m ! i) < unat (m ! j)" if "N i" "N j" "i < j" for i j
    using card_marked_strict [where P = N and i = i and n = j] that c by simp
  show "i = j" if "N i" "N j" "unat (m ! i) = unat (m ! j)" for i j
  proof (rule ccontr)
    assume "i \<noteq> j"
    then consider "i < j" | "j < i" by linarith
    then show False using strict that by cases force+
  qed
  show "unat (m ! i) \<le> unat (m ! j)" if "N i" "N j" "i \<le> j" for i j
    using strict [of i j] that by (cases "i = j") auto
qed

subsection \<open>Coarse distribution and coarse identifiers\<close>

lemma length_build_distribution [simp]: "length (build_distribution counts) = Suc (length counts)"
  by (simp add: build_distribution_def)

lemma build_distribution_nth:
  "q \<le> length counts \<Longrightarrow> build_distribution counts ! q = sum_list (take q counts)"
  by (simp add: build_distribution_def exclusive_scan_nth)

lemma build_distribution_Suc:
  "q < length counts \<Longrightarrow>
   build_distribution counts ! Suc q = build_distribution counts ! q + counts ! q"
  by (simp add: build_distribution_nth take_Suc_conv_app_nth)

lemma exclusive_scan_eq_Nil [simp]: "exclusive_scan xs init = [] \<longleftrightarrow> xs = []"
  by (cases xs) auto

lemma last_build_distribution: "last (build_distribution counts) = sum_list counts"
proof -
  have "build_distribution counts \<noteq> []" by (simp add: build_distribution_def)
  then have "last (build_distribution counts)
      = build_distribution counts ! (length (build_distribution counts) - 1)"
    by (rule last_conv_nth)
  then have "last (build_distribution counts) = build_distribution counts ! length counts"
    by simp
  then show ?thesis by (simp add: build_distribution_nth)
qed

lemma build_distribution_mono:
  assumes "i \<le> j" "j \<le> length counts"
  shows "build_distribution counts ! i \<le> build_distribution counts ! j"
proof -
  have "take j counts = take i counts @ drop i (take j counts)"
    using assms by (metis append_take_drop_id min.absorb2 take_take min.commute)
  then have "sum_list (take j counts) = sum_list (take i counts) + sum_list (drop i (take j counts))"
    by (metis sum_list.append)
  then show ?thesis using assms by (simp add: build_distribution_nth)
qed

lemma build_distribution_le_last:
  "j \<le> length counts \<Longrightarrow> build_distribution counts ! j \<le> last (build_distribution counts)"
  using build_distribution_mono [of j "length counts" counts]
  by (simp add: last_build_distribution build_distribution_nth)

lemma length_coarse_counts [simp]: "length (coarse_counts gs cs) = length gs"
  by (simp add: coarse_counts_def)

lemma coarse_counts_nth:
  "q < length gs \<Longrightarrow> coarse_counts gs cs ! q = unat (coarse_n (lcnodes gs cs q))"
  by (simp add: coarse_counts_def)

lemma lcnodes_facts:
  assumes "valid_input gs cs" "q < length gs"
  defines "N \<equiv> nonempty_local_cluster (gs ! q) (cs ! q) (received_nodes gs cs q)"
  defines "m \<equiv> lcnodes gs cs q"
  shows "build_lnode_to_lcnode_mapping (gs ! q) (cs ! q) (received_nodes gs cs q) = Inr m"
    and "length m = graph_n (gs ! q)"
    and "unat (coarse_n m) = card {i. N i}"
    and "\<And>i. N i \<Longrightarrow> unat (m ! i) = card {j. j < i \<and> N j}"
    and "\<And>i. N i \<Longrightarrow> unat (m ! i) < unat (coarse_n m)"
    and "\<And>i j. N i \<Longrightarrow> N j \<Longrightarrow> unat (m ! i) = unat (m ! j) \<Longrightarrow> i = j"
    and "\<And>i j. N i \<Longrightarrow> N j \<Longrightarrow> i \<le> j \<Longrightarrow> unat (m ! i) \<le> unat (m ! j)"
proof -
  have n: "graph_n (gs ! q) < 2 ^ 32" by (rule valid_csr_facts(9) [OF assms(1,2)])
  have o: "\<forall>x \<in> set (received_nodes gs cs q). is_owned_global_node (gs ! q) (gn_u x)"
    using received_nodes_facts(2) [OF assms(1,2)] by blast
  note f = lcnode_of_facts [OF n o, of "cs ! q", folded lcnodes_def N_def m_def]
  show "build_lnode_to_lcnode_mapping (gs ! q) (cs ! q) (received_nodes gs cs q) = Inr m"
    unfolding m_def lcnodes_def by (rule build_lnode_to_lcnode_mapping_eq [OF n o])
  show "length m = graph_n (gs ! q)" by (rule f(1))
  show "unat (coarse_n m) = card {i. N i}" by (rule f(2))
  show "unat (m ! i) = card {j. j < i \<and> N j}" if "N i" for i by (rule f(3) [OF that])
  show "unat (m ! i) < unat (coarse_n m)" if "N i" for i by (rule f(4) [OF that])
  show "i = j" if "N i" "N j" "unat (m ! i) = unat (m ! j)" for i j by (rule f(5) [OF that])
  show "unat (m ! i) \<le> unat (m ! j)" if "N i" "N j" "i \<le> j" for i j by (rule f(6) [OF that])
qed

text \<open>The coarse identifier of a marked cluster lies in the coarse range of its owner.\<close>

lemma coarse_global_range:
  assumes "valid_input gs cs" "c < last (node_distribution (gs ! 0))" "marked_cluster gs cs c"
  defines "q \<equiv> owner_of (node_distribution (gs ! 0)) c"
  shows "coarse_distribution gs cs ! q \<le> coarse_global gs cs c"
    and "coarse_global gs cs c < coarse_distribution gs cs ! Suc q"
    and "coarse_global gs cs c < last (coarse_distribution gs cs)"
    and "unat (lcnodes gs cs q ! (c - node_distribution (gs ! 0) ! q)) < coarse_counts gs cs ! q"
proof -
  have q: "q < length gs"
    unfolding q_def by (rule owner_lt_size [OF valid_input_dist [OF assms(1)] assms(2)])
  have N: "nonempty_local_cluster (gs ! q) (cs ! q) (received_nodes gs cs q)
        (c - node_distribution (gs ! 0) ! q)"
    using assms(3) by (simp add: marked_cluster_def q_def Let_def)
  from lcnodes_facts(5) [OF assms(1) q N]
  show lt: "unat (lcnodes gs cs q ! (c - node_distribution (gs ! 0) ! q)) < coarse_counts gs cs ! q"
    by (simp add: coarse_counts_nth [OF q])
  show "coarse_distribution gs cs ! q \<le> coarse_global gs cs c"
    by (simp add: coarse_global_def q_def Let_def)
  have "coarse_distribution gs cs ! Suc q = coarse_distribution gs cs ! q + coarse_counts gs cs ! q"
    unfolding coarse_distribution_def by (rule build_distribution_Suc) (use q in simp)
  with lt show up: "coarse_global gs cs c < coarse_distribution gs cs ! Suc q"
    by (simp add: coarse_global_def q_def Let_def)
  have "coarse_distribution gs cs ! Suc q \<le> last (coarse_distribution gs cs)"
    unfolding coarse_distribution_def by (rule build_distribution_le_last) (use q in simp)
  with up show "coarse_global gs cs c < last (coarse_distribution gs cs)" by simp
qed

lemma coarse_global_inj:
  assumes "valid_input gs cs"
    and "c < last (node_distribution (gs ! 0))" "marked_cluster gs cs c"
    and "d < last (node_distribution (gs ! 0))" "marked_cluster gs cs d"
    and "coarse_global gs cs c = coarse_global gs cs d"
  shows "c = d"
proof -
  let ?dist = "node_distribution (gs ! 0)"
  let ?cd = "coarse_distribution gs cs"
  note vd = valid_input_dist [OF assms(1)]
  have P0: "0 < length gs" by (rule valid_input_size [OF assms(1)])
  note f = valid_distribution_facts [OF vd P0]
  let ?q = "owner_of ?dist c" and ?r = "owner_of ?dist d"
  have q: "?q < length gs" and r: "?r < length gs"
    by (rule owner_lt_size [OF vd assms(2)], rule owner_lt_size [OF vd assms(4)])
  note rc = coarse_global_range [OF assms(1,2,3)]
  note rd = coarse_global_range [OF assms(1,4,5)]
  have same: "?q = ?r"
  proof (rule ccontr)
    assume ne: "?q \<noteq> ?r"
    then consider "Suc ?q \<le> ?r" | "Suc ?r \<le> ?q" by linarith
    then show False
    proof cases
      case 1
      have "?cd ! Suc ?q \<le> ?cd ! ?r"
        unfolding coarse_distribution_def
        by (rule build_distribution_mono [OF 1]) (use r in simp)
      with rc(2) rd(1) assms(6) show False by simp
    next
      case 2
      have "?cd ! Suc ?r \<le> ?cd ! ?q"
        unfolding coarse_distribution_def
        by (rule build_distribution_mono [OF 2]) (use q in simp)
      with rd(2) rc(1) assms(6) show False by simp
    qed
  qed
  have Nc: "nonempty_local_cluster (gs ! ?q) (cs ! ?q) (received_nodes gs cs ?q) (c - ?dist ! ?q)"
    using assms(3) by (simp add: marked_cluster_def Let_def)
  have Nd: "nonempty_local_cluster (gs ! ?q) (cs ! ?q) (received_nodes gs cs ?q) (d - ?dist ! ?q)"
    using assms(5) same by (simp add: marked_cluster_def Let_def)
  have "unat (lcnodes gs cs ?q ! (c - ?dist ! ?q)) = unat (lcnodes gs cs ?q ! (d - ?dist ! ?q))"
    using assms(6) same by (simp add: coarse_global_def Let_def)
  from lcnodes_facts(6) [OF assms(1) q Nc Nd this]
  have "c - ?dist ! ?q = d - ?dist ! ?q" .
  moreover have "?dist ! ?q \<le> c" by (rule owner_of_props(2) [OF f(7,8,9) assms(2)])
  moreover have "?dist ! ?q \<le> d" unfolding same by (rule owner_of_props(2) [OF f(7,8,9) assms(4)])
  ultimately show ?thesis by simp
qed

section \<open>Requests for the coarse identifiers of nonlocal clusters\<close>

subsection \<open>Requests for nonlocal clusters\<close>

lemma fold_err_concat_map:
  "fold_err (\<lambda>u st. fold_err f (xs u) st) us st = fold_err f (concat (map xs us)) st"
  by (induction us arbitrary: st) (auto simp: fold_err_append bind_err_def split: sum.splits)

lemma fold_err_filter:
  "fold_err (\<lambda>x st. if c x then f x st else Inr st) xs st = fold_err f (filter c xs) st"
  by (induction xs arbitrary: st) (auto split: sum.splits)

lemma fold_err_map: "fold_err (\<lambda>x. f (h x)) xs st = fold_err f (map h xs) st"
  by (induction xs arbitrary: st) (auto split: sum.splits)

lemma fold_err_cong:
  "(\<And>x st. x \<in> set xs \<Longrightarrow> f x st = h x st) \<Longrightarrow> fold_err f xs st = fold_err h xs st"
  by (induction xs arbitrary: st) (auto split: sum.splits)

lemma request_nonlocal_mapping_eq:
  assumes "valid_distribution gs" "p < length gs" "c < last (node_distribution (gs ! 0))"
  shows "request_nonlocal_mapping (gs ! p) c st = Inr (req_step (node_distribution (gs ! 0)) c st)"
  by (cases st)
    (simp add: request_nonlocal_mapping_def req_step_def find_owner_valid [OF assms] Let_def)

lemma collect_requests_fold:
  "collect_requests g C LE
   = fold_err (request_nonlocal_mapping g) (request_clusters g C LE)
       ([], replicate (comm_size g + 1) 0)"
proof -
  let ?own = "is_owned_global_node g"
  let ?xs = "\<lambda>u. if \<not> ?own (C ! u) then []
                  else map (\<lambda>(e, v). C ! v) (filter (\<lambda>(e, v). \<not> ?own (C ! v)) (neighbors g u))"
  have inner: "(if \<not> ?own (C ! u) then Inr st
          else fold_err (\<lambda>(e, v) st. if \<not> ?own (C ! v)
                   then request_nonlocal_mapping g (C ! v) st else Inr st) (neighbors g u) st)
      = fold_err (request_nonlocal_mapping g) (?xs u) st" for u st
  proof (cases "?own (C ! u)")
    case False
    then show ?thesis by simp
  next
    case True
    have "fold_err (\<lambda>(e, v) st. if \<not> ?own (C ! v)
                   then request_nonlocal_mapping g (C ! v) st else Inr st) (neighbors g u) st
        = fold_err (\<lambda>ev st. if (\<lambda>(e, v). \<not> ?own (C ! v)) ev
                   then (\<lambda>ev. request_nonlocal_mapping g ((\<lambda>(e, v). C ! v) ev)) ev st else Inr st)
            (neighbors g u) st"
      by (rule fold_err_cong) (auto split: prod.splits)
    also have "\<dots> = fold_err (\<lambda>ev. request_nonlocal_mapping g ((\<lambda>(e, v). C ! v) ev))
          (filter (\<lambda>(e, v). \<not> ?own (C ! v)) (neighbors g u)) st"
      by (rule fold_err_filter)
    also have "\<dots> = fold_err (request_nonlocal_mapping g)
          (map (\<lambda>(e, v). C ! v) (filter (\<lambda>(e, v). \<not> ?own (C ! v)) (neighbors g u))) st"
      by (rule fold_err_map)
    finally show ?thesis using True by simp
  qed
  have second: "fold_err (\<lambda>e st. if \<not> ?own (ge_v e)
                 then request_nonlocal_mapping g (ge_v e) st else Inr st) LE st
      = fold_err (request_nonlocal_mapping g) (map ge_v (filter (\<lambda>e. \<not> ?own (ge_v e)) LE)) st"
    for st
  proof -
    have "fold_err (\<lambda>e st. if \<not> ?own (ge_v e)
                 then request_nonlocal_mapping g (ge_v e) st else Inr st) LE st
        = fold_err (\<lambda>e. request_nonlocal_mapping g (ge_v e)) (filter (\<lambda>e. \<not> ?own (ge_v e)) LE) st"
      by (rule fold_err_filter)
    also have "\<dots> = fold_err (request_nonlocal_mapping g)
          (map ge_v (filter (\<lambda>e. \<not> ?own (ge_v e)) LE)) st"
      by (rule fold_err_map)
    finally show ?thesis .
  qed
  show ?thesis
    unfolding collect_requests_def inner second request_clusters_def fold_err_append
      fold_err_concat_map
    by (rule refl)
qed

lemma map_of_eq_None_fst: "map_of m k = None \<longleftrightarrow> k \<notin> fst ` set m"
  by (simp add: map_of_eq_None_iff)

lemma req_step_keys:
  "fst ` set (fst (req_step dist c st)) = insert (c + 1) (fst ` set (fst st))"
  by (cases st) (auto simp: req_step_def Let_def map_of_eq_None_fst)

lemma req_step_inv:
  assumes "req_inv dist P st" "c < last dist" "owner_of dist c \<le> P"
  shows "req_inv dist P (req_step dist c st)"
proof (cases st)
  case (Pair m nxt)
  show ?thesis
  proof (cases "map_of m (c + 1) = None")
    case False
    with assms(1) Pair show ?thesis by (simp add: req_step_def)
  next
    case True
    let ?o = "owner_of dist c"
    let ?m' = "m @ [(c + 1, nxt ! ?o + 1)]"
    let ?n' = "nxt[?o := nxt ! ?o + 1]"
    from assms(1) Pair have len: "length nxt = P + 1" and dm: "distinct (map fst m)"
      and rng: "\<forall>kv \<in> set m. 1 \<le> fst kv \<and> fst kv - 1 < last dist"
      and seq: "\<forall>pe \<le> P. map snd (filter (\<lambda>kv. key_owner dist kv = pe) m) = [1..<Suc (nxt ! pe)]"
      by (simp_all add: req_inv_def)
    have step: "req_step dist c st = (?m', ?n')"
      using True Pair by (simp add: req_step_def Let_def)
    have "c + 1 \<notin> fst ` set m" using True by (simp add: map_of_eq_None_fst)
    then have d': "distinct (map fst ?m')" using dm by simp
    have r': "\<forall>kv \<in> set ?m'. 1 \<le> fst kv \<and> fst kv - 1 < last dist"
      using rng assms(2) by auto
    have s': "map snd (filter (\<lambda>kv. key_owner dist kv = pe) ?m') = [1..<Suc (?n' ! pe)]"
      if pe: "pe \<le> P" for pe
    proof (cases "pe = ?o")
      case True
      have "map snd (filter (\<lambda>kv. key_owner dist kv = pe) ?m')
          = [1..<Suc (nxt ! pe)] @ [nxt ! pe + 1]"
        using seq pe True by (simp add: key_owner_def)
      also have "\<dots> = [1..<Suc (Suc (nxt ! pe))]" by simp
      finally show ?thesis using True pe len by simp
    next
      case False
      then show ?thesis using seq pe by (simp add: key_owner_def)
    qed
    show ?thesis
      unfolding step req_inv_def using len d' r' s' by simp
  qed
qed

lemma req_fold_inv:
  assumes "req_inv dist P st" "\<forall>c \<in> set cl. c < last dist \<and> owner_of dist c \<le> P"
  shows "req_inv dist P (fold (req_step dist) cl st)"
    and "fst ` set (fst (fold (req_step dist) cl st)) = (\<lambda>c. c + 1) ` set cl \<union> fst ` set (fst st)"
  using assms
proof (induction cl arbitrary: st)
  case Nil
  {
    case 1
    then show ?case by simp
  next
    case 2
    then show ?case by simp
  }
next
  case (Cons c cl)
  {
    case 1
    then have "req_inv dist P (req_step dist c st)" by (intro req_step_inv) auto
    with 1 show ?case by (simp add: Cons.IH(1))
  next
    case 2
    then have "req_inv dist P (req_step dist c st)" by (intro req_step_inv) auto
    with 2 have "fst ` set (fst (fold (req_step dist) cl (req_step dist c st)))
        = (\<lambda>c. c + 1) ` set cl \<union> fst ` set (fst (req_step dist c st))"
      by (intro Cons.IH(2)) auto
    then show ?case by (simp add: req_step_keys)
  }
qed

lemma req_inv_init: "req_inv dist P ([], replicate (P + 1) 0)"
proof -
  have "replicate (P + 1) (0::nat) ! pe = 0" if "pe \<le> P" for pe
    using that by (simp del: replicate.simps replicate_Suc add: nth_replicate)
  then show ?thesis by (simp add: req_inv_def del: replicate.simps replicate_Suc)
qed

lemma seq_position:
  assumes "map snd xs = [1..<Suc n]" "(k, v) \<in> set xs"
  shows "1 \<le> v" and "v \<le> n" and "v - 1 < length xs" and "xs ! (v - 1) = (k, v)"
proof -
  from assms(2) obtain j where j: "j < length xs" "xs ! j = (k, v)"
    by (auto simp: in_set_conv_nth)
  have len: "length xs = n"
    using assms(1) by (metis diff_Suc_1 length_map length_upt)
  have "map snd xs ! j = [1..<Suc n] ! j" by (simp only: assms(1))
  then have v: "v = Suc j" using j len by (simp del: upt_Suc add: nth_upt)
  show "1 \<le> v" "v \<le> n" "v - 1 < length xs" using v j len by simp_all
  show "xs ! (v - 1) = (k, v)" using v j by simp
qed

lemma req_inv_entry:
  assumes "req_inv dist P (m, nxt)" "(k, v) \<in> set m" "key_owner dist (k, v) < P"
  defines "ow \<equiv> key_owner dist (k, v)"
  shows "1 \<le> v" and "v \<le> nxt ! ow"
    and "v - 1 < length (requests_of dist P m ! ow)"
    and "requests_of dist P m ! ow ! (v - 1) = k - 1"
    and "length (requests_of dist P m ! ow) = nxt ! ow"
proof -
  let ?xs = "filter (\<lambda>kv. key_owner dist kv = ow) m"
  from assms(1) assms(3) have seq: "map snd ?xs = [1..<Suc (nxt ! ow)]"
    by (simp add: req_inv_def ow_def)
  have mem: "(k, v) \<in> set ?xs" using assms(2) by (simp add: ow_def)
  note sp = seq_position [OF seq mem]
  show "1 \<le> v" "v \<le> nxt ! ow" by (rule sp(1), rule sp(2))
  have r: "requests_of dist P m ! ow = map (\<lambda>kv. fst kv - 1) ?xs"
    using assms(3) by (simp add: requests_of_def ow_def)
  show "v - 1 < length (requests_of dist P m ! ow)" using sp(3) by (simp add: r)
  show "requests_of dist P m ! ow ! (v - 1) = k - 1" using sp(3,4) by (simp add: r)
  have "length ?xs = nxt ! ow"
    using seq by (metis diff_Suc_1 length_map length_upt)
  then show "length (requests_of dist P m ! ow) = nxt ! ow" by (simp add: r)
qed

lemma length_requests_of [simp]: "length (requests_of dist P m) = P"
  by (simp add: requests_of_def)

lemma prefix_seq_last:
  assumes "map snd (xs @ (k, v) # ys) = [1..<Suc n]"
  shows "v = Suc (length xs)" and "length xs < n"
proof -
  have len: "length (xs @ (k, v) # ys) = n"
    using assms by (metis diff_Suc_1 length_map length_upt)
  then show l: "length xs < n" by simp
  have "map snd (xs @ (k, v) # ys) ! length xs = [1..<Suc n] ! length xs"
    by (simp only: assms)
  then show "v = Suc (length xs)"
    using l by (simp del: upt_Suc add: nth_upt nth_append)
qed

lemma list_update_length_append:
  "(xs @ replicate (Suc r) z)[length xs := x] = xs @ [x] @ replicate r z"
  by (simp add: list_update_append)

lemma build_requests_invariant:
  fixes m :: NonlocalClusterMap
  assumes inv: "req_inv dist P (m, nxt)"
    and own: "\<forall>kv \<in> set m. key_owner dist kv < P"
    and j: "j \<le> length m"
  shows "fold (\<lambda>kv R. R[key_owner dist kv := (R ! key_owner dist kv)[snd kv - 1 := fst kv - 1]])
           (take j m) (map (\<lambda>pe. replicate (nxt ! pe) 0) [0..<P])
         = map (\<lambda>pe. map (\<lambda>kv. fst kv - 1) (filter (\<lambda>kv. key_owner dist kv = pe) (take j m))
                      @ replicate (nxt ! pe - length (filter (\<lambda>kv. key_owner dist kv = pe) (take j m))) 0)
             [0..<P]"
  using j
proof (induction j)
  case 0
  then show ?case by simp
next
  case (Suc j)
  let ?F = "\<lambda>kv R. R[key_owner dist kv := (R ! key_owner dist kv)[snd kv - 1 := fst kv - 1]]"
  let ?flt = "\<lambda>pe xs. filter (\<lambda>kv. key_owner dist kv = pe) xs"
  let ?row = "\<lambda>xs pe. map (\<lambda>kv. fst kv - 1) (?flt pe xs) @ replicate (nxt ! pe - length (?flt pe xs)) 0"
  from Suc.prems have jl: "j < length m" by simp
  obtain k v where kv: "m ! j = (k, v)" by (cases "m ! j")
  let ?ow = "key_owner dist (k, v)"
  have ow: "?ow < P" using own jl kv by (metis nth_mem)
  have tk: "take (Suc j) m = take j m @ [(k, v)]"
    using jl kv by (simp add: take_Suc_conv_app_nth)
  have m: "m = take j m @ (k, v) # drop (Suc j) m"
    using jl kv by (metis id_take_nth_drop)
  from inv ow have seq: "map snd (?flt ?ow m) = [1..<Suc (nxt ! ?ow)]"
    by (simp add: req_inv_def)
  have "?flt ?ow m = ?flt ?ow (take j m) @ (k, v) # ?flt ?ow (drop (Suc j) m)"
    by (subst m) simp
  with seq have "map snd (?flt ?ow (take j m) @ (k, v) # ?flt ?ow (drop (Suc j) m))
      = [1..<Suc (nxt ! ?ow)]" by simp
  from prefix_seq_last [OF this]
  have v: "v = Suc (length (?flt ?ow (take j m)))" and lt: "length (?flt ?ow (take j m)) < nxt ! ?ow" .
  obtain r where r: "nxt ! ?ow - length (?flt ?ow (take j m)) = Suc r"
    using lt by (cases "nxt ! ?ow - length (?flt ?ow (take j m))") auto
  have vm: "v - 1 = length (?flt ?ow (take j m))" using v by linarith
  have r': "nxt ! ?ow - Suc (length (?flt ?ow (take j m))) = r" using r by simp
  have IH: "fold ?F (take j m) (map (\<lambda>pe. replicate (nxt ! pe) 0) [0..<P]) = map (?row (take j m)) [0..<P]"
    using Suc.IH jl by simp
  have "fold ?F (take (Suc j) m) (map (\<lambda>pe. replicate (nxt ! pe) 0) [0..<P])
      = ?F (k, v) (fold ?F (take j m) (map (\<lambda>pe. replicate (nxt ! pe) 0) [0..<P]))"
    by (simp only: tk fold_append fold_simps comp_apply id_apply)
  also have "\<dots> = ?F (k, v) (map (?row (take j m)) [0..<P])"
    by (simp only: IH)
  also have "\<dots> = map (?row (take (Suc j) m)) [0..<P]"
  proof (rule nth_equalityI)
    show "length (?F (k, v) (map (?row (take j m)) [0..<P])) = length (map (?row (take (Suc j) m)) [0..<P])"
      by simp
  next
    fix pe assume "pe < length (?F (k, v) (map (?row (take j m)) [0..<P]))"
    then have pe: "pe < P" by simp
    show "?F (k, v) (map (?row (take j m)) [0..<P]) ! pe = map (?row (take (Suc j) m)) [0..<P] ! pe"
    proof (cases "pe = ?ow")
      case True
      have "?F (k, v) (map (?row (take j m)) [0..<P]) ! pe
          = (?row (take j m) ?ow)[v - 1 := k - 1]"
        unfolding True using ow by simp
      also have "\<dots> = (map (\<lambda>kv. fst kv - 1) (?flt ?ow (take j m)) @ replicate (Suc r) 0)
            [length (map (\<lambda>kv. fst kv - 1) (?flt ?ow (take j m))) := k - 1]"
        by (simp only: vm r length_map)
      also have "\<dots> = map (\<lambda>kv. fst kv - 1) (?flt ?ow (take j m)) @ [k - 1] @ replicate r 0"
        by (rule list_update_length_append)
      also have "\<dots> = ?row (take (Suc j) m) ?ow"
        by (simp add: tk r')
      finally show ?thesis unfolding True using ow by simp
    next
      case False
      then show ?thesis using pe ow by (simp add: tk)
    qed
  qed
  finally show ?case .
qed

lemma build_mapping_requests_eq:
  assumes vd: "valid_distribution gs" and p: "p < length gs"
    and inv: "req_inv (node_distribution (gs ! 0)) (length gs) (m, nxt)"
  shows "build_mapping_requests (gs ! p) m nxt
         = Inr (requests_of (node_distribution (gs ! 0)) (length gs) m)"
proof -
  let ?dist = "node_distribution (gs ! 0)"
  let ?P = "length gs"
  note f = valid_distribution_facts [OF vd p]
  from inv have rng: "\<forall>kv \<in> set m. 1 \<le> fst kv \<and> fst kv - 1 < last ?dist"
    by (simp add: req_inv_def)
  have own: "\<forall>kv \<in> set m. key_owner ?dist kv < ?P"
    using rng owner_lt_size [OF vd] by (simp add: key_owner_def)
  have "build_mapping_requests (gs ! p) m nxt
      = Inr (fold (\<lambda>kv R. R[key_owner ?dist kv := (R ! key_owner ?dist kv)[snd kv - 1 := fst kv - 1]])
               m (map (\<lambda>pe. replicate (nxt ! pe) 0) [0..<comm_size (gs ! p)]))"
    unfolding build_mapping_requests_def
  proof (rule fold_err_pure)
    fix kv R assume "kv \<in> set m"
    with rng have "fst kv - 1 < last ?dist" by blast
    from find_owner_valid [OF vd p this]
    show "(case kv of (k, v) \<Rightarrow> \<lambda>my_mapping_requests.
             let cluster = k - 1 in
             bind_err (find_owner_of_global_node (gs ! p) cluster) (\<lambda>owner.
               let index = v - 1 in
               Inr (my_mapping_requests[owner := (my_mapping_requests ! owner)[index := cluster]]))) R
        = Inr (R[key_owner ?dist kv := (R ! key_owner ?dist kv)[snd kv - 1 := fst kv - 1]])"
      by (cases kv) (simp add: Let_def key_owner_def)
  qed
  also have "fold (\<lambda>kv R. R[key_owner ?dist kv := (R ! key_owner ?dist kv)[snd kv - 1 := fst kv - 1]])
               m (map (\<lambda>pe. replicate (nxt ! pe) 0) [0..<comm_size (gs ! p)])
      = map (\<lambda>pe. map (\<lambda>kv. fst kv - 1) (filter (\<lambda>kv. key_owner ?dist kv = pe) m)
                      @ replicate (nxt ! pe - length (filter (\<lambda>kv. key_owner ?dist kv = pe) m)) 0)
             [0..<?P]"
    using build_requests_invariant [OF inv own, of "length m"] by (simp add: f(5))
  also have "\<dots> = requests_of ?dist ?P m"
    unfolding requests_of_def
  proof (rule map_cong [OF refl])
    fix pe assume "pe \<in> set [0..<?P]"
    then have pe: "pe \<le> ?P" by simp
    from inv pe have "map snd (filter (\<lambda>kv. key_owner ?dist kv = pe) m) = [1..<Suc (nxt ! pe)]"
      by (simp add: req_inv_def)
    then have "length (filter (\<lambda>kv. key_owner ?dist kv = pe) m) = nxt ! pe"
      by (metis diff_Suc_1 length_map length_upt)
    then show "map (\<lambda>kv. fst kv - 1) (filter (\<lambda>kv. key_owner ?dist kv = pe) m)
          @ replicate (nxt ! pe - length (filter (\<lambda>kv. key_owner ?dist kv = pe) m)) 0
        = map (\<lambda>kv. fst kv - 1) (filter (\<lambda>kv. key_owner ?dist kv = pe) m)"
      by simp
  qed
  finally show ?thesis .
qed

text \<open>A request index is below the number of nodes of the owner, hence below the global
  number of nodes.\<close>

lemma req_inv_index_bound:
  assumes srt: "sorted dist" and ne: "dist \<noteq> []" and hd0: "hd dist = 0"
    and inv: "req_inv dist P (m, nxt)" and mem: "(k, v) \<in> set m"
    and len: "length dist = Suc P"
  shows "v - 1 < last dist"
proof -
  let ?ow = "key_owner dist (k, v)"
  let ?xs = "filter (\<lambda>kv. key_owner dist kv = ?ow) m"
  from inv mem have k: "1 \<le> k" "k - 1 < last dist" by (auto simp: req_inv_def)
  note o = owner_of_props [OF srt ne hd0 k(2)]
  have ow: "?ow < P" using o(1) len by (simp add: key_owner_def)
  from inv ow have seq: "map snd ?xs = [1..<Suc (nxt ! ?ow)]" by (simp add: req_inv_def)
  have memx: "(k, v) \<in> set ?xs" using mem by simp
  note sp = seq_position [OF seq memx]
  from inv have "distinct (map fst m)" by (simp add: req_inv_def)
  then have d: "distinct (map fst ?xs)" by (rule distinct_map_filter)
  have sub: "set (map fst ?xs) \<subseteq> {Suc (dist ! ?ow)..<Suc (dist ! Suc ?ow)}"
  proof
    fix x assume "x \<in> set (map fst ?xs)"
    then obtain w where w: "(x, w) \<in> set m" "key_owner dist (x, w) = ?ow" by auto
    from inv w(1) have x: "1 \<le> x" "x - 1 < last dist" by (auto simp: req_inv_def)
    from owner_of_props(2,3) [OF srt ne hd0 x(2)] w(2)
    have "dist ! ?ow \<le> x - 1" "x - 1 < dist ! Suc ?ow" by (simp_all add: key_owner_def)
    with x(1) show "x \<in> {Suc (dist ! ?ow)..<Suc (dist ! Suc ?ow)}" by auto
  qed
  have "length ?xs = card (set (map fst ?xs))"
    using d by (metis distinct_card length_map)
  also have "\<dots> \<le> card {Suc (dist ! ?ow)..<Suc (dist ! Suc ?ow)}"
    by (rule card_mono [OF _ sub]) simp
  also have "\<dots> = dist ! Suc ?ow - dist ! ?ow" by simp
  also have "\<dots> \<le> dist ! Suc ?ow" by simp
  also have "\<dots> \<le> dist ! (length dist - 1)"
    using srt ow len by (intro sorted_nth_mono) auto
  also have "\<dots> = last dist" using ne by (simp add: last_conv_nth)
  finally have "length ?xs \<le> last dist" .
  with sp(1,3) show ?thesis by simp
qed

section \<open>The fine-to-coarse mapping\<close>

lemma request_clusters_range:
  assumes vi: "valid_input gs cs" and p: "p < length gs"
    and c: "c \<in> set (request_clusters (gs ! p) (cs ! p) (received_edges gs cs p))"
  shows "c < last (node_distribution (gs ! 0))"
    and "\<not> is_owned_global_node (gs ! p) c"
proof -
  from c have "(\<exists>u e v. u < graph_n (gs ! p) \<and> (e, v) \<in> set (neighbors (gs ! p) u) \<and>
                  \<not> is_owned_global_node (gs ! p) (cs ! p ! v) \<and> c = cs ! p ! v)
             \<or> (\<exists>x \<in> set (received_edges gs cs p).
                  \<not> is_owned_global_node (gs ! p) (ge_v x) \<and> c = ge_v x)"
    unfolding request_clusters_def by (auto split: if_splits) blast
  then have "c < last (node_distribution (gs ! 0)) \<and> \<not> is_owned_global_node (gs ! p) c"
  proof
    assume "\<exists>u e v. u < graph_n (gs ! p) \<and> (e, v) \<in> set (neighbors (gs ! p) u) \<and>
                  \<not> is_owned_global_node (gs ! p) (cs ! p ! v) \<and> c = cs ! p ! v"
    then obtain u e v where u: "u < graph_n (gs ! p)" "(e, v) \<in> set (neighbors (gs ! p) u)"
      "\<not> is_owned_global_node (gs ! p) (cs ! p ! v)" "c = cs ! p ! v" by blast
    from neighbors_facts(3) [OF vi p u(1,2)] have "v < total_n (gs ! p)" .
    from valid_clustering_facts(3) [OF vi p this] u(3,4) show ?thesis by simp
  next
    assume "\<exists>x \<in> set (received_edges gs cs p).
                  \<not> is_owned_global_node (gs ! p) (ge_v x) \<and> c = ge_v x"
    then obtain x where x: "x \<in> set (received_edges gs cs p)"
      "\<not> is_owned_global_node (gs ! p) (ge_v x)" "c = ge_v x" by blast
    from received_edges_facts(3) [OF vi p x(1)] x(2,3) show ?thesis by simp
  qed
  then show "c < last (node_distribution (gs ! 0))"
    and "\<not> is_owned_global_node (gs ! p) c" by simp_all
qed

lemma request_state_facts:
  assumes vi: "valid_input gs cs" and p: "p < length gs"
  defines "dist \<equiv> node_distribution (gs ! 0)"
  defines "rs \<equiv> request_state gs cs p"
  shows "collect_requests (gs ! p) (cs ! p) (received_edges gs cs p) = Inr rs"
    and "req_inv dist (length gs) rs"
    and "fst ` set (fst rs)
         = (\<lambda>c. c + 1) ` set (request_clusters (gs ! p) (cs ! p) (received_edges gs cs p))"
    and "build_mapping_requests (gs ! p) (fst rs) (snd rs) = Inr (mapping_requests gs cs p)"
proof -
  note vd = valid_input_dist [OF vi]
  note f = valid_distribution_facts [OF vd p]
  let ?cl = "request_clusters (gs ! p) (cs ! p) (received_edges gs cs p)"
  have "collect_requests (gs ! p) (cs ! p) (received_edges gs cs p)
      = fold_err (request_nonlocal_mapping (gs ! p)) ?cl ([], replicate (length gs + 1) 0)"
    by (simp add: collect_requests_fold f(5))
  also have "\<dots> = Inr (fold (req_step dist) ?cl ([], replicate (length gs + 1) 0))"
  proof (rule fold_err_pure)
    fix c st assume "c \<in> set ?cl"
    from request_clusters_range(1) [OF vi p this]
    show "request_nonlocal_mapping (gs ! p) c st = Inr (req_step dist c st)"
      unfolding dist_def by (rule request_nonlocal_mapping_eq [OF vd p])
  qed
  finally show "collect_requests (gs ! p) (cs ! p) (received_edges gs cs p) = Inr rs"
    by (simp add: rs_def request_state_def dist_def)
  have rng: "\<forall>c \<in> set ?cl. c < last dist \<and> owner_of dist c \<le> length gs"
  proof
    fix c assume "c \<in> set ?cl"
    from request_clusters_range(1) [OF vi p this] have c: "c < last dist" by (simp add: dist_def)
    with owner_lt_size [OF vd, of c] show "c < last dist \<and> owner_of dist c \<le> length gs"
      by (simp add: dist_def)
  qed
  note r = req_fold_inv [OF req_inv_init rng]
  show inv: "req_inv dist (length gs) rs"
    using r(1) by (simp add: rs_def request_state_def dist_def)
  show "fst ` set (fst rs) = (\<lambda>c. c + 1) ` set ?cl"
    using r(2) by (simp add: rs_def request_state_def dist_def)
  have "req_inv (node_distribution (gs ! 0)) (length gs) (fst rs, snd rs)"
    using inv by (simp add: dist_def)
  from build_mapping_requests_eq [OF vd p this]
  show "build_mapping_requests (gs ! p) (fst rs) (snd rs) = Inr (mapping_requests gs cs p)"
    by (simp add: mapping_requests_def rs_def)
qed

text \<open>Every cluster that a process names is a non-empty local cluster of its owner.\<close>

lemma marked_cluster_owned_node:
  assumes vi: "valid_input gs cs" and p: "p < length gs" and u: "u < graph_n (gs ! p)"
  shows "marked_cluster gs cs (cs ! p ! u)"
proof -
  note vd = valid_input_dist [OF vi]
  note f = valid_distribution_facts [OF vd p]
  let ?dist = "node_distribution (gs ! 0)"
  let ?c = "cs ! p ! u"
  let ?q = "owner_of ?dist ?c"
  have ut: "u < total_n (gs ! p)" using u by (simp add: total_n_def)
  have c: "?c < last ?dist" by (rule valid_clustering_facts(3) [OF vi p ut])
  have q: "?q < length gs" by (rule owner_lt_size [OF vd c])
  note fq = valid_distribution_facts [OF vd q]
  note o = owner_of_props [OF f(7) f(8) f(9) c]
  have i: "?c - ?dist ! ?q < graph_n (gs ! ?q)" using o(2,3) fq(3,4) by linarith
  have eq: "offset_n (gs ! ?q) + (?c - ?dist ! ?q) = ?c" using o(2) fq(3) by simp
  show ?thesis
  proof (cases "?q = p")
    case True
    have "\<exists>w < graph_n (gs ! ?q). cs ! ?q ! w = offset_n (gs ! ?q) + (?c - ?dist ! ?q)"
      unfolding eq using u True by auto
    then show ?thesis
      unfolding marked_cluster_def nonempty_local_cluster_def Let_def using i by blast
  next
    case False
    then have no: "\<not> is_owned_global_node (gs ! p) ?c"
      using is_owned_iff_owner [OF vd p c] by simp
    have "GlobalNode ?c (node_weight (gs ! p) u) \<in> set (nonlocal_node_records (gs ! p) (cs ! p))"
      unfolding set_nonlocal_node_records using u no by blast
    then have "GlobalNode ?c (node_weight (gs ! p) u) \<in> set (sent_nodes gs cs ! p)"
      by (simp add: sent_nodes_nth [OF p] sort_node_list_set)
    then have "GlobalNode ?c (node_weight (gs ! p) u) \<in> set (received_nodes gs cs ?q)"
      unfolding received_nodes_def set_routed using p by (auto simp: node_dest_def)
    then have "\<exists>x \<in> set (received_nodes gs cs ?q). gn_u x = offset_n (gs ! ?q) + (?c - ?dist ! ?q)"
      unfolding eq by force
    then show ?thesis
      unfolding marked_cluster_def nonempty_local_cluster_def Let_def using i by blast
  qed
qed

lemma marked_cluster_node:
  assumes vi: "valid_input gs cs" and cg: "consistent_ghosts gs cs"
    and p: "p < length gs" and v: "v < total_n (gs ! p)"
  shows "marked_cluster gs cs (cs ! p ! v)"
proof (cases "v < graph_n (gs ! p)")
  case True
  then show ?thesis by (rule marked_cluster_owned_node [OF vi p])
next
  case False
  note vd = valid_input_dist [OF vi]
  note f = valid_distribution_facts [OF vd p]
  let ?dist = "node_distribution (gs ! 0)"
  let ?i = "v - graph_n (gs ! p)"
  have i: "?i < ghost_n (gs ! p)" using v False by (simp add: total_n_def)
  let ?global = "ghost_to_global (gs ! p) ! ?i"
  from cg p i have "let global = ghost_to_global (gs ! p) ! ?i in
           global < global_n (gs ! p) \<and>
           \<not> is_owned_global_node (gs ! p) global \<and>
           cs ! p ! (graph_n (gs ! p) + ?i) = cluster_of gs cs global"
    unfolding consistent_ghosts_def list_all_upt by blast
  then have gl: "?global < last ?dist" and cl: "cs ! p ! v = cluster_of gs cs ?global"
    using False f(6) by (simp_all add: Let_def)
  let ?q = "owner_of ?dist ?global"
  have q: "?q < length gs" by (rule owner_lt_size [OF vd gl])
  note fq = valid_distribution_facts [OF vd q]
  note o = owner_of_props [OF f(7) f(8) f(9) gl]
  have w: "?global - ?dist ! ?q < graph_n (gs ! ?q)" using o(2,3) fq(3,4) by linarith
  from marked_cluster_owned_node [OF vi q w]
  show ?thesis by (simp add: cl cluster_of_def Let_def)
qed

lemma length_sparse_alltoall_get [simp]: "length (sparse_alltoall_get send) = length send"
  by (simp add: sparse_alltoall_get_def)

lemma sparse_alltoall_get_nth:
  "q < length send \<Longrightarrow> p < length send \<Longrightarrow> sparse_alltoall_get send ! q ! p = send ! p ! q"
  by (simp add: sparse_alltoall_get_def)

lemma length_sparse_alltoall_get_nth [simp]:
  "q < length send \<Longrightarrow> length (sparse_alltoall_get send ! q) = length send"
  by (simp add: sparse_alltoall_get_def)

lemma length_mapping_requests [simp]: "length (mapping_requests gs cs p) = length gs"
  by (simp add: mapping_requests_def)

lemma length_mapping_responses [simp]: "length (mapping_responses gs cs p) = length gs"
  by (simp add: mapping_responses_def)

lemma mapping_requests_owner:
  assumes "q < length gs" "c \<in> set (mapping_requests gs cs p ! q)"
  shows "owner_of (node_distribution (gs ! 0)) c = q"
  using assms by (auto simp: mapping_requests_def requests_of_def key_owner_def)

lemma coarse_global_at_owner:
  assumes vd: "valid_distribution gs" and q: "q < length gs"
    and o: "owner_of (node_distribution (gs ! 0)) c = q"
  shows "coarse_distribution gs cs ! pe_rank (gs ! q)
           + unat (lcnodes gs cs q ! (c - offset_n (gs ! q))) = coarse_global gs cs c"
    and "unat (lcnodes gs cs q ! (c - offset_n (gs ! q)))
           + coarse_distribution gs cs ! pe_rank (gs ! q) = coarse_global gs cs c"
  using valid_distribution_facts(2,3) [OF vd q] o
  by (simp_all add: coarse_global_def Let_def)

lemma mapping_responses_exchange:
  assumes vd: "valid_distribution gs" and p: "p < length gs"
  shows "sparse_alltoall_get
           (map (\<lambda>q. build_mapping_responses (gs ! q) (lcnodes gs cs q) (coarse_distribution gs cs)
                        (sparse_alltoall_get (map (mapping_requests gs cs) [0..<length gs]) ! q))
              [0..<length gs]) ! p
         = mapping_responses gs cs p"
proof (rule nth_equalityI)
  show "length (sparse_alltoall_get
           (map (\<lambda>q. build_mapping_responses (gs ! q) (lcnodes gs cs q) (coarse_distribution gs cs)
                        (sparse_alltoall_get (map (mapping_requests gs cs) [0..<length gs]) ! q))
              [0..<length gs]) ! p) = length (mapping_responses gs cs p)"
    using p by simp
next
  fix q assume "q < length (sparse_alltoall_get
           (map (\<lambda>q. build_mapping_responses (gs ! q) (lcnodes gs cs q) (coarse_distribution gs cs)
                        (sparse_alltoall_get (map (mapping_requests gs cs) [0..<length gs]) ! q))
              [0..<length gs]) ! p)"
  then have q: "q < length gs" using p by simp
  have "sparse_alltoall_get
           (map (\<lambda>q. build_mapping_responses (gs ! q) (lcnodes gs cs q) (coarse_distribution gs cs)
                        (sparse_alltoall_get (map (mapping_requests gs cs) [0..<length gs]) ! q))
              [0..<length gs]) ! p ! q
      = build_mapping_responses (gs ! q) (lcnodes gs cs q) (coarse_distribution gs cs)
          (sparse_alltoall_get (map (mapping_requests gs cs) [0..<length gs]) ! q) ! p"
    using p q by (simp add: sparse_alltoall_get_nth)
  also have "\<dots> = map (\<lambda>global. coarse_distribution gs cs ! pe_rank (gs ! q)
                          + unat (lcnodes gs cs q ! (global - offset_n (gs ! q))))
                     (mapping_requests gs cs p ! q)"
    using p q by (simp add: build_mapping_responses_def sparse_alltoall_get_nth)
  also have "\<dots> = map (coarse_global gs cs) (mapping_requests gs cs p ! q)"
  proof (rule map_cong [OF refl])
    fix c assume "c \<in> set (mapping_requests gs cs p ! q)"
    from mapping_requests_owner [OF q this]
    show "coarse_distribution gs cs ! pe_rank (gs ! q)
           + unat (lcnodes gs cs q ! (c - offset_n (gs ! q))) = coarse_global gs cs c"
      by (rule coarse_global_at_owner(1) [OF vd q])
  qed
  also have "\<dots> = mapping_responses gs cs p ! q"
    using q by (simp add: mapping_responses_def)
  finally show "sparse_alltoall_get
           (map (\<lambda>q. build_mapping_responses (gs ! q) (lcnodes gs cs q) (coarse_distribution gs cs)
                        (sparse_alltoall_get (map (mapping_requests gs cs) [0..<length gs]) ! q))
              [0..<length gs]) ! p ! q = mapping_responses gs cs p ! q" .
qed

lemma echo_exchange:
  assumes vi: "valid_input gs cs" and p: "p < length gs"
  defines "cnt \<equiv> dest_counts (node_dest gs) (sent_nodes gs cs)"
  shows "alltoallv d
           (map (\<lambda>q. build_local_nodes_mapping (gs ! q) (lcnodes gs cs q)
                        (coarse_distribution gs cs) (received_nodes gs cs q)) [0..<length gs])
           (alltoall cnt) (map (\<lambda>c. exclusive_scan c 0) (alltoall cnt))
           (map (\<lambda>c. exclusive_scan c 0) cnt) (map length (sent_nodes gs cs)) ! p
         = echoed gs cs p"
proof -
  note vd = valid_input_dist [OF vi]
  let ?F = "\<lambda>q x. (gn_u x, unat (lcnodes gs cs q ! (gn_u x - offset_n (gs ! q)))
                            + coarse_distribution gs cs ! pe_rank (gs ! q))"
  let ?answers = "map (\<lambda>q. build_local_nodes_mapping (gs ! q) (lcnodes gs cs q)
                        (coarse_distribution gs cs) (received_nodes gs cs q)) [0..<length gs]"
  have p': "p < length (sent_nodes gs cs)" using p by simp
  note f = valid_distribution_facts [OF vd p]
  have "\<forall>x \<in> set (sent_nodes gs cs ! p). gn_u x < last (node_distribution (gs ! 0))"
    using sent_nodes_facts(2) [OF vi p] by blast
  from sorted_map_owner [OF f(7) f(8) f(9) sent_nodes_sorted [OF p] this]
  have srt: "sorted (map (node_dest gs) (sent_nodes gs cs ! p))"
    by (simp add: node_dest_def [abs_def])
  have rng: "\<And>x. x \<in> set (sent_nodes gs cs ! p) \<Longrightarrow> node_dest gs x < length (sent_nodes gs cs)"
    using owner_lt_size [OF vd sent_nodes_facts(2) [OF vi p]] by (simp add: node_dest_def)
  have len: "length ?answers = length (sent_nodes gs cs)" by simp
  have ans: "\<And>q. q < length (sent_nodes gs cs) \<Longrightarrow>
      ?answers ! q = map (?F q) (routed (node_dest gs) (sent_nodes gs cs) q)"
    by (simp add: build_local_nodes_mapping_def received_nodes_def)
  have "alltoallv d ?answers (alltoall cnt) (map (\<lambda>c. exclusive_scan c 0) (alltoall cnt))
           (map (\<lambda>c. exclusive_scan c 0) cnt) (map length (sent_nodes gs cs)) ! p
      = map (\<lambda>x. ?F (node_dest gs x) x) (sent_nodes gs cs ! p)"
    unfolding cnt_def by (rule alltoallv_echo [OF p' srt rng len ans])
  also have "\<dots> = echoed gs cs p"
    unfolding echoed_def
  proof (rule map_cong [OF refl])
    fix x assume x: "x \<in> set (sent_nodes gs cs ! p)"
    have q: "node_dest gs x < length gs" using rng [OF x] by simp
    have "owner_of (node_distribution (gs ! 0)) (gn_u x) = node_dest gs x"
      by (simp add: node_dest_def)
    from coarse_global_at_owner(2) [OF vd q this]
    show "?F (node_dest gs x) x = (gn_u x, coarse_global gs cs (gn_u x))" by simp
  qed
  finally show ?thesis .
qed

lemma map_of_map_insert: "map_of (map_insert m k v) = map_of (m @ [(k, v)])"
  by (rule ext) (auto simp: map_insert_def map_add_def split: option.splits)

lemma fold_map_insert:
  "map_of (fold (\<lambda>(k, v) m. map_insert m k v) xs m) = map_of (m @ xs)"
proof (induction xs arbitrary: m)
  case Nil
  then show ?case by simp
next
  case (Cons x xs)
  obtain k v where x: "x = (k, v)" by (cases x)
  have "map_of (fold (\<lambda>(k, v) m. map_insert m k v) (x # xs) m)
      = map_of (map_insert m k v @ xs)" by (simp add: x Cons.IH)
  also have "\<dots> = map_of xs ++ map_of (map_insert m k v)" by simp
  also have "\<dots> = map_of xs ++ map_of (m @ [(k, v)])" by (simp only: map_of_map_insert)
  also have "\<dots> = map_of (m @ x # xs)" by (simp add: x)
  finally show ?case .
qed

lemma fold_map_list: "fold f (map h xs) s = fold (\<lambda>x. f (h x)) xs s"
  by (induction xs arbitrary: s) simp_all

lemma map_of_insert_echoed_mappings:
  "map_of (insert_echoed_mappings g rsps m)
   = map_of (m @ map (\<lambda>(c, gcn). (c + 1, global_n g + gcn + 1)) rsps)"
proof -
  have "insert_echoed_mappings g rsps m
      = fold (\<lambda>(k, v) m. map_insert m k v)
          (map (\<lambda>(c, gcn). (c + 1, global_n g + gcn + 1)) rsps) m"
    unfolding insert_echoed_mappings_def fold_map_list
    by (rule fold_cong_set) (simp add: case_prod_beta)
  then show ?thesis by (simp only: fold_map_insert)
qed

lemma map_of_image_const:
  assumes "\<exists>x \<in> set xs. f x = k" "\<forall>x \<in> set xs. f x = k \<longrightarrow> h x = y"
  shows "map_of (map (\<lambda>x. (f x, h x)) xs) k = Some y"
  using assms by (induction xs) auto

lemma map_of_present:
  assumes "distinct (map fst m)" "(k, v) \<in> set m"
  shows "map_of (m @ xs) k = Some v"
  using assms by (simp add: map_add_def)

lemma cluster_index_requested:
  assumes vi: "valid_input gs cs" and p: "p < length gs"
    and c: "c \<in> set (request_clusters (gs ! p) (cs ! p) (received_edges gs cs p))"
  defines "ow \<equiv> owner_of (node_distribution (gs ! 0)) c"
  shows "\<exists>v. map_of (cluster_index gs cs p) (c + 1) = Some v \<and>
              v - 1 < last (node_distribution (gs ! 0)) \<and>
              v - 1 < length (mapping_requests gs cs p ! ow) \<and>
              mapping_requests gs cs p ! ow ! (v - 1) = c \<and>
              mapping_responses gs cs p ! ow ! (v - 1) = coarse_global gs cs c"
proof -
  note vd = valid_input_dist [OF vi]
  note f = valid_distribution_facts [OF vd p]
  note r = request_state_facts [OF vi p]
  let ?dist = "node_distribution (gs ! 0)"
  obtain m nxt where rs: "request_state gs cs p = (m, nxt)" by (cases "request_state gs cs p")
  have inv: "req_inv ?dist (length gs) (m, nxt)" using r(2) by (simp add: rs)
  from c r(3) have "c + 1 \<in> fst ` set m" by (simp add: rs)
  then obtain v where v: "(c + 1, v) \<in> set m" by force
  have cl: "c < last ?dist" by (rule request_clusters_range(1) [OF vi p c])
  have ko: "key_owner ?dist (c + 1, v) = ow" by (simp add: key_owner_def ow_def)
  have ko': "key_owner ?dist (Suc c, v) = ow" by (simp add: key_owner_def ow_def)
  have ow: "ow < length gs" unfolding ow_def by (rule owner_lt_size [OF vd cl])
  have kl: "key_owner ?dist (c + 1, v) < length gs" using ko ow by simp
  note e = req_inv_entry [OF inv v kl]
  have d: "distinct (map fst m)" using inv by (simp add: req_inv_def)
  have 1: "map_of (cluster_index gs cs p) (c + 1) = Some v"
    unfolding cluster_index_def map_of_insert_echoed_mappings rs fst_conv
    by (rule map_of_present [OF d v])
  have 2: "v - 1 < last ?dist"
    by (rule req_inv_index_bound [OF f(7) f(8) f(9) inv v f(10)])
  have 3: "v - 1 < length (mapping_requests gs cs p ! ow)"
    using e(3) by (simp add: mapping_requests_def rs ko')
  have 4: "mapping_requests gs cs p ! ow ! (v - 1) = c"
    using e(4) by (simp add: mapping_requests_def rs ko')
  have 5: "mapping_responses gs cs p ! ow ! (v - 1) = coarse_global gs cs c"
    using 3 4 ow by (simp add: mapping_responses_def)
  from 1 2 3 4 5 show ?thesis by blast
qed

lemma cluster_index_echoed:
  assumes vi: "valid_input gs cs" and p: "p < length gs" and u: "u < graph_n (gs ! p)"
    and no: "\<not> is_owned_global_node (gs ! p) (cs ! p ! u)"
    and nr: "cs ! p ! u \<notin> set (request_clusters (gs ! p) (cs ! p) (received_edges gs cs p))"
  shows "map_of (cluster_index gs cs p) (cs ! p ! u + 1)
         = Some (global_n (gs ! p) + coarse_global gs cs (cs ! p ! u) + 1)"
proof -
  note r = request_state_facts [OF vi p]
  let ?c = "cs ! p ! u"
  let ?m = "fst (request_state gs cs p)"
  have "?c + 1 \<notin> fst ` set ?m" using nr r(3) by auto
  then have none: "map_of ?m (Suc ?c) = None" by (simp add: map_of_eq_None_iff)
  have "GlobalNode ?c (node_weight (gs ! p) u) \<in> set (nonlocal_node_records (gs ! p) (cs ! p))"
    unfolding set_nonlocal_node_records using u no by blast
  then have mem: "GlobalNode ?c (node_weight (gs ! p) u) \<in> set (sent_nodes gs cs ! p)"
    by (simp add: sent_nodes_nth [OF p] sort_node_list_set)
  have eq: "map (\<lambda>(c, gcn). (c + 1, global_n (gs ! p) + gcn + 1)) (echoed gs cs p)
      = map (\<lambda>x. (gn_u x + 1, global_n (gs ! p) + coarse_global gs cs (gn_u x) + 1))
          (sent_nodes gs cs ! p)"
    by (simp add: echoed_def)
  have "map_of (map (\<lambda>x. (gn_u x + 1, global_n (gs ! p) + coarse_global gs cs (gn_u x) + 1))
          (sent_nodes gs cs ! p)) (?c + 1)
      = Some (global_n (gs ! p) + coarse_global gs cs ?c + 1)"
  proof (rule map_of_image_const)
    show "\<exists>x \<in> set (sent_nodes gs cs ! p). gn_u x + 1 = ?c + 1"
      using mem by force
    show "\<forall>x \<in> set (sent_nodes gs cs ! p). gn_u x + 1 = ?c + 1 \<longrightarrow>
        global_n (gs ! p) + coarse_global gs cs (gn_u x) + 1
        = global_n (gs ! p) + coarse_global gs cs ?c + 1" by simp
  qed
  then show ?thesis
    unfolding cluster_index_def map_of_insert_echoed_mappings eq
    by (simp add: map_add_def none)
qed

lemma map_node_eq:
  assumes vi: "valid_input gs cs" and p: "p < length gs" and u: "u < graph_n (gs ! p)"
  shows "map_node (gs ! p) (cs ! p) (lcnodes gs cs p) (coarse_distribution gs cs)
           (cluster_index gs cs p) (mapping_responses gs cs p) u
         = Inr (coarse_global gs cs (cs ! p ! u))"
proof -
  note vd = valid_input_dist [OF vi]
  note f = valid_distribution_facts [OF vd p]
  let ?dist = "node_distribution (gs ! 0)"
  let ?c = "cs ! p ! u"
  have ut: "u < total_n (gs ! p)" using u by (simp add: total_n_def)
  have c: "?c < last ?dist" by (rule valid_clustering_facts(3) [OF vi p ut])
  have mk: "marked_cluster gs cs ?c" by (rule marked_cluster_owned_node [OF vi p u])
  have bound: "coarse_global gs cs ?c < last (coarse_distribution gs cs)"
    by (rule coarse_global_range(3) [OF vi c mk])
  have inner: "(if is_owned_global_node (gs ! p) ?c
         then Inr (unat (lcnodes gs cs p ! (?c - offset_n (gs ! p)))
                   + coarse_distribution gs cs ! pe_rank (gs ! p))
         else (case map_of (cluster_index gs cs p) (?c + 1) of
                 None \<Rightarrow> Inl AssertionFailure
               | Some v \<Rightarrow>
                   if v - 1 < global_n (gs ! p)
                   then bind_err (find_owner_of_global_node (gs ! p) ?c) (\<lambda>owner.
                          Inr (mapping_responses gs cs p ! owner ! (v - 1)))
                   else Inr (v - 1 - global_n (gs ! p))))
       = Inr (coarse_global gs cs ?c)"
  proof (cases "is_owned_global_node (gs ! p) ?c")
    case True
    then have "owner_of ?dist ?c = p" using is_owned_iff_owner [OF vd p c] by simp
    from coarse_global_at_owner(2) [OF vd p this] True show ?thesis by simp
  next
    case False
    show ?thesis
    proof (cases "?c \<in> set (request_clusters (gs ! p) (cs ! p) (received_edges gs cs p))")
      case True
      from cluster_index_requested [OF vi p True]
      obtain v where v: "map_of (cluster_index gs cs p) (?c + 1) = Some v"
        "v - 1 < last ?dist"
        "mapping_responses gs cs p ! owner_of ?dist ?c ! (v - 1) = coarse_global gs cs ?c"
        by blast
      show ?thesis
        using False v find_owner_valid [OF vd p c] by (simp add: f(6) Let_def)
    next
      case nr: False
      from cluster_index_echoed [OF vi p u False nr] False show ?thesis
        by (simp add: Let_def)
    qed
  qed
  show ?thesis
    unfolding map_node_def Let_def inner using bound by (simp add: kassert_def)
qed

lemma build_lnode_to_gcnode_eq:
  assumes vi: "valid_input gs cs" and p: "p < length gs"
  shows "build_lnode_to_gcnode (gs ! p) (cs ! p) (lcnodes gs cs p) (coarse_distribution gs cs)
           (cluster_index gs cs p) (mapping_responses gs cs p)
         = Inr (map (\<lambda>u. coarse_global gs cs (cs ! p ! u)) [0..<graph_n (gs ! p)])"
  unfolding build_lnode_to_gcnode_def
  by (rule map_err_pure) (simp add: map_node_eq [OF vi p])

section \<open>The buckets of the coarse nodes\<close>

text \<open>Counting sort: counting the keys, scanning the counts and filling the buckets from
  the back.\<close>

lemma length_filter_less_Suc:
  "length (filter (\<lambda>x. k x < Suc c) xs)
   = length (filter (\<lambda>x. k x < c) xs) + length (filter (\<lambda>x. (k x :: nat) = c) xs)"
  by (induction xs) auto

lemma length_filter_less_mono:
  "c \<le> c' \<Longrightarrow> length (filter (\<lambda>x. (k x :: nat) < c) xs) \<le> length (filter (\<lambda>x. k x < c') xs)"
  by (induction xs) auto

lemma sum_counts_less:
  "sum_list (map (\<lambda>c. length (filter (\<lambda>x. (k x :: nat) = c) xs)) [0..<c])
   = length (filter (\<lambda>x. k x < c) xs)"
  by (induction c) (simp_all add: length_filter_less_Suc)

lemma prefix_sum_counts:
  "prefix_sum (map (\<lambda>c. length (filter (\<lambda>x. (k x :: nat) = c) xs)) [0..<K])
   = map (\<lambda>c. length (filter (\<lambda>x. k x < Suc c) xs)) [0..<K]"
proof (rule nth_equalityI)
  show "length (prefix_sum (map (\<lambda>c. length (filter (\<lambda>x. k x = c) xs)) [0..<K]))
      = length (map (\<lambda>c. length (filter (\<lambda>x. k x < Suc c) xs)) [0..<K])" by simp
next
  fix i assume "i < length (prefix_sum (map (\<lambda>c. length (filter (\<lambda>x. k x = c) xs)) [0..<K]))"
  then have i: "i < K" by simp
  have "prefix_sum (map (\<lambda>c. length (filter (\<lambda>x. k x = c) xs)) [0..<K]) ! i
      = sum_list (take (Suc i) (map (\<lambda>c. length (filter (\<lambda>x. k x = c) xs)) [0..<K]))"
    using i by (simp add: prefix_sum_nth)
  also have "\<dots> = sum_list (map (\<lambda>c. length (filter (\<lambda>x. k x = c) xs)) [0..<Suc i])"
    using i by (intro sum_list_take_upt) simp
  also have "\<dots> = length (filter (\<lambda>x. k x < Suc i) xs)" by (rule sum_counts_less)
  finally show "prefix_sum (map (\<lambda>c. length (filter (\<lambda>x. k x = c) xs)) [0..<K]) ! i
      = map (\<lambda>c. length (filter (\<lambda>x. k x < Suc c) xs)) [0..<K] ! i"
    using i by simp
qed

lemma length_filter_all:
  "\<forall>x \<in> set xs. P x \<Longrightarrow> length (filter P xs) = length xs"
  by (induction xs) auto

lemma counting_fill_invariant:
  fixes xs :: "'a list" and k :: "'a \<Rightarrow> nat" and d :: "'a"
  assumes keys: "\<forall>x \<in> set xs. k x < K" and j: "j \<le> length xs"
  defines "S \<equiv> \<lambda>c. length (filter (\<lambda>x. k x < c) xs)"
  defines "cj \<equiv> \<lambda>c. length (filter (\<lambda>x. k x = c) (take j xs))"
  defines "st \<equiv> fold (\<lambda>x (pos, B). (pos[k x := pos ! k x - 1], B[pos ! k x - 1 := x]))
                  (take j xs) (map (\<lambda>c. S (Suc c)) [0..<K], replicate (S K) d)"
  shows "fst st = map (\<lambda>c. S (Suc c) - cj c) [0..<K]"
    and "length (snd st) = S K"
    and "\<forall>c < K. \<forall>r < cj c. snd st ! (S (Suc c) - 1 - r) = filter (\<lambda>x. k x = c) (take j xs) ! r"
  using j unfolding st_def cj_def
proof (induction j)
  case 0
  {
    case 1 show ?case by simp
  next
    case 2 show ?case by simp
  next
    case 3 show ?case by simp
  }
next
  case (Suc j)
  let ?step = "\<lambda>x (pos, B). (pos[k x := pos ! k x - 1], B[pos ! k x - 1 := x])"
  let ?init = "(map (\<lambda>c. S (Suc c)) [0..<K], replicate (S K) d)"
  let ?cj = "\<lambda>c. length (filter (\<lambda>x. k x = c) (take j xs))"
  let ?cj' = "\<lambda>c. length (filter (\<lambda>x. k x = c) (take (Suc j) xs))"
  let ?x = "xs ! j"
  let ?c0 = "k ?x"
  define stj where "stj = fold ?step (take j xs) ?init"
  obtain pos B where st: "stj = (pos, B)" by (cases stj)
  {
    assume sj: "Suc j \<le> length xs"
    then have jl: "j < length xs" and jle: "j \<le> length xs" by simp_all
    have tk: "take (Suc j) xs = take j xs @ [xs ! j]"
      using jl by (simp add: take_Suc_conv_app_nth)
    have nxt: "fold ?step (take (Suc j) xs) ?init = (pos[?c0 := pos ! ?c0 - 1], B[pos ! ?c0 - 1 := ?x])"
      unfolding tk fold_append comp_apply stj_def [symmetric] st by simp
    have pos: "pos = map (\<lambda>c. S (Suc c) - ?cj c) [0..<K]"
      using Suc.IH(1) [OF jle, folded stj_def] by (simp add: st)
    have lenB: "length B = S K" using Suc.IH(2) [OF jle, folded stj_def] by (simp add: st)
    have IH3: "\<forall>c < K. \<forall>r < ?cj c. B ! (S (Suc c) - 1 - r) = filter (\<lambda>x. k x = c) (take j xs) ! r"
      using Suc.IH(3) [OF jle, folded stj_def] by (simp add: st)
    have kx: "?c0 < K" using keys jl by simp
    have posc0: "pos ! ?c0 - 1 = S (Suc ?c0) - 1 - ?cj ?c0" using kx by (simp add: pos)
    have xsplit: "xs = take j xs @ ?x # drop (Suc j) xs"
      using jl by (metis id_take_nth_drop)
    have cnt_le: "\<And>c. ?cj c \<le> length (filter (\<lambda>x. k x = c) xs)"
    proof -
      fix c
      have "length (filter (\<lambda>x. k x = c) xs)
          = length (filter (\<lambda>x. k x = c) (take j xs @ ?x # drop (Suc j) xs))"
        using xsplit by simp
      then show "?cj c \<le> length (filter (\<lambda>x. k x = c) xs)" by simp
    qed
    have cnt_lt: "?cj ?c0 < length (filter (\<lambda>x. k x = ?c0) xs)"
    proof -
      have "length (filter (\<lambda>x. k x = ?c0) xs)
          = length (filter (\<lambda>x. k x = ?c0) (take j xs @ ?x # drop (Suc j) xs))"
        using xsplit by simp
      then show ?thesis by simp
    qed
    have SS: "\<And>c. S (Suc c) = S c + length (filter (\<lambda>x. k x = c) xs)"
      unfolding S_def by (rule length_filter_less_Suc)
    have Smono: "\<And>c c'. c \<le> c' \<Longrightarrow> S c \<le> S c'"
      unfolding S_def by (rule length_filter_less_mono)
    have w_lt: "S (Suc ?c0) - 1 - ?cj ?c0 < length B"
    proof -
      have "S (Suc ?c0) \<le> S K" using kx by (intro Smono) simp
      moreover have "0 < S (Suc ?c0)" using SS [of ?c0] cnt_lt by linarith
      ultimately show ?thesis using lenB by simp
    qed
    have g1: "fst (fold ?step (take (Suc j) xs) ?init) = map (\<lambda>c. S (Suc c) - ?cj' c) [0..<K]"
      unfolding nxt fst_conv
      by (rule nth_equalityI) (auto simp: pos tk nth_list_update kx)
    have g2: "length (snd (fold ?step (take (Suc j) xs) ?init)) = S K"
      unfolding nxt snd_conv using lenB by simp
    have g3: "\<forall>c < K. \<forall>r < ?cj' c. snd (fold ?step (take (Suc j) xs) ?init) ! (S (Suc c) - 1 - r)
          = filter (\<lambda>x. k x = c) (take (Suc j) xs) ! r"
    proof (intro allI impI)
      fix c r assume c: "c < K" and r: "r < ?cj' c"
      show "snd (fold ?step (take (Suc j) xs) ?init) ! (S (Suc c) - 1 - r)
          = filter (\<lambda>x. k x = c) (take (Suc j) xs) ! r"
      proof (cases "c = ?c0 \<and> r = ?cj ?c0")
        case True
        then show ?thesis unfolding nxt snd_conv posc0 using w_lt by (simp add: tk nth_append)
      next
        case False
        have rj: "r < ?cj c" using r False by (auto simp: tk split: if_splits)
        have ne: "S (Suc c) - 1 - r \<noteq> S (Suc ?c0) - 1 - ?cj ?c0"
        proof (cases "c = ?c0")
          case True
          with False have "r \<noteq> ?cj ?c0" by simp
          moreover have "r < S (Suc ?c0)" "?cj ?c0 < S (Suc ?c0)"
            using rj cnt_lt SS [of ?c0] True by simp_all
          ultimately show ?thesis using True by simp
        next
          case cne: False
          have lo: "S c \<le> S (Suc c) - 1 - r" and hi: "S (Suc c) - 1 - r < S (Suc c)"
            using rj cnt_le [of c] SS [of c] by simp_all
          have lo0: "S ?c0 \<le> S (Suc ?c0) - 1 - ?cj ?c0"
            and hi0: "S (Suc ?c0) - 1 - ?cj ?c0 < S (Suc ?c0)"
            using cnt_lt SS [of ?c0] by simp_all
          show ?thesis
          proof (cases "c < ?c0")
            case True
            then have "S (Suc c) \<le> S ?c0" by (intro Smono) simp
            with hi lo0 show ?thesis by simp
          next
            case False
            with cne have "S (Suc ?c0) \<le> S c" by (intro Smono) simp
            with hi0 lo show ?thesis by simp
          qed
        qed
        have "snd (fold ?step (take (Suc j) xs) ?init) ! (S (Suc c) - 1 - r)
            = B ! (S (Suc c) - 1 - r)"
          unfolding nxt snd_conv posc0 using ne by simp
        also have "\<dots> = filter (\<lambda>x. k x = c) (take j xs) ! r" using IH3 c rj by blast
        also have "\<dots> = filter (\<lambda>x. k x = c) (take (Suc j) xs) ! r"
          using rj by (simp add: tk nth_append)
        finally show ?thesis .
      qed
    qed
    note g1 g2 g3
  }
  note g = this
  {
    case 1 then show ?case by (rule g(1))
  next
    case 2 then show ?case by (rule g(2))
  next
    case 3 then show ?case by (rule g(3))
  }
qed

lemma counting_fill:
  fixes xs :: "'a list" and k :: "'a \<Rightarrow> nat" and d :: "'a"
  assumes keys: "\<forall>x \<in> set xs. k x < K"
  defines "S \<equiv> \<lambda>c. length (filter (\<lambda>x. k x < c) xs)"
  defines "st \<equiv> fold (\<lambda>x (pos, B). (pos[k x := pos ! k x - 1], B[pos ! k x - 1 := x]))
                  xs (map (\<lambda>c. S (Suc c)) [0..<K], replicate (S K) d)"
  shows "fst st = map S [0..<K]"
    and "length (snd st) = length xs"
    and "\<And>c. c < K \<Longrightarrow> map (\<lambda>i. snd st ! i) [S c..<S (Suc c)] = rev (filter (\<lambda>x. k x = c) xs)"
proof -
  note inv0 = counting_fill_invariant [OF keys order_refl, of d]
  have SS: "\<And>c. S (Suc c) = S c + length (filter (\<lambda>x. k x = c) xs)"
    unfolding S_def by (rule length_filter_less_Suc)
  have inv1: "fst st = map (\<lambda>c. S (Suc c) - length (filter (\<lambda>x. k x = c) xs)) [0..<K]"
    using inv0(1) unfolding st_def S_def by simp
  have inv2: "length (snd st) = S K"
    using inv0(2) unfolding st_def S_def by simp
  have inv3: "\<forall>c < K. \<forall>r < length (filter (\<lambda>x. k x = c) xs).
      snd st ! (S (Suc c) - 1 - r) = filter (\<lambda>x. k x = c) xs ! r"
    using inv0(3) unfolding st_def S_def by simp
  show "fst st = map S [0..<K]" using inv1 by (simp add: SS)
  have "S K = length xs" unfolding S_def by (rule length_filter_all [OF keys])
  then show "length (snd st) = length xs" using inv2 by simp
  fix c assume c: "c < K"
  let ?f = "filter (\<lambda>x. k x = c) xs"
  show "map (\<lambda>i. snd st ! i) [S c..<S (Suc c)] = rev ?f"
  proof (rule nth_equalityI)
    show "length (map (\<lambda>i. snd st ! i) [S c..<S (Suc c)]) = length (rev ?f)"
      by (simp add: SS)
  next
    fix i assume "i < length (map (\<lambda>i. snd st ! i) [S c..<S (Suc c)])"
    then have i: "i < length ?f" by (simp add: SS)
    then have r: "length ?f - 1 - i < length ?f" by simp
    have "map (\<lambda>i. snd st ! i) [S c..<S (Suc c)] ! i = snd st ! (S c + i)"
      using i by (simp add: SS)
    also have "S c + i = S (Suc c) - 1 - (length ?f - 1 - i)" using i by (simp add: SS)
    also have "snd st ! \<dots> = ?f ! (length ?f - 1 - i)" using inv3 c r by blast
    also have "\<dots> = rev ?f ! i" using i by (simp add: rev_nth)
    finally show "map (\<lambda>i. snd st ! i) [S c..<S (Suc c)] ! i = rev ?f ! i" .
  qed
qed

lemma fold_err_pure_inv:
  assumes "I s"
    and "\<And>x s. x \<in> set xs \<Longrightarrow> I s \<Longrightarrow> f x s = Inr (h x s) \<and> I (h x s)"
  shows "fold_err f xs s = Inr (fold h xs s) \<and> I (fold h xs s)"
  using assms
proof (induction xs arbitrary: s)
  case Nil
  then show ?case by simp
next
  case (Cons x xs)
  from Cons.prems(2) [of x s] Cons.prems(1)
  have 1: "f x s = Inr (h x s)" and 2: "I (h x s)" by simp_all
  from Cons.IH [OF 2] Cons.prems(2)
  have "fold_err f xs (h x s) = Inr (fold h xs (h x s)) \<and> I (fold h xs (h x s))" by simp
  then show ?case by (simp add: 1)
qed

lemma fold_filter_list:
  "fold (\<lambda>x s. if c x then f x s else s) xs s = fold f (filter c xs) s"
  by (induction xs arbitrary: s) simp_all

lemma build_node_buckets_eq:
  fixes g :: graph and cm :: "NodeID list" and cl :: "nat list" and le :: "GlobalEdge list"
  defines "items \<equiv> bucket_items g cl le"
  defines "key \<equiv> bucket_key g cm cl le"
  assumes keys: "\<forall>x \<in> set items. key x < c_n"
  shows "\<exists>bpb B. build_node_buckets g cm c_n le cl = Inr (bpb, B) \<and>
           bpb = map (bucket_start g cm cl le) [0..<c_n + 1] \<and>
           length B = length items \<and>
           (\<forall>c \<le> c_n. map (\<lambda>i. B ! i) [bucket_start g cm cl le c..<bucket_start g cm cl le (Suc c)]
                        = bucket g cm cl le c)"
proof -
  let ?K = "c_n + 1"
  let ?home = "filter (\<lambda>u. is_owned_global_node g (cl ! u)) [0..<graph_n g]"
  let ?blocks = "map (\<lambda>i. graph_n g + i) (filter (starts_block le) [0..<length le])"
  let ?inc = "\<lambda>x (cnt :: nat list). cnt[key x := cnt ! key x + 1]"
  let ?step = "\<lambda>x (pos, B). (pos[key x := pos ! key x - 1], B[pos ! key x - 1 := x])"
  let ?S = "\<lambda>c. length (filter (\<lambda>x. key x < c) items)"
  have items: "items = ?home @ ?blocks" by (simp add: items_def bucket_items_def)
  have keyK: "\<forall>x \<in> set items. key x < ?K" using keys by auto
  have key_home: "\<And>u. u < graph_n g \<Longrightarrow> key u = unat (cm ! (cl ! u - offset_n g))"
    by (simp add: key_def bucket_key_def)
  have key_block: "\<And>i. key (graph_n g + i) = ge_u (le ! i)"
    by (simp add: key_def bucket_key_def)
  \<comment> \<open>counting the home nodes\<close>
  let ?f1 = "\<lambda>u bpb.
            let cluster = cl ! u in
            if is_owned_global_node g cluster
            then let c_u = unat (cm ! (cluster - offset_n g)) in
                 bind_err (kassert (c_u < length bpb)) (\<lambda>_. Inr (bpb[c_u := bpb ! c_u + 1]))
            else Inr bpb"
  let ?h1 = "\<lambda>u bpb. if is_owned_global_node g (cl ! u) then ?inc u bpb else bpb"
  have c1: "fold_err ?f1 [0..<graph_n g] (replicate ?K 0)
        = Inr (fold ?h1 [0..<graph_n g] (replicate ?K 0))
        \<and> length (fold ?h1 [0..<graph_n g] (replicate ?K 0)) = ?K"
  proof (rule fold_err_pure_inv [where I = "\<lambda>bpb. length bpb = ?K"])
    show "length (replicate ?K (0::nat)) = ?K" by simp
  next
    fix u and bpb :: "nat list"
    assume u: "u \<in> set [0..<graph_n g]" and len: "length bpb = ?K"
    show "?f1 u bpb = Inr (?h1 u bpb) \<and> length (?h1 u bpb) = ?K"
    proof (cases "is_owned_global_node g (cl ! u)")
      case True
      then have "u \<in> set items" using u by (simp add: items)
      with keyK have "key u < ?K" by blast
      then show ?thesis using True u len by (simp add: Let_def key_home kassert_def)
    next
      case False
      then show ?thesis using len by (simp add: Let_def)
    qed
  qed
  define bpb1 where "bpb1 = fold ?inc ?home (replicate ?K 0)"
  have bpb1: "fold ?h1 [0..<graph_n g] (replicate ?K 0) = bpb1"
    unfolding bpb1_def by (rule fold_filter_list)
  \<comment> \<open>counting the blocks\<close>
  let ?h2 = "\<lambda>i bpb. if starts_block le i
                       then bpb[ge_u (le ! i) := bpb ! ge_u (le ! i) + 1] else bpb"
  have "fold ?h2 [0..<length le] bpb1
      = fold (\<lambda>i s. if starts_block le i then ?inc (graph_n g + i) s else s) [0..<length le] bpb1"
    by (rule fold_cong_set) (simp add: key_block)
  also have "\<dots> = fold (\<lambda>i. ?inc (graph_n g + i)) (filter (starts_block le) [0..<length le]) bpb1"
    by (rule fold_filter_list)
  also have "\<dots> = fold ?inc ?blocks bpb1" by (simp add: fold_map_list)
  also have "\<dots> = fold ?inc items (replicate ?K 0)" by (simp add: items bpb1_def)
  also have "\<dots> = map (\<lambda>c. length (filter (\<lambda>x. key x = c) items)) [0..<?K]"
    by (rule histogram_fold_zero [OF keyK])
  finally have bpb2: "fold ?h2 [0..<length le] bpb1
      = map (\<lambda>c. length (filter (\<lambda>x. key x = c) items)) [0..<?K]" .
  have pos0: "prefix_sum (fold ?h2 [0..<length le] bpb1) = map (\<lambda>c. ?S (Suc c)) [0..<?K]"
    unfolding bpb2 by (rule prefix_sum_counts)
  have last0: "(if map (\<lambda>c. ?S (Suc c)) [0..<?K] = [] then 0
               else last (map (\<lambda>c. ?S (Suc c)) [0..<?K])) = ?S ?K"
    by (simp add: last_map)
  \<comment> \<open>filling the buckets\<close>
  let ?g1 = "\<lambda>u (bpb, buckets).
               if is_owned_global_node g (cl ! u)
               then (bpb[unat (cm ! (cl ! u - offset_n g))
                           := bpb ! unat (cm ! (cl ! u - offset_n g)) - 1],
                     buckets[bpb ! unat (cm ! (cl ! u - offset_n g)) - 1 := u])
               else (bpb, buckets)"
  let ?g2 = "\<lambda>i (bpb, buckets).
               if starts_block le i
               then (bpb[ge_u (le ! i) := bpb ! ge_u (le ! i) - 1],
                     buckets[bpb ! ge_u (le ! i) - 1 := graph_n g + i])
               else (bpb, buckets)"
  have f1: "\<And>s. fold ?g1 [0..<graph_n g] s = fold ?step ?home s"
  proof -
    fix s :: "nat list \<times> nat list"
    have "fold ?g1 [0..<graph_n g] s
        = fold (\<lambda>u s. if is_owned_global_node g (cl ! u) then ?step u s else s) [0..<graph_n g] s"
      by (rule fold_cong_set) (auto simp: Let_def key_home split: prod.splits)
    then show "fold ?g1 [0..<graph_n g] s = fold ?step ?home s"
      by (simp only: fold_filter_list)
  qed
  have f2: "\<And>s. fold ?g2 [0..<length le] s = fold ?step ?blocks s"
  proof -
    fix s :: "nat list \<times> nat list"
    have "fold ?g2 [0..<length le] s
        = fold (\<lambda>i s. if starts_block le i then ?step (graph_n g + i) s else s) [0..<length le] s"
      by (rule fold_cong_set) (auto simp: Let_def key_block split: prod.splits)
    also have "\<dots> = fold (\<lambda>i. ?step (graph_n g + i)) (filter (starts_block le) [0..<length le]) s"
      by (rule fold_filter_list)
    also have "\<dots> = fold ?step ?blocks s" by (simp only: fold_map_list)
    finally show "fold ?g2 [0..<length le] s = fold ?step ?blocks s" .
  qed
  define st where "st = fold ?step items (map (\<lambda>c. ?S (Suc c)) [0..<?K], replicate (?S ?K) 0)"
  have fill: "fold ?g2 [0..<length le]
                (fold ?g1 [0..<graph_n g] (map (\<lambda>c. ?S (Suc c)) [0..<?K], replicate (?S ?K) 0)) = st"
    unfolding f1 f2 st_def items by simp
  have run: "build_node_buckets g cm c_n le cl = Inr st"
    unfolding build_node_buckets_def
    apply (rule bind_err_InrI [OF conjunct1 [OF c1]])
    apply (simp only: bpb1 Let_def pos0 last0 fill)
    done
  note cf = counting_fill [OF keyK, where d = 0, folded st_def]
  have start: "\<And>c. ?S c = bucket_start g cm cl le c"
    by (simp add: bucket_start_def items_def key_def)
  obtain bpb B where stp: "st = (bpb, B)" by (cases st)
  show ?thesis
  proof (intro exI conjI allI impI)
    show "build_node_buckets g cm c_n le cl = Inr (bpb, B)" using run stp by simp
    show "bpb = map (bucket_start g cm cl le) [0..<c_n + 1]"
      using cf(1) stp by (simp add: bucket_start_def [abs_def] items_def key_def)
    show "length B = length items" using cf(2) stp by simp
    fix c assume "c \<le> c_n"
    then have "c < ?K" by simp
    from cf(3) [OF this] stp
    show "map (\<lambda>i. B ! i) [bucket_start g cm cl le c..<bucket_start g cm cl le (Suc c)]
        = bucket g cm cl le c"
      by (simp add: bucket_start_def bucket_def items_def key_def)
  qed
qed

section \<open>The coarse ghost directory\<close>

lemma fold_segments:
  fixes seg :: "nat \<Rightarrow> 'a list"
  defines "off \<equiv> \<lambda>k. sum_list (map (\<lambda>j. length (seg j)) [0..<k])"
  shows "fold (\<lambda>pe s. fold (\<lambda>i. f (off pe + i) (seg pe ! i)) [0..<length (seg pe)] s) [0..<k] s
         = fold (\<lambda>j. f j (concat (map seg [0..<k]) ! j)) [0..<off k] s"
proof (induction k)
  case 0
  then show ?case by (simp add: off_def)
next
  case (Suc k)
  have len: "length (concat (map seg [0..<k])) = off k"
    by (simp add: off_def length_concat comp_def)
  have offS: "off (Suc k) = off k + length (seg k)" by (simp add: off_def)
  have shift: "[off k..<off k + length (seg k)] = map (\<lambda>i. off k + i) [0..<length (seg k)]"
    by (rule nth_equalityI) simp_all
  have "[0..<off k + length (seg k)] = [0..<off k] @ [off k..<off k + length (seg k)]"
    by (rule upt_add_eq_append) simp
  then have split: "[0..<off (Suc k)] = [0..<off k] @ map (\<lambda>i. off k + i) [0..<length (seg k)]"
    by (simp only: offS shift)
  have a: "fold (\<lambda>j. f j (concat (map seg [0..<Suc k]) ! j)) [0..<off k] s
      = fold (\<lambda>j. f j (concat (map seg [0..<k]) ! j)) [0..<off k] s"
    by (rule fold_cong_set) (simp add: nth_append len)
  have b: "\<And>t. fold (\<lambda>j. f j (concat (map seg [0..<Suc k]) ! j))
               (map (\<lambda>i. off k + i) [0..<length (seg k)]) t
      = fold (\<lambda>i. f (off k + i) (seg k ! i)) [0..<length (seg k)] t"
    unfolding fold_map_list by (rule fold_cong_set) (simp add: nth_append len)
  have "fold (\<lambda>j. f j (concat (map seg [0..<Suc k]) ! j)) [0..<off (Suc k)] s
      = fold (\<lambda>i. f (off k + i) (seg k ! i)) [0..<length (seg k)]
          (fold (\<lambda>j. f j (concat (map seg [0..<k]) ! j)) [0..<off k] s)"
    by (simp only: split fold_append comp_apply a b)
  also have "\<dots> = fold (\<lambda>pe s. fold (\<lambda>i. f (off pe + i) (seg pe ! i)) [0..<length (seg pe)] s)
                     [0..<Suc k] s"
    by (simp add: Suc.IH)
  finally show ?case by simp
qed

lemma fold_indexed_writes:
  "k \<le> N \<Longrightarrow> fold (\<lambda>j b. b[j := h j]) [0..<k] (replicate N d) = map h [0..<k] @ replicate (N - k) d"
proof (induction k)
  case 0
  then show ?case by simp
next
  case (Suc k)
  then obtain r where r: "N - k = Suc r" by (cases "N - k") auto
  then have r': "N - Suc k = r" by simp
  have "fold (\<lambda>j b. b[j := h j]) [0..<Suc k] (replicate N d)
      = (map h [0..<k] @ replicate (Suc r) d)[length (map h [0..<k]) := h k]"
    using Suc by (simp add: r)
  also have "\<dots> = map h [0..<k] @ [h k] @ replicate r d"
    by (rule list_update_length_append)
  finally show ?case by (simp add: r')
qed

lemma fold_insert_absent:
  "fold (\<lambda>j m. if m (kf j) = None then m(kf j \<mapsto> vf j) else m) js (map_of xs)
   = map_of (xs @ map (\<lambda>j. (kf j, vf j)) js)"
proof (induction js arbitrary: xs)
  case Nil
  then show ?case by simp
next
  case (Cons j js)
  have "(if map_of xs (kf j) = None then (map_of xs)(kf j \<mapsto> vf j) else map_of xs)
      = map_of (xs @ [(kf j, vf j)])"
    by (rule ext) (auto simp: map_add_def split: option.splits)
  then show ?case using Cons.IH [of "xs @ [(kf j, vf j)]"] by simp
qed

lemma fold_record_components:
  "fold (\<lambda>j cg. \<lparr>cg_global_to_ghost = fa j (cg_global_to_ghost cg),
                  cg_ghost_to_global = fb j (cg_ghost_to_global cg),
                  cg_ghost_owner = fc j (cg_ghost_owner cg)\<rparr>) js
      \<lparr>cg_global_to_ghost = a, cg_ghost_to_global = b, cg_ghost_owner = c\<rparr>
   = \<lparr>cg_global_to_ghost = fold fa js a, cg_ghost_to_global = fold fb js b,
      cg_ghost_owner = fold fc js c\<rparr>"
  by (induction js arbitrary: a b c) simp_all

lemma build_coarse_ghosts_entries:
  fixes req rsp :: "nat list list"
  assumes len: "length rsp = length req"
    and lens: "\<forall>pe < length req. length (rsp ! pe) = length (req ! pe)"
    and nxt: "\<forall>pe < length req. nxt ! pe = sum_list (map (\<lambda>j. length (req ! j)) [0..<pe])"
  defines "E \<equiv> concat (map (\<lambda>pe. map (\<lambda>x. (x, pe)) (rsp ! pe)) [0..<length req])"
  shows "build_coarse_ghosts c_n nxt req rsp (length E)
         = \<lparr>cg_global_to_ghost = map_of (map (\<lambda>j. (fst (E ! j) + 1, c_n + j)) [0..<length E]),
            cg_ghost_to_global = map fst E, cg_ghost_owner = map snd E\<rparr>"
proof -
  let ?seg = "\<lambda>pe. map (\<lambda>x. (x, pe)) (rsp ! pe)"
  let ?off = "\<lambda>k. sum_list (map (\<lambda>j. length (?seg j)) [0..<k])"
  let ?f = "\<lambda>j (e :: nat \<times> nat) cg.
      \<lparr>cg_global_to_ghost =
         (if cg_global_to_ghost cg (fst e + 1) = None
          then (cg_global_to_ghost cg)(fst e + 1 \<mapsto> c_n + j)
          else cg_global_to_ghost cg),
       cg_ghost_to_global = (cg_ghost_to_global cg)[j := fst e],
       cg_ghost_owner = (cg_ghost_owner cg)[j := snd e]\<rparr>"
  let ?init = "\<lparr>cg_global_to_ghost = Map.empty, cg_ghost_to_global = replicate (length E) 0,
        cg_ghost_owner = replicate (length E) 0\<rparr>"
  have off: "\<And>pe. pe < length req \<Longrightarrow> ?off pe = nxt ! pe"
  proof -
    fix pe assume pe: "pe < length req"
    have e: "map (\<lambda>j. length (?seg j)) [0..<pe] = map (\<lambda>j. length (req ! j)) [0..<pe]"
      by (rule map_cong [OF refl]) (use lens pe in auto)
    have "?off pe = sum_list (map (\<lambda>j. length (req ! j)) [0..<pe])" by (simp only: e)
    with nxt pe show "?off pe = nxt ! pe" by simp
  qed
  have lenE: "length E = ?off (length req)"
    by (simp add: E_def length_concat comp_def)
  have "build_coarse_ghosts c_n nxt req rsp (length E)
      = fold (\<lambda>pe s. fold (\<lambda>i. ?f (?off pe + i) (?seg pe ! i)) [0..<length (?seg pe)] s)
          [0..<length req] ?init"
    unfolding build_coarse_ghosts_def
  proof (rule fold_cong_set)
    fix pe s assume "pe \<in> set [0..<length req]"
    then have pe: "pe < length req" by simp
    have l: "length (?seg pe) = length (req ! pe)" using lens pe by simp
    show "fold (\<lambda>i cg.
             let global = rsp ! pe ! i;
                 local = nxt ! pe + i
             in \<lparr>cg_global_to_ghost =
                    (if cg_global_to_ghost cg (global + 1) = None
                     then (cg_global_to_ghost cg)(global + 1 \<mapsto> c_n + local)
                     else cg_global_to_ghost cg),
                  cg_ghost_to_global = (cg_ghost_to_global cg)[local := global],
                  cg_ghost_owner = (cg_ghost_owner cg)[local := pe]\<rparr>)
           [0..<length (req ! pe)] s
        = fold (\<lambda>i. ?f (?off pe + i) (?seg pe ! i)) [0..<length (?seg pe)] s"
      unfolding l
    proof (rule fold_cong_set)
      fix i cg assume "i \<in> set [0..<length (req ! pe)]"
      then have i: "i < length (rsp ! pe)" using lens pe by simp
      have sg: "?seg pe ! i = (rsp ! pe ! i, pe)" using i by simp
      show "(let global = rsp ! pe ! i;
                 local = nxt ! pe + i
             in \<lparr>cg_global_to_ghost =
                    (if cg_global_to_ghost cg (global + 1) = None
                     then (cg_global_to_ghost cg)(global + 1 \<mapsto> c_n + local)
                     else cg_global_to_ghost cg),
                  cg_ghost_to_global = (cg_ghost_to_global cg)[local := global],
                  cg_ghost_owner = (cg_ghost_owner cg)[local := pe]\<rparr>)
          = ?f (?off pe + i) (?seg pe ! i) cg"
        unfolding sg off [OF pe] Let_def fst_conv snd_conv ..
    qed
  qed
  also have "\<dots> = fold (\<lambda>j. ?f j (concat (map ?seg [0..<length req]) ! j))
                     [0..<?off (length req)] ?init"
    by (rule fold_segments [where seg = ?seg and f = ?f])
  also have "\<dots> = fold (\<lambda>j. ?f j (E ! j)) [0..<length E] ?init"
    by (simp only: E_def [symmetric] lenE [symmetric])
  also have "\<dots> = \<lparr>cg_global_to_ghost =
          fold (\<lambda>j m. if m (fst (E ! j) + 1) = None then m(fst (E ! j) + 1 \<mapsto> c_n + j) else m)
            [0..<length E] Map.empty,
        cg_ghost_to_global = fold (\<lambda>j b. b[j := fst (E ! j)]) [0..<length E] (replicate (length E) 0),
        cg_ghost_owner = fold (\<lambda>j b. b[j := snd (E ! j)]) [0..<length E] (replicate (length E) 0)\<rparr>"
    by (rule fold_record_components
          [where fa = "\<lambda>j m. if m (fst (E ! j) + 1) = None then m(fst (E ! j) + 1 \<mapsto> c_n + j) else m"
             and fb = "\<lambda>j b. b[j := fst (E ! j)]" and fc = "\<lambda>j b. b[j := snd (E ! j)]"])
  finally have run: "build_coarse_ghosts c_n nxt req rsp (length E)
      = \<lparr>cg_global_to_ghost =
          fold (\<lambda>j m. if m (fst (E ! j) + 1) = None then m(fst (E ! j) + 1 \<mapsto> c_n + j) else m)
            [0..<length E] Map.empty,
        cg_ghost_to_global = fold (\<lambda>j b. b[j := fst (E ! j)]) [0..<length E] (replicate (length E) 0),
        cg_ghost_owner = fold (\<lambda>j b. b[j := snd (E ! j)]) [0..<length E] (replicate (length E) 0)\<rparr>" .
  have m: "fold (\<lambda>j m. if m (fst (E ! j) + 1) = None then m(fst (E ! j) + 1 \<mapsto> c_n + j) else m)
            [0..<length E] Map.empty
      = map_of (map (\<lambda>j. (fst (E ! j) + 1, c_n + j)) [0..<length E])"
    using fold_insert_absent [where xs = "[]" and kf = "\<lambda>j. fst (E ! j) + 1"
        and vf = "\<lambda>j. c_n + j" and js = "[0..<length E]"]
    by simp
  have wr: "\<And>h :: nat \<times> nat \<Rightarrow> nat.
      fold (\<lambda>j b. b[j := h (E ! j)]) [0..<length E] (replicate (length E) 0) = map h E"
  proof -
    fix h :: "nat \<times> nat \<Rightarrow> nat"
    have "fold (\<lambda>j b. b[j := h (E ! j)]) [0..<length E] (replicate (length E) 0)
        = map (\<lambda>j. h (E ! j)) [0..<length E] @ replicate (length E - length E) 0"
      by (rule fold_indexed_writes) simp
    also have "\<dots> = map h E" by (rule nth_equalityI) simp_all
    finally show "fold (\<lambda>j b. b[j := h (E ! j)]) [0..<length E] (replicate (length E) 0) = map h E" .
  qed
  show ?thesis unfolding run m wr [of fst] wr [of snd] ..
qed

lemma request_counts:
  assumes vi: "valid_input gs cs" and p: "p < length gs"
  shows "length (snd (request_state gs cs p)) = length gs + 1"
    and "\<And>pe. pe < length gs \<Longrightarrow>
           snd (request_state gs cs p) ! pe = length (mapping_requests gs cs p ! pe)"
    and "snd (request_state gs cs p) ! length gs = 0"
proof -
  note vd = valid_input_dist [OF vi]
  let ?dist = "node_distribution (gs ! 0)"
  obtain m nxt where rs: "request_state gs cs p = (m, nxt)" by (cases "request_state gs cs p")
  have inv: "req_inv ?dist (length gs) (m, nxt)"
    using request_state_facts(2) [OF vi p] by (simp add: rs)
  show "length (snd (request_state gs cs p)) = length gs + 1"
    using inv by (simp add: rs req_inv_def)
  have seq: "\<And>pe. pe \<le> length gs \<Longrightarrow>
      length (filter (\<lambda>kv. key_owner ?dist kv = pe) m) = nxt ! pe"
  proof -
    fix pe assume "pe \<le> length gs"
    with inv have "map snd (filter (\<lambda>kv. key_owner ?dist kv = pe) m) = [1..<Suc (nxt ! pe)]"
      by (simp add: req_inv_def)
    then show "length (filter (\<lambda>kv. key_owner ?dist kv = pe) m) = nxt ! pe"
      by (metis diff_Suc_1 length_map length_upt)
  qed
  show "\<And>pe. pe < length gs \<Longrightarrow>
           snd (request_state gs cs p) ! pe = length (mapping_requests gs cs p ! pe)"
    using seq by (simp add: rs mapping_requests_def requests_of_def)
  have "\<forall>kv \<in> set m. key_owner ?dist kv < length gs"
  proof
    fix kv assume "kv \<in> set m"
    with inv have "fst kv - 1 < last ?dist" by (auto simp: req_inv_def)
    from owner_lt_size [OF vd this] show "key_owner ?dist kv < length gs"
      by (simp add: key_owner_def)
  qed
  then have "filter (\<lambda>kv. key_owner ?dist kv = length gs) m = []"
    by (auto simp: filter_empty_conv)
  with seq [of "length gs"] show "snd (request_state gs cs p) ! length gs = 0"
    by (simp add: rs)
qed

lemma length_ghost_entries:
  "length (ghost_entries gs cs p)
   = sum_list (map (\<lambda>pe. length (mapping_requests gs cs p ! pe)) [0..<length gs])"
proof -
  have "map (\<lambda>pe. length (mapping_responses gs cs p ! pe)) [0..<length gs]
      = map (\<lambda>pe. length (mapping_requests gs cs p ! pe)) [0..<length gs]"
    by (rule map_cong [OF refl]) (simp add: mapping_responses_def)
  then have "sum_list (map (\<lambda>pe. length (mapping_responses gs cs p ! pe)) [0..<length gs])
      = sum_list (map (\<lambda>pe. length (mapping_requests gs cs p ! pe)) [0..<length gs])"
    by (simp only:)
  moreover have "length (ghost_entries gs cs p)
      = sum_list (map (\<lambda>pe. length (mapping_responses gs cs p ! pe)) [0..<length gs])"
    by (simp add: ghost_entries_def length_concat comp_def)
  ultimately show ?thesis by (simp only:)
qed

lemma coarse_ghosts_eq:
  assumes vi: "valid_input gs cs" and p: "p < length gs"
  defines "nxt \<equiv> exclusive_scan (snd (request_state gs cs p)) 0"
  shows "last nxt = length (ghost_entries gs cs p)"
    and "build_coarse_ghosts (unat (coarse_n (lcnodes gs cs p))) nxt (mapping_requests gs cs p)
           (mapping_responses gs cs p) (last nxt) = coarse_ghosts gs cs p"
proof -
  note rc = request_counts [OF vi p]
  let ?cnt = "snd (request_state gs cs p)"
  let ?req = "mapping_requests gs cs p"
  have ne: "?cnt \<noteq> []" using rc(1) by auto
  have tk: "\<And>pe. pe \<le> length gs \<Longrightarrow>
      take pe ?cnt = map (\<lambda>j. length (?req ! j)) [0..<pe]"
    by (rule nth_equalityI) (use rc in auto)
  have lastc: "last ?cnt = 0" using rc(1,3) ne by (simp add: last_conv_nth)
  have "?cnt = take (length gs) ?cnt @ [?cnt ! length gs]"
    using rc(1) by (metis Suc_eq_plus1 lessI take_Suc_conv_app_nth take_all order_refl)
  then have "sum_list ?cnt = sum_list (take (length gs) ?cnt) + ?cnt ! length gs"
    by (metis sum_list_append sum_list.Cons sum_list.Nil add_0_right)
  then have sm: "sum_list ?cnt = sum_list (map (\<lambda>j. length (?req ! j)) [0..<length gs])"
    using tk [of "length gs"] rc(3) by simp
  from last_exclusive_scan_plus [OF ne] lastc sm
  show l: "last nxt = length (ghost_entries gs cs p)"
    by (simp add: nxt_def length_ghost_entries)
  have len: "length (mapping_responses gs cs p) = length ?req" by simp
  have lens: "\<forall>pe < length ?req. length (mapping_responses gs cs p ! pe) = length (?req ! pe)"
    by (simp add: mapping_responses_def)
  have nx: "\<forall>pe < length ?req. nxt ! pe = sum_list (map (\<lambda>j. length (?req ! j)) [0..<pe])"
  proof (intro allI impI)
    fix pe assume "pe < length ?req"
    then have pe: "pe < length gs" by simp
    then have "nxt ! pe = sum_list (take pe ?cnt)"
      unfolding nxt_def using rc(1) by (simp add: exclusive_scan_nth)
    with tk [of pe] pe show "nxt ! pe = sum_list (map (\<lambda>j. length (?req ! j)) [0..<pe])" by simp
  qed
  have E: "ghost_entries gs cs p
      = concat (map (\<lambda>pe. map (\<lambda>x. (x, pe)) (mapping_responses gs cs p ! pe)) [0..<length ?req])"
    by (simp add: ghost_entries_def)
  show "build_coarse_ghosts (unat (coarse_n (lcnodes gs cs p))) nxt ?req
           (mapping_responses gs cs p) (last nxt) = coarse_ghosts gs cs p"
    unfolding l coarse_ghosts_def Let_def E
    by (rule build_coarse_ghosts_entries [OF len lens nx])
qed

lemma map_of_indexed_Some:
  assumes "map_of (map (\<lambda>j. (kf j, vf j)) js) k = Some v"
  shows "\<exists>j \<in> set js. kf j = k \<and> vf j = v"
  using assms by (induction js) (auto split: if_splits)

lemma map_of_indexed_exists:
  assumes "j \<in> set js"
  shows "\<exists>v. map_of (map (\<lambda>j. (kf j, vf j)) js) (kf j) = Some v"
  using assms by (induction js) auto

lemma coarse_ghost_lookup:
  assumes "(x, pe) \<in> set (ghost_entries gs cs p)"
  shows "\<exists>j < length (ghost_entries gs cs p).
           cg_global_to_ghost (coarse_ghosts gs cs p) (x + 1)
             = Some (unat (coarse_n (lcnodes gs cs p)) + j) \<and>
           fst (ghost_entries gs cs p ! j) = x"
proof -
  let ?E = "ghost_entries gs cs p"
  let ?cn = "unat (coarse_n (lcnodes gs cs p))"
  from assms obtain i where i: "i < length ?E" "?E ! i = (x, pe)"
    by (auto simp: in_set_conv_nth)
  then have "i \<in> set [0..<length ?E]" by simp
  from map_of_indexed_exists [OF this, of "\<lambda>j. fst (?E ! j) + 1" "\<lambda>j. ?cn + j"] i(2)
  obtain v where v: "map_of (map (\<lambda>j. (fst (?E ! j) + 1, ?cn + j)) [0..<length ?E]) (x + 1) = Some v"
    by auto
  from map_of_indexed_Some [OF this]
  obtain j where j: "j < length ?E" "fst (?E ! j) + 1 = x + 1" "?cn + j = v" by auto
  have "cg_global_to_ghost (coarse_ghosts gs cs p) (x + 1) = Some (?cn + j)"
    using v j(3) by (simp add: coarse_ghosts_def Let_def)
  with j(1,2) show ?thesis by auto
qed

lemma coarse_ghost_values:
  assumes "cg_global_to_ghost (coarse_ghosts gs cs p) k = Some v"
  shows "\<exists>j < length (ghost_entries gs cs p).
           v = unat (coarse_n (lcnodes gs cs p)) + j \<and> k = fst (ghost_entries gs cs p ! j) + 1"
proof -
  from assms have "map_of (map (\<lambda>j. (fst (ghost_entries gs cs p ! j) + 1,
                          unat (coarse_n (lcnodes gs cs p)) + j))
                    [0..<length (ghost_entries gs cs p)]) k = Some v"
    by (simp add: coarse_ghosts_def Let_def)
  from map_of_indexed_Some [OF this] show ?thesis by auto
qed

lemma requested_ghost_entry:
  assumes vi: "valid_input gs cs" and p: "p < length gs"
    and c: "c \<in> set (request_clusters (gs ! p) (cs ! p) (received_edges gs cs p))"
  shows "(coarse_global gs cs c, owner_of (node_distribution (gs ! 0)) c)
         \<in> set (ghost_entries gs cs p)"
proof -
  note vd = valid_input_dist [OF vi]
  let ?ow = "owner_of (node_distribution (gs ! 0)) c"
  from cluster_index_requested [OF vi p c]
  obtain v where v: "v - 1 < length (mapping_requests gs cs p ! ?ow)"
    "mapping_responses gs cs p ! ?ow ! (v - 1) = coarse_global gs cs c" by blast
  have ow: "?ow < length gs"
    by (rule owner_lt_size [OF vd request_clusters_range(1) [OF vi p c]])
  have "length (mapping_responses gs cs p ! ?ow) = length (mapping_requests gs cs p ! ?ow)"
    using ow by (simp add: mapping_responses_def)
  with v have "coarse_global gs cs c \<in> set (mapping_responses gs cs p ! ?ow)"
    by (metis nth_mem)
  then show ?thesis using ow by (auto simp: ghost_entries_def)
qed

section \<open>The local part of the contraction\<close>

lemma handle_edge_eq:
  assumes vi: "valid_input gs cs" and p: "p < length gs"
    and cap: "cap_graph cap = gs ! p" "cap_lnode_to_lcnode cap = lcnodes gs cs p"
      "cap_nonlocal_gcluster_to_index cap = cluster_index gs cs p"
      "cap_their_mapping_responses cap = mapping_responses gs cs p"
      "cap_c_global_to_ghost cap = cg_global_to_ghost (coarse_ghosts gs cs p)"
    and c: "is_owned_global_node (gs ! p) c
            \<or> c \<in> set (request_clusters (gs ! p) (cs ! p) (received_edges gs cs p))"
  shows "handle_edge cap c_u w c rmap
         = Inr (if coarse_local gs cs p c \<noteq> c_u
                then rating_add rmap (coarse_local gs cs p c) w else rmap)"
proof (cases "is_owned_global_node (gs ! p) c")
  case True
  then show ?thesis by (simp add: handle_edge_def cap coarse_local_def Let_def)
next
  case False
  with c have rq: "c \<in> set (request_clusters (gs ! p) (cs ! p) (received_edges gs cs p))"
    by simp
  note vd = valid_input_dist [OF vi]
  note f = valid_distribution_facts [OF vd p]
  let ?dist = "node_distribution (gs ! 0)"
  let ?ow = "owner_of ?dist c"
  have cl: "c < last ?dist" by (rule request_clusters_range(1) [OF vi p rq])
  from cluster_index_requested [OF vi p rq]
  obtain v where v: "map_of (cluster_index gs cs p) (c + 1) = Some v"
    "v - 1 < last ?dist"
    "mapping_responses gs cs p ! ?ow ! (v - 1) = coarse_global gs cs c" by blast
  from coarse_ghost_lookup [OF requested_ghost_entry [OF vi p rq]]
  obtain j where j: "cg_global_to_ghost (coarse_ghosts gs cs p) (coarse_global gs cs c + 1)
             = Some (unat (coarse_n (lcnodes gs cs p)) + j)" by blast
  have loc: "coarse_local gs cs p c = unat (coarse_n (lcnodes gs cs p)) + j"
    using False j by (simp add: coarse_local_def)
  show ?thesis
    using False v j find_owner_valid [OF vd p cl]
    by (simp add: handle_edge_def cap Let_def kassert_def f(6) loc)
qed

lemma fold_weight_and_map:
  "fold (\<lambda>x (w, r). (w + a x, f x r)) xs (w0 :: int, r0) = (w0 + sum_list (map a xs), fold f xs r0)"
  by (induction xs arbitrary: w0 r0) (simp_all add: add.assoc)

lemma add_edges_append:
  "add_edges gs cs p c_u (xs @ ys) rmap = add_edges gs cs p c_u ys (add_edges gs cs p c_u xs rmap)"
  by (simp add: add_edges_def)

lemma add_edges_concat:
  "fold (\<lambda>x. add_edges gs cs p c_u (h x)) xs rmap = add_edges gs cs p c_u (concat (map h xs)) rmap"
  by (induction xs arbitrary: rmap) (simp_all add: add_edges_append, simp add: add_edges_def)

lemma sum_list_if_filter:
  "sum_list (map (\<lambda>x. if c x then (a x :: int) else 0) xs) = sum_list (map a (filter c xs))"
  by (induction xs) simp_all

lemma set_bucket_of:
  "x \<in> set (bucket_of gs cs p c) \<longleftrightarrow>
     x \<in> set (bucket_items (gs ! p) (cs ! p) (localized gs cs p)) \<and>
     bucket_key (gs ! p) (lcnodes gs cs p) (cs ! p) (localized gs cs p) x = c"
  by (auto simp: bucket_of_def bucket_def)

lemma bucket_items_cases:
  assumes "x \<in> set (bucket_items g cl le)"
  shows "(x < graph_n g \<and> is_owned_global_node g (cl ! x))
         \<or> (graph_n g \<le> x \<and> x - graph_n g < length le \<and> starts_block le (x - graph_n g))"
  using assms by (auto simp: bucket_items_def)

lemma set_localized:
  "e \<in> set (localized gs cs p) \<Longrightarrow> \<exists>x \<in> set (received_edges gs cs p).
      ge_v e = ge_v x \<and> ge_weight e = ge_weight x
      \<and> ge_u e = unat (lcnodes gs cs p ! (ge_u x - offset_n (gs ! p)))"
  by (auto simp: localized_def localize_global_edge_list_def)

lemma collect_edges_eq:
  assumes vi: "valid_input gs cs" and p: "p < length gs"
    and cap: "cap_graph cap = gs ! p" "cap_lnode_to_lcnode cap = lcnodes gs cs p"
      "cap_nonlocal_gcluster_to_index cap = cluster_index gs cs p"
      "cap_their_mapping_responses cap = mapping_responses gs cs p"
      "cap_c_global_to_ghost cap = cg_global_to_ghost (coarse_ghosts gs cs p)"
    and cap': "cap_lnode_to_gcluster cap = cs ! p" "cap_local_edges cap = localized gs cs p"
    and bpb: "cap_buckets_position_buffer cap
              = map (bucket_start (gs ! p) (lcnodes gs cs p) (cs ! p) (localized gs cs p))
                  [0..<c_n + 1]"
    and seg: "map (\<lambda>i. cap_buckets cap ! i)
                [bucket_start (gs ! p) (lcnodes gs cs p) (cs ! p) (localized gs cs p) c_u..<
                 bucket_start (gs ! p) (lcnodes gs cs p) (cs ! p) (localized gs cs p) (Suc c_u)]
              = bucket_of gs cs p c_u"
    and cu: "c_u < c_n"
  shows "collect_edges cap c_u = Inr (collected gs cs p c_u)"
proof -
  let ?g = "gs ! p"
  let ?n = "graph_n ?g"
  let ?LE = "localized gs cs p"
  let ?start = "bucket_start ?g (lcnodes gs cs p) (cs ! p) ?LE"
  let ?rq = "request_clusters ?g (cs ! p) (received_edges gs cs p)"
  let ?F = "\<lambda>u (c_u_weight, rmap).
           if u < ?n
           then bind_err
                  (fold_err (\<lambda>(e, v) rmap.
                       handle_edge cap c_u (edge_weight ?g e) (cs ! p ! v) rmap)
                     (neighbors ?g u) rmap)
                  (\<lambda>rmap'. Inr (c_u_weight + node_weight ?g u, rmap'))
           else bind_err
                  (fold_err (\<lambda>e rmap. handle_edge cap c_u (ge_weight e) (ge_v e) rmap)
                     (takeWhile (\<lambda>e. ge_u e = c_u) (drop (u - ?n) ?LE))
                     rmap)
                  (\<lambda>rmap'. Inr (c_u_weight, rmap'))"
  let ?H = "\<lambda>x (w, r). (w + (if x < ?n then node_weight ?g x else 0),
                          add_edges gs cs p c_u (contributions gs cs p c_u x) r)"
  have first: "cap_buckets_position_buffer cap ! c_u = ?start c_u"
    and last: "cap_buckets_position_buffer cap ! (c_u + 1) = ?start (Suc c_u)"
    using cu by (simp_all add: bpb del: upt_Suc)
  have "collect_edges cap c_u
      = fold_err (\<lambda>i. ?F (cap_buckets cap ! i)) [?start c_u..<?start (Suc c_u)] (0, [])"
    unfolding collect_edges_def Let_def first last cap cap' ..
  also have "\<dots> = fold_err ?F (bucket_of gs cs p c_u) (0, [])"
    unfolding seg [symmetric] by (rule fold_err_map)
  also have "\<dots> = Inr (fold ?H (bucket_of gs cs p c_u) (0, []))"
  proof (rule fold_err_pure)
    fix x and s :: "int \<times> (nat \<times> int) list"
    assume x: "x \<in> set (bucket_of gs cs p c_u)"
    obtain w r where s: "s = (w, r)" by (cases s)
    from x have it: "x \<in> set (bucket_items ?g (cs ! p) ?LE)" by (simp add: set_bucket_of)
    show "?F x s = Inr (?H x s)"
    proof (cases "x < ?n")
      case True
      with bucket_items_cases [OF it] have own: "is_owned_global_node ?g (cs ! p ! x)" by auto
      have "fold_err (\<lambda>(e, v) rmap. handle_edge cap c_u (edge_weight ?g e) (cs ! p ! v) rmap)
              (neighbors ?g x) r
          = Inr (fold (\<lambda>(e, v) rmap. if coarse_local gs cs p (cs ! p ! v) \<noteq> c_u
                   then rating_add rmap (coarse_local gs cs p (cs ! p ! v)) (edge_weight ?g e)
                   else rmap) (neighbors ?g x) r)"
      proof (rule fold_err_pure)
        fix ev rmap assume ev: "ev \<in> set (neighbors ?g x)"
        obtain e v where evp: "ev = (e, v)" by (cases ev)
        have "is_owned_global_node ?g (cs ! p ! v) \<or> cs ! p ! v \<in> set ?rq"
        proof (cases "is_owned_global_node ?g (cs ! p ! v)")
          case False
          then have "cs ! p ! v \<in> set ?rq"
            unfolding request_clusters_def using True own ev evp by force
          then show ?thesis ..
        qed simp
        from handle_edge_eq [OF vi p cap this]
        show "(case ev of (e, v) \<Rightarrow> \<lambda>rmap.
                 handle_edge cap c_u (edge_weight ?g e) (cs ! p ! v) rmap) rmap
            = Inr ((case ev of (e, v) \<Rightarrow> \<lambda>rmap.
                 if coarse_local gs cs p (cs ! p ! v) \<noteq> c_u
                 then rating_add rmap (coarse_local gs cs p (cs ! p ! v)) (edge_weight ?g e)
                 else rmap) rmap)"
          by (simp add: evp)
      qed
      also have "fold (\<lambda>(e, v) rmap. if coarse_local gs cs p (cs ! p ! v) \<noteq> c_u
                   then rating_add rmap (coarse_local gs cs p (cs ! p ! v)) (edge_weight ?g e)
                   else rmap) (neighbors ?g x) r
          = add_edges gs cs p c_u (contributions gs cs p c_u x) r"
      proof -
        have c: "contributions gs cs p c_u x
            = map (\<lambda>(e, v). (edge_weight ?g e, cs ! p ! v)) (neighbors ?g x)"
          using True by (simp add: contributions_def)
        show ?thesis
          unfolding add_edges_def c fold_map_list
          by (rule fold_cong_set) (auto simp: case_prod_beta)
      qed
      finally show ?thesis using True by (simp add: s)
    next
      case False
      have "fold_err (\<lambda>e rmap. handle_edge cap c_u (ge_weight e) (ge_v e) rmap)
              (takeWhile (\<lambda>e. ge_u e = c_u) (drop (x - ?n) ?LE)) r
          = Inr (fold (\<lambda>e rmap. if coarse_local gs cs p (ge_v e) \<noteq> c_u
                   then rating_add rmap (coarse_local gs cs p (ge_v e)) (ge_weight e)
                   else rmap) (takeWhile (\<lambda>e. ge_u e = c_u) (drop (x - ?n) ?LE)) r)"
      proof (rule fold_err_pure)
        fix e rmap assume "e \<in> set (takeWhile (\<lambda>e. ge_u e = c_u) (drop (x - ?n) ?LE))"
        then have "e \<in> set ?LE" by (meson in_set_dropD set_takeWhileD)
        from set_localized [OF this] obtain y where y: "y \<in> set (received_edges gs cs p)"
          "ge_v e = ge_v y" by blast
        have "is_owned_global_node ?g (ge_v e) \<or> ge_v e \<in> set ?rq"
        proof (cases "is_owned_global_node ?g (ge_v e)")
          case False
          then have "ge_v e \<in> set ?rq"
            unfolding request_clusters_def using y by force
          then show ?thesis ..
        qed simp
        from handle_edge_eq [OF vi p cap this]
        show "handle_edge cap c_u (ge_weight e) (ge_v e) rmap
            = Inr (if coarse_local gs cs p (ge_v e) \<noteq> c_u
                   then rating_add rmap (coarse_local gs cs p (ge_v e)) (ge_weight e)
                   else rmap)" .
      qed
      also have "fold (\<lambda>e rmap. if coarse_local gs cs p (ge_v e) \<noteq> c_u
                   then rating_add rmap (coarse_local gs cs p (ge_v e)) (ge_weight e)
                   else rmap) (takeWhile (\<lambda>e. ge_u e = c_u) (drop (x - ?n) ?LE)) r
          = add_edges gs cs p c_u (contributions gs cs p c_u x) r"
        using False by (simp add: add_edges_def contributions_def fold_map_list)
      finally show ?thesis using False by (simp add: s)
    qed
  qed
  also have "fold ?H (bucket_of gs cs p c_u) (0, []) = collected gs cs p c_u"
    unfolding fold_weight_and_map collected_def add_edges_concat
    by (simp add: sum_list_if_filter)
  finally show ?thesis .
qed

lemma lcnode_bound:
  assumes vi: "valid_input gs cs" and p: "p < length gs"
    and c: "c < last (node_distribution (gs ! 0))" and own: "is_owned_global_node (gs ! p) c"
    and mk: "marked_cluster gs cs c"
  shows "unat (lcnodes gs cs p ! (c - offset_n (gs ! p))) < unat (coarse_n (lcnodes gs cs p))"
proof -
  note vd = valid_input_dist [OF vi]
  have o: "owner_of (node_distribution (gs ! 0)) c = p"
    using is_owned_iff_owner [OF vd p c] own by simp
  from coarse_global_range(4) [OF vi c mk] o
  show ?thesis
    using p by (simp add: coarse_counts_nth valid_distribution_facts(3) [OF vd p])
qed

lemma received_edge_source:
  assumes vi: "valid_input gs cs" and q: "q < length gs"
    and x: "x \<in> set (received_edges gs cs q)"
  shows "marked_cluster gs cs (ge_u x)"
proof -
  from received_edges_facts(4) [OF vi q x]
  obtain p where p: "p < length gs" "x \<in> set (sent_edges gs cs ! p)" by blast
  from sent_edges_facts(1) [OF vi p]
  obtain u where u: "u < graph_n (gs ! p)" "ge_u x = cs ! p ! u" by blast
  show ?thesis unfolding u(2) by (rule marked_cluster_owned_node [OF vi p(1) u(1)])
qed

lemma length_localized [simp]: "length (localized gs cs p) = length (received_edges gs cs p)"
  by (simp add: localized_def localize_global_edge_list_def)

lemma localized_nth:
  "i < length (received_edges gs cs p) \<Longrightarrow>
   localized gs cs p ! i
   = GlobalEdge (unat (lcnodes gs cs p ! (ge_u (received_edges gs cs p ! i) - offset_n (gs ! p))))
       (ge_v (received_edges gs cs p ! i)) (ge_weight (received_edges gs cs p ! i))"
  by (simp add: localized_def localize_global_edge_list_def)

lemma bucket_keys_bound:
  assumes vi: "valid_input gs cs" and p: "p < length gs"
    and x: "x \<in> set (bucket_items (gs ! p) (cs ! p) (localized gs cs p))"
  shows "bucket_key (gs ! p) (lcnodes gs cs p) (cs ! p) (localized gs cs p) x
         < unat (coarse_n (lcnodes gs cs p))"
proof -
  from bucket_items_cases [OF x]
  show ?thesis
  proof
    assume h: "x < graph_n (gs ! p) \<and> is_owned_global_node (gs ! p) (cs ! p ! x)"
    then have xt: "x < total_n (gs ! p)" by (simp add: total_n_def)
    have "unat (lcnodes gs cs p ! (cs ! p ! x - offset_n (gs ! p)))
        < unat (coarse_n (lcnodes gs cs p))"
      using h by (intro lcnode_bound [OF vi p valid_clustering_facts(3) [OF vi p xt]]
          marked_cluster_owned_node [OF vi p]) simp_all
    then show ?thesis using h by (simp add: bucket_key_def)
  next
    assume h: "graph_n (gs ! p) \<le> x \<and> x - graph_n (gs ! p) < length (localized gs cs p) \<and>
        starts_block (localized gs cs p) (x - graph_n (gs ! p))"
    let ?i = "x - graph_n (gs ! p)"
    have i: "?i < length (received_edges gs cs p)" using h by simp
    then have mem: "received_edges gs cs p ! ?i \<in> set (received_edges gs cs p)" by simp
    have "unat (lcnodes gs cs p ! (ge_u (received_edges gs cs p ! ?i) - offset_n (gs ! p)))
        < unat (coarse_n (lcnodes gs cs p))"
      by (rule lcnode_bound [OF vi p received_edges_facts(1) [OF vi p mem]
            received_edges_facts(2) [OF vi p mem] received_edge_source [OF vi p mem]])
    then show ?thesis using h i by (simp add: bucket_key_def localized_nth)
  qed
qed

lemma flatten_edges_eq:
  fixes eb :: "(nat \<times> int) list list"
  assumes len: "length eb = c_n"
  defines "c_nodes \<equiv> prefix_sum (0 # map length eb)"
  shows "flatten_edges c_nodes eb c_n (last c_nodes)
         = (concat (map (map fst) eb), concat (map (map snd) eb))"
proof -
  have deg: "\<And>c_u. c_u < c_n \<Longrightarrow> c_nodes ! Suc c_u - c_nodes ! c_u = length (eb ! c_u)"
  proof -
    fix c_u assume c: "c_u < c_n"
    have "c_nodes ! Suc c_u = sum_list (take (Suc c_u) (map length eb))"
      unfolding c_nodes_def using c len by (simp add: prefix_sum_Cons0_nth)
    moreover have "c_nodes ! c_u = sum_list (take c_u (map length eb))"
      unfolding c_nodes_def using c len by (simp add: prefix_sum_Cons0_nth)
    moreover have "take (Suc c_u) (map length eb) = take c_u (map length eb) @ [length (eb ! c_u)]"
      using c len by (simp add: take_Suc_conv_app_nth)
    ultimately show "c_nodes ! Suc c_u - c_nodes ! c_u = length (eb ! c_u)" by simp
  qed
  have "flatten_edges c_nodes eb c_n (last c_nodes)
      = fold (\<lambda>c_u (c_edges, c_edge_weights).
           (write_seg (c_nodes ! c_u) (map fst (eb ! c_u)) c_edges,
            write_seg (c_nodes ! c_u) (map snd (eb ! c_u)) c_edge_weights))
         [0..<c_n] (replicate (last c_nodes) 0, replicate (last c_nodes) 0)"
    unfolding flatten_edges_def
    by (rule fold_cong_set) (auto simp: Let_def deg)
  also have "\<dots> = (fold (\<lambda>c_u. write_seg (c_nodes ! c_u) (map fst (eb ! c_u))) [0..<c_n]
                      (replicate (last c_nodes) 0),
                    fold (\<lambda>c_u. write_seg (c_nodes ! c_u) (map snd (eb ! c_u))) [0..<c_n]
                      (replicate (last c_nodes) 0))"
    by (rule fold_pair_split)
  also have "fold (\<lambda>c_u. write_seg (c_nodes ! c_u) (map fst (eb ! c_u))) [0..<c_n]
                      (replicate (last c_nodes) 0)
      = concat (map (\<lambda>u. map fst (eb ! u)) [0..<c_n])"
  proof (rule scatter_prefix_sum)
    have "map length eb = map (\<lambda>u. length (map fst (eb ! u))) [0..<c_n]"
      by (rule nth_equalityI) (simp_all add: len)
    then show "c_nodes = prefix_sum (0 # map (\<lambda>u. length (map fst (eb ! u))) [0..<c_n])"
      by (simp only: c_nodes_def)
  qed
  also have "fold (\<lambda>c_u. write_seg (c_nodes ! c_u) (map snd (eb ! c_u))) [0..<c_n]
                      (replicate (last c_nodes) 0)
      = concat (map (\<lambda>u. map snd (eb ! u)) [0..<c_n])"
  proof (rule scatter_prefix_sum)
    have "map length eb = map (\<lambda>u. length (map snd (eb ! u))) [0..<c_n]"
      by (rule nth_equalityI) (simp_all add: len)
    then show "c_nodes = prefix_sum (0 # map (\<lambda>u. length (map snd (eb ! u))) [0..<c_n])"
      by (simp only: c_nodes_def)
  qed
  also have "map (\<lambda>u. map fst (eb ! u)) [0..<c_n] = map (map fst) eb"
    by (rule nth_equalityI) (simp_all add: len)
  also have "map (\<lambda>u. map snd (eb ! u)) [0..<c_n] = map (map snd) eb"
    by (rule nth_equalityI) (simp_all add: len)
  finally show ?thesis .
qed

lemma contract_local_eq:
  assumes vi: "valid_input gs cs" and p: "p < length gs"
  shows "contract_local (gs ! p) (cs ! p) (received_nodes gs cs p) (received_edges gs cs p)
           (lcnodes gs cs p) (coarse_distribution gs cs) (echoed gs cs p)
           (fst (request_state gs cs p)) (snd (request_state gs cs p))
           (mapping_requests gs cs p) (mapping_responses gs cs p)
         = Inr (local_contraction gs cs p)"
proof -
  let ?g = "gs ! p"
  let ?lcn = "lcnodes gs cs p"
  let ?cn = "unat (coarse_n ?lcn)"
  let ?nxt = "exclusive_scan (snd (request_state gs cs p)) 0"
  let ?LE = "localized gs cs p"
  let ?start = "bucket_start ?g ?lcn (cs ! p) ?LE"
  let ?coll = "map (collected gs cs p) [0..<?cn]"
  note gh = coarse_ghosts_eq [OF vi p]
  have gh2: "build_coarse_ghosts ?cn ?nxt (mapping_requests gs cs p) (mapping_responses gs cs p)
               (length (ghost_entries gs cs p)) = coarse_ghosts gs cs p"
    using gh(2) by (simp only: gh(1))
  have idx: "insert_echoed_mappings ?g (echoed gs cs p) (fst (request_state gs cs p))
      = cluster_index gs cs p" by (simp add: cluster_index_def)
  have loc: "localize_global_edge_list (received_edges gs cs p) (offset_n ?g) ?lcn = ?LE"
    by (simp add: localized_def)
  have keys: "\<forall>x \<in> set (bucket_items ?g (cs ! p) ?LE). bucket_key ?g ?lcn (cs ! p) ?LE x < ?cn"
    using bucket_keys_bound [OF vi p] by blast
  from build_node_buckets_eq [OF keys]
  obtain bpb B where bk: "build_node_buckets ?g ?lcn ?cn ?LE (cs ! p) = Inr (bpb, B)"
    and bpb: "bpb = map ?start [0..<?cn + 1]"
    and seg: "\<forall>c \<le> ?cn. map (\<lambda>i. B ! i) [?start c..<?start (Suc c)] = bucket ?g ?lcn (cs ! p) ?LE c"
    by blast
  define cap where "cap = \<lparr>cap_graph = ?g, cap_lnode_to_gcluster = cs ! p,
                    cap_lnode_to_lcnode = ?lcn,
                    cap_nonlocal_gcluster_to_index = cluster_index gs cs p,
                    cap_their_mapping_responses = mapping_responses gs cs p,
                    cap_c_global_to_ghost = cg_global_to_ghost (coarse_ghosts gs cs p),
                    cap_local_edges = ?LE,
                    cap_buckets_position_buffer = bpb,
                    cap_buckets = B\<rparr>"
  have ce: "map_err (collect_edges cap) [0..<?cn] = Inr ?coll"
  proof (rule map_err_pure)
    fix c_u assume "c_u \<in> set [0..<?cn]"
    then have cu: "c_u < ?cn" by simp
    have s: "map (\<lambda>i. cap_buckets cap ! i) [?start c_u..<?start (Suc c_u)] = bucket_of gs cs p c_u"
      using seg cu by (simp add: cap_def bucket_of_def)
    show "collect_edges cap c_u = Inr (collected gs cs p c_u)"
      by (rule collect_edges_eq [OF vi p _ _ _ _ _ _ _ _ s cu]) (simp_all add: cap_def bpb)
  qed
  have lens: "map (\<lambda>r. length (snd r)) ?coll = map length (map snd ?coll)" by simp
  have fl: "flatten_edges (prefix_sum (0 # map (\<lambda>r. length (snd r)) ?coll)) (map snd ?coll) ?cn
              (last (prefix_sum (0 # map (\<lambda>r. length (snd r)) ?coll)))
      = (concat (map (map fst) (map snd ?coll)), concat (map (map snd) (map snd ?coll)))"
    unfolding lens by (rule flatten_edges_eq) simp
  have c1: "concat (map (map fst) (map snd ?coll)) = concat (map (\<lambda>r. map fst (snd r)) ?coll)"
    and c2: "concat (map (map snd) (map snd ?coll)) = concat (map (\<lambda>r. map snd (snd r)) ?coll)"
    by (simp_all add: comp_def)
  show ?thesis
    unfolding contract_local_def Let_def idx loc gh(1) gh2
    apply (rule bind_err_InrI [OF build_lnode_to_gcnode_eq [OF vi p]])
    apply (rule bind_err_InrI [OF bk])
    apply (simp only: prod.case cap_def [symmetric])
    apply (rule bind_err_InrI [OF ce])
    apply (simp only: fl fst_conv snd_conv c1 c2 local_contraction_def Let_def)
    done
qed

section \<open>Identifier translation\<close>

lemma example_graph_sizes:
  "graph_n example_graph = 2" "ghost_n example_graph = 1" "total_n example_graph = 3"
  "offset_n example_graph = 0"
  by (simp_all add: example_graph_def graph_n_def ghost_n_def total_n_def offset_n_def)

text \<open>
  C5 as stated: a global identifier that is neither owned nor in the ghost directory
  makes \<open>global_to_local_node\<close> fail with \<open>UnknownGlobal\<close>. The source has no such
  error: its only guard is the assertion, so the claim fails at the global node 3 of the
  example.
\<close>

theorem global_to_local_node_unknown_counterexample:
  "\<not> is_owned_global_node example_graph 3 \<and> global_to_ghost example_graph (3 + 1) = None
   \<and> global_to_local_node example_graph 3 \<noteq> Inl UnknownGlobal"
  by (simp add: global_to_local_node_def contains_global_node_def is_owned_global_node_def
      example_graph_sizes) (simp add: example_graph_def)

text \<open>
  C5, amended: for an owned global identifier \<open>global_to_local_node\<close> returns
  \<open>g - offset_n\<close>; for one in the ghost directory it returns the directory entry, which
  lies in \<open>[n, total_n)\<close> when the directory satisfies its invariant; for one that is
  neither, the assertion of the checked build fails and no local index is returned.
\<close>

theorem global_to_local_node_cases:
  "(is_owned_global_node g gu \<longrightarrow> global_to_local_node g gu = Inr (gu - offset_n g)) \<and>
   (\<not> is_owned_global_node g gu \<and> global_to_ghost g (gu + 1) = Some l \<longrightarrow>
      global_to_local_node g gu = Inr l \<and>
      (ghost_directory_in_range g \<longrightarrow> graph_n g \<le> l \<and> l < total_n g)) \<and>
   (\<not> is_owned_global_node g gu \<and> global_to_ghost g (gu + 1) = None \<longrightarrow>
      global_to_local_node g gu = Inl AssertionFailure)"
  by (auto simp: global_to_local_node_def contains_global_node_def is_owned_global_node_def
      ghost_directory_in_range_def ran_def)

theorem global_to_local_node_cases_witness:
  "is_owned_global_node example_graph 1 \<and> global_to_local_node example_graph 1 = Inr 1 \<and>
   \<not> is_owned_global_node example_graph 2 \<and> global_to_ghost example_graph (2 + 1) = Some 2 \<and>
   ghost_directory_in_range example_graph \<and>
   global_to_local_node example_graph 2 = Inr 2 \<and>
   graph_n example_graph \<le> 2 \<and> 2 < total_n example_graph \<and>
   \<not> is_owned_global_node example_graph 3 \<and> global_to_ghost example_graph (3 + 1) = None \<and>
   global_to_local_node example_graph 3 = Inl AssertionFailure"
proof -
  have o1: "is_owned_global_node example_graph 1"
    and o2: "\<not> is_owned_global_node example_graph 2"
    and o3: "\<not> is_owned_global_node example_graph 3"
    by (simp_all add: is_owned_global_node_def example_graph_sizes)
  have d2: "global_to_ghost example_graph (2 + 1) = Some 2"
    and d3: "global_to_ghost example_graph (3 + 1) = None"
    by (simp_all add: example_graph_def)
  have inv: "ghost_directory_in_range example_graph"
    by (simp add: ghost_directory_in_range_def example_graph_sizes) (simp add: example_graph_def)
  show ?thesis
    using global_to_local_node_cases [of example_graph 1 0]
      global_to_local_node_cases [of example_graph 2 2]
      global_to_local_node_cases [of example_graph 3 0]
      o1 o2 o3 d2 d3 inv
    by (simp add: example_graph_sizes)
qed

section \<open>Ghost node weights\<close>

text \<open>
  C10: \<open>set_ghost_node_weight u w\<close> requires \<open>u\<close> to be a ghost node and the node
  weight array to be present. Under these preconditions it writes \<open>w\<close> to the weight of
  \<open>u\<close> and changes nothing else: every other node weight, the CSR arrays, the edge
  weights, the ghost directory and the distribution vectors stay as they were. A graph
  without node weights is read with uniform weight 1, and on it the precondition fails.
\<close>

theorem set_ghost_node_weight_frame:
  "(graph_n g \<le> u \<and> u < total_n g \<and> is_node_weighted g \<and>
      length (node_weights g) = total_n g \<longrightarrow>
      (\<exists>g'. set_ghost_node_weight g u w = Inr g' \<and>
         node_weight g' u = w \<and>
         (\<forall>v. v \<noteq> u \<longrightarrow> node_weight g' v = node_weight g v) \<and>
         g' = g\<lparr>node_weights := node_weights g'\<rparr> \<and>
         length (node_weights g') = length (node_weights g) \<and>
         nodes g' = nodes g \<and> edges g' = edges g \<and> edge_weights g' = edge_weights g \<and>
         ghost_owner g' = ghost_owner g \<and> ghost_to_global g' = ghost_to_global g \<and>
         global_to_ghost g' = global_to_ghost g \<and>
         node_distribution g' = node_distribution g \<and>
         edge_distribution g' = edge_distribution g \<and> pe_rank g' = pe_rank g)) \<and>
   (\<not> (graph_n g \<le> u \<and> u < total_n g) \<longrightarrow>
      set_ghost_node_weight g u w = Inl AssertionFailure) \<and>
   (\<not> is_node_weighted g \<longrightarrow>
      set_ghost_node_weight g u w = Inl AssertionFailure \<and> (\<forall>v. node_weight g v = 1))"
  by (auto simp: set_ghost_node_weight_def is_ghost_node_def node_weight_def
      is_node_weighted_def)

theorem set_ghost_node_weight_frame_witness:
  "graph_n example_graph \<le> 2 \<and> 2 < total_n example_graph \<and> is_node_weighted example_graph \<and>
   length (node_weights example_graph) = total_n example_graph \<and>
   set_ghost_node_weight example_graph 2 9 = Inr (example_graph\<lparr>node_weights := [5, 6, 9]\<rparr>) \<and>
   \<not> (graph_n example_graph \<le> 1 \<and> 1 < total_n example_graph) \<and>
   set_ghost_node_weight example_graph 1 9 = Inl AssertionFailure \<and>
   \<not> is_node_weighted example_unweighted \<and>
   set_ghost_node_weight example_unweighted 2 9 = Inl AssertionFailure \<and>
   node_weight example_unweighted 2 = 1"
proof -
  have w: "is_node_weighted example_graph" "\<not> is_node_weighted example_unweighted"
    "length (node_weights example_graph) = 3" "node_weights example_graph = [5, 6, 7]"
    by (simp_all add: is_node_weighted_def example_graph_def example_unweighted_def)
  have r: "set_ghost_node_weight example_graph 2 9
      = Inr (example_graph\<lparr>node_weights := [5, 6, 9]\<rparr>)"
    by (simp add: set_ghost_node_weight_def is_ghost_node_def example_graph_sizes w)
  show ?thesis
    using set_ghost_node_weight_frame [of example_graph 2 9]
      set_ghost_node_weight_frame [of example_graph 1 9]
      set_ghost_node_weight_frame [of example_unweighted 2 9] w r
    by (simp add: example_graph_sizes)
qed
section \<open>Local coarse numbering\<close>

text \<open>
  C6: the number of coarse nodes that the engine computes is the number of non-empty local
  clusters, and every non-empty local cluster gets the number of non-empty clusters below
  it as its coarse identifier, which is below the number of coarse nodes. With no
  non-empty cluster and \<open>n > 0\<close> the last entry of the mapping is the maximum
  \<^verbatim>\<open>NodeID\<close> and the final increment wraps it to zero. The theorem holds at every
  width of \<^verbatim>\<open>NodeID\<close> in which \<open>n\<close> fits; the received node records are
  owned, as the assertion of the source demands.
\<close>

theorem coarse_numbering_counts:
  fixes g :: graph and clustering :: "nat list" and local_nodes :: "GlobalNode list"
  defines "P \<equiv> nonempty_local_cluster g clustering local_nodes"
  assumes n_fits: "graph_n g < 2 ^ LENGTH('a::len)"
    and owned: "list_all (\<lambda>x. is_owned_global_node g (gn_u x)) local_nodes"
  shows "\<exists>m :: 'a word list.
     build_lnode_to_lcnode_mapping g clustering local_nodes = Inr m \<and>
     length m = graph_n g \<and>
     unat (coarse_n m) = card {i. P i} \<and>
     (\<forall>i. P i \<longrightarrow> unat (m ! i) = card {j. j < i \<and> P j} \<and> unat (m ! i) < unat (coarse_n m)) \<and>
     (0 < graph_n g \<and> card {i. P i} = 0 \<longrightarrow> last m = - 1 \<and> coarse_n m = 0)"
proof -
  note f = numbering_facts [OF n_fits owned, of clustering]
  let ?N = "nonempty_local_cluster g clustering local_nodes"
  let ?m = "map (\<lambda>x. x - 1) (prefix_sum (map (\<lambda>i. if ?N i then 1 else 0) [0..<graph_n g]))
              :: 'a word list"
  show ?thesis
    unfolding P_def
  proof (intro exI [of _ ?m] conjI allI impI)
    show "build_lnode_to_lcnode_mapping g clustering local_nodes = Inr ?m" by (rule f(1))
    show "length ?m = graph_n g" by (rule f(2))
    show "unat (coarse_n ?m) = card {i. ?N i}" by (rule f(3))
    show "unat (?m ! i) = card {j. j < i \<and> ?N j}" if "?N i" for i by (rule f(4) [OF that])
    show "unat (?m ! i) < unat (coarse_n ?m)" if "?N i" for i by (rule f(5) [OF that])
    show "last ?m = - 1" if "0 < graph_n g \<and> card {i. ?N i} = 0"
      by (rule conjunct1 [OF f(6) [OF conjunct1 [OF that] conjunct2 [OF that]]])
    show "coarse_n ?m = 0" if "0 < graph_n g \<and> card {i. ?N i} = 0"
      by (rule conjunct2 [OF f(6) [OF conjunct1 [OF that] conjunct2 [OF that]]])
  qed
qed

lemma example_no_cluster:
  "\<not> nonempty_local_cluster example_graph [2, 3, 2] [] i"
  by (auto simp: nonempty_local_cluster_def example_graph_sizes less_2_cases_iff nth_Cons')

theorem coarse_numbering_counts_witness:
  "graph_n example_graph < 2 ^ LENGTH(32) \<and>
   list_all (\<lambda>x. is_owned_global_node example_graph (gn_u x)) [GlobalNode 1 4] \<and>
   (\<exists>m :: 32 word list.
      build_lnode_to_lcnode_mapping example_graph [1, 3, 2] [GlobalNode 1 4] = Inr m \<and>
      length m = 2 \<and>
      unat (coarse_n m)
        = card {i. nonempty_local_cluster example_graph [1, 3, 2] [GlobalNode 1 4] i}) \<and>
   (\<exists>m :: 32 word list.
      build_lnode_to_lcnode_mapping example_graph [2, 3, 2] [] = Inr m \<and>
      last m = - 1 \<and> coarse_n m = 0)"
proof -
  have n: "graph_n example_graph < 2 ^ LENGTH(32)" by (simp add: example_graph_sizes)
  have o: "list_all (\<lambda>x. is_owned_global_node example_graph (gn_u x)) [GlobalNode 1 4]"
    by (simp add: is_owned_global_node_def example_graph_sizes)
  have z: "card {i. nonempty_local_cluster example_graph [2, 3, 2] [] i} = 0"
    by (simp add: example_no_cluster)
  have p: "0 < graph_n example_graph" by (simp add: example_graph_sizes)
  from coarse_numbering_counts [OF n o, of "[1, 3, 2]"]
  have a: "\<exists>m :: 32 word list.
      build_lnode_to_lcnode_mapping example_graph [1, 3, 2] [GlobalNode 1 4] = Inr m \<and>
      length m = 2 \<and>
      unat (coarse_n m)
        = card {i. nonempty_local_cluster example_graph [1, 3, 2] [GlobalNode 1 4] i}"
    by (auto simp: example_graph_sizes)
  from coarse_numbering_counts [OF n, of "[]" "[2, 3, 2]"] z p
  have b: "\<exists>m :: 32 word list.
      build_lnode_to_lcnode_mapping example_graph [2, 3, 2] [] = Inr m \<and>
      last m = - 1 \<and> coarse_n m = 0"
    by auto
  from n o a b show ?thesis by blast
qed

section \<open>Local deduplication of the nonlocal records\<close>

text \<open>
  C4 on the example graph with both owned nodes assigned to the cluster 2 of the other
  process: the two edge records with source 2 and target 2 are coalesced into one record
  of weight 2, while the two node records of cluster 2 stay two records (weights 5 and
  6): \<open>sort_node_list\<close> sorts and does not coalesce.
\<close>

theorem phase_b_keeps_duplicate_node_records:
  "(case find_nonlocal_nodes_and_edges example_graph [2, 2, 2] of
      (ns, es) \<Rightarrow> (sort_node_list ns, deduplicate_edge_list es))
   = ([GlobalNode 2 5, GlobalNode 2 6], [GlobalEdge 2 2 2])"
  by code_simp

theorem phase_b_keeps_duplicate_node_records_witness:
  "sort_node_list (fst (find_nonlocal_nodes_and_edges example_graph [2, 2, 2]))
   \<noteq> [GlobalNode 2 11]"
  using phase_b_keeps_duplicate_node_records by (simp split: prod.splits)


end
